(* ===== verification/Prelude.thy ===== *)
theory Prelude
  imports "HOL-Library.Word"
begin

section \<open>Shared types, results and list lemmas\<close>

text \<open>
  What every component shares: the C integer types of the sources as machine words, the
  ways a C program can go wrong as values of a \<^emph>\<open>fault\<close> type (an operation of the model
  returns \<open>c_fault + 'a\<close>, \<open>Inl\<close> for undefined behaviour, \<open>Inr\<close> for a result, and the error
  codes a C function returns are part of that result), a small heap of byte blocks, the
  C string scan \<open>strchr\<close>, and the lemmas on lists of sizes the components use.
\<close>

named_theorems result_simps \<open>evaluation of fault-or-result computations\<close>

subsection \<open>C integers\<close>

type_synonym u8 = "8 word"
type_synonym u32 = "32 word"
type_synonym size_t = "64 word"
type_synonym ssize_t = "64 word"
type_synonym loff_t = "64 word"

subsection \<open>Faults and results\<close>

datatype c_fault =
    NullDeref        \<comment> \<open>access through a null pointer\<close>
  | BadPointer       \<comment> \<open>access through a pointer to no live object\<close>
  | OutOfBounds      \<comment> \<open>access outside an array or an allocated block\<close>
  | Deadlock         \<comment> \<open>locking a mutex that its owner already holds\<close>
  | UninitMutex      \<comment> \<open>using a mutex before it is initialised\<close>
  | Uninitialised    \<comment> \<open>using an indeterminate value\<close>
  | SignedOverflow   \<comment> \<open>a signed result out of range\<close>

type_synonym 'a result = "c_fault + 'a"

definition bindr :: "'a result \<Rightarrow> ('a \<Rightarrow> 'b result) \<Rightarrow> 'b result" where
  "bindr m f = (case m of Inl e \<Rightarrow> Inl e | Inr x \<Rightarrow> f x)"

lemma bindr_Inl [simp, result_simps]: "bindr (Inl e) f = Inl e"
  by (simp add: bindr_def)

lemma bindr_Inr [simp, result_simps]: "bindr (Inr x) f = f x"
  by (simp add: bindr_def)

lemma bindr_eq_Inr_iff: "bindr m f = Inr y \<longleftrightarrow> (\<exists>x. m = Inr x \<and> f x = Inr y)"
  by (cases m) auto

lemma bindr_InrE [elim!]:
  assumes "bindr m f = Inr y"
  obtains x where "m = Inr x" and "f x = Inr y"
  using assms by (auto simp: bindr_eq_Inr_iff)

lemma bindr_assoc: "bindr (bindr m f) g = bindr m (\<lambda>x. bindr (f x) g)"
  by (cases m) auto

text \<open>
  Loops that need not end run on fuel: a \<open>run\<close> is \<open>None\<close> when the fuel was not enough, and
  otherwise a result.
\<close>

type_synonym 'a run = "'a result option"

abbreviation ret :: "'a \<Rightarrow> 'a run" where "ret x \<equiv> Some (Inr x)"
abbreviation fault :: "c_fault \<Rightarrow> 'a run" where "fault e \<equiv> Some (Inl e)"

definition bindx :: "'a run \<Rightarrow> ('a \<Rightarrow> 'b run) \<Rightarrow> 'b run" where
  "bindx m f = (case m of None \<Rightarrow> None | Some (Inl e) \<Rightarrow> Some (Inl e) | Some (Inr x) \<Rightarrow> f x)"

lemma bindx_simps [simp, result_simps]:
  "bindx None f = None" "bindx (fault e) f = fault e" "bindx (ret x) f = f x"
  by (simp_all add: bindx_def)

lemma bindx_assoc: "bindx (bindx m f) g = bindx m (\<lambda>x. bindx (f x) g)"
  by (simp add: bindx_def split: option.split sum.split)

lemma bindx_retE [elim!]:
  assumes "bindx m f = ret y"
  obtains x where "m = ret x" and "f x = ret y"
  using assms by (auto simp: bindx_def split: option.splits sum.splits)

lemma bindx_Some_cases:
  assumes "bindx m f = Some r"
  obtains (fault) e where "m = fault e" and "r = Inl e"
  | (ret) x where "m = ret x" and "f x = Some r"
  using assms by (auto simp: bindx_def split: option.splits sum.splits)

subsection \<open>A heap of byte blocks\<close>

type_synonym addr = nat
type_synonym heap = "addr \<rightharpoonup> u8 list"

text \<open>Address 0 is the null pointer; a block is reached through the address of its start.\<close>

definition load_bytes :: "heap \<Rightarrow> addr \<Rightarrow> nat \<Rightarrow> nat \<Rightarrow> u8 list result" where
  "load_bytes h p off n =
     (if n = 0 then Inr []
      else if p = 0 then Inl NullDeref
      else case h p of
             None \<Rightarrow> Inl BadPointer
           | Some b \<Rightarrow> if off + n \<le> length b then Inr (take n (drop off b)) else Inl OutOfBounds)"

definition store_bytes :: "heap \<Rightarrow> addr \<Rightarrow> nat \<Rightarrow> u8 list \<Rightarrow> heap result" where
  "store_bytes h p off bs =
     (if bs = [] then Inr h
      else if p = 0 then Inl NullDeref
      else case h p of
             None \<Rightarrow> Inl BadPointer
           | Some b \<Rightarrow>
               if off + length bs \<le> length b
               then Inr (h(p \<mapsto> take off b @ bs @ drop (off + length bs) b))
               else Inl OutOfBounds)"

text \<open>
  \<open>strchr\<close> of the C library: scan for a character up to and including the terminating
  NUL. A block that holds neither is read past its end.
\<close>

fun scan_str :: "u8 \<Rightarrow> u8 list \<Rightarrow> nat option result" where
  "scan_str c [] = Inl OutOfBounds"
| "scan_str c (b # bs) =
     (if b = c then Inr (Some 0)
      else if b = 0 then Inr None
      else bindr (scan_str c bs) (\<lambda>r. Inr (map_option Suc r)))"

text \<open>The scan of the block at \<open>p\<close>, whose object continues with the bytes \<open>slack\<close>.\<close>

definition strchr :: "heap \<Rightarrow> u8 list \<Rightarrow> addr \<Rightarrow> u8 \<Rightarrow> nat option result" where
  "strchr h slack p c =
     (if p = 0 then Inl NullDeref
      else case h p of None \<Rightarrow> Inl BadPointer | Some b \<Rightarrow> scan_str c (b @ slack))"

lemma load_bytes_ok:
  "p \<noteq> 0 \<Longrightarrow> h p = Some b \<Longrightarrow> off + n \<le> length b \<Longrightarrow>
     load_bytes h p off n = Inr (take n (drop off b))"
  by (simp add: load_bytes_def)

lemma store_bytes_ok:
  "p \<noteq> 0 \<Longrightarrow> h p = Some b \<Longrightarrow> off + length bs \<le> length b \<Longrightarrow>
     store_bytes h p off bs = Inr (h(p \<mapsto> take off b @ bs @ drop (off + length bs) b))"
  by (auto simp: store_bytes_def fun_upd_idem)

text \<open>The scan finds the character exactly when it occurs in the C string of the block.\<close>

lemma scan_str_found:
  "c \<notin> set xs \<Longrightarrow> 0 \<notin> set xs \<Longrightarrow> scan_str c (xs @ c # ys) = Inr (Some (length xs))"
  by (induction xs) auto

lemma scan_str_terminated:
  "c \<noteq> 0 \<Longrightarrow> c \<notin> set xs \<Longrightarrow> 0 \<notin> set xs \<Longrightarrow> scan_str c (xs @ 0 # ys) = Inr None"
  by (induction xs) auto

lemma scan_str_overrun:
  "c \<notin> set xs \<Longrightarrow> 0 \<notin> set xs \<Longrightarrow> scan_str c xs = Inl OutOfBounds"
  by (induction xs) auto

lemma bindr_eq_Inl_iff: "bindr m f = Inl e \<longleftrightarrow> m = Inl e \<or> (\<exists>x. m = Inr x \<and> f x = Inl e)"
  by (cases m) auto

text \<open>A scan that passes \<open>xs\<close> has the outcome of the rest; one that leaves the block saw no end.\<close>

lemma scan_str_append:
  "c \<notin> set xs \<Longrightarrow> 0 \<notin> set xs \<Longrightarrow>
   scan_str c (xs @ ys) = bindr (scan_str c ys) (\<lambda>r. Inr (map_option (\<lambda>n. length xs + n) r))"
proof (induction xs)
  case Nil
  show ?case by (cases "scan_str c ys") (simp_all add: map_option.id [unfolded id_def])
next
  case (Cons x xs)
  then show ?case by (cases "scan_str c ys") (auto simp: option.map_comp comp_def)
qed

lemma scan_str_fault_no_end: "scan_str c bs = Inl x \<Longrightarrow> c \<notin> set bs \<and> 0 \<notin> set bs"
  by (induction bs) (auto simp: bindr_eq_Inl_iff split: if_splits)

lemma scan_str_fault: "scan_str c bs = Inl x \<Longrightarrow> x = OutOfBounds"
  by (induction bs) (auto simp: bindr_eq_Inl_iff split: if_splits)

subsection \<open>Lists of sizes\<close>

text \<open>
  The reference definition of a byte position in a sequence of records: which record, and
  which byte of it. It speaks of plain numbers and of no array, index or wrap-around.
\<close>

fun locate :: "nat list \<Rightarrow> nat \<Rightarrow> (nat \<times> nat) option" where
  "locate [] c = None"
| "locate (s # ss) c =
     (if c < s then Some (0, c) else map_option (\<lambda>(k, j). (Suc k, j)) (locate ss (c - s)))"

lemma locate_zeros: "locate (xs @ replicate m 0) c = locate xs c"
proof (induction xs arbitrary: c)
  case Nil
  have "locate (replicate m 0) c = None" by (induction m arbitrary: c) auto
  then show ?case by simp
next
  case (Cons x xs)
  then show ?case by simp
qed

lemma locate_None_iff: "locate ss c = None \<longleftrightarrow> sum_list ss \<le> c"
proof (induction ss arbitrary: c)
  case Nil
  then show ?case by simp
next
  case (Cons s ss)
  then show ?case by (simp add: le_diff_conv2 add.commute not_less trans_le_add1)
qed

lemma locate_SomeD:
  "locate ss c = Some (k, j) \<Longrightarrow>
     k < length ss \<and> j < ss ! k \<and> c = sum_list (take k ss) + j"
proof (induction ss arbitrary: c k)
  case Nil
  then show ?case by simp
next
  case (Cons s ss)
  show ?case
  proof (cases "c < s")
    case True
    with Cons.prems show ?thesis by auto
  next
    case False
    with Cons.prems obtain k' where "locate ss (c - s) = Some (k', j)" and "k = Suc k'"
      by auto
    with Cons.IH [of "c - s" k'] False show ?thesis by auto
  qed
qed

lemma locate_prefix:
  "k < length ss \<Longrightarrow> j < ss ! k \<Longrightarrow> locate ss (sum_list (take k ss) + j) = Some (k, j)"
proof (induction ss arbitrary: k)
  case Nil
  then show ?case by simp
next
  case (Cons s ss)
  then show ?case by (cases k) auto
qed

lemma locate_less_total: "locate ss c = Some (k, j) \<Longrightarrow> c < sum_list ss"
  using locate_None_iff [of ss c] by (simp add: not_le [symmetric])

text \<open>The located record holds the bytes of the concatenation from that position on.\<close>

lemma drop_concat_locate:
  assumes "locate (map length xss) c = Some (k, j)"
  shows "drop c (concat xss) = drop j (xss ! k) @ concat (drop (Suc k) xss)"
  using assms
proof (induction xss arbitrary: c k)
  case Nil
  then show ?case by simp
next
  case (Cons xs xss)
  show ?case
  proof (cases "c < length xs")
    case True
    with Cons.prems show ?thesis by simp
  next
    case False
    with Cons.prems obtain k' where "locate (map length xss) (c - length xs) = Some (k', j)"
      and "k = Suc k'" by auto
    with Cons.IH [of "c - length xs" k'] False show ?thesis by simp
  qed
qed

lemma sum_list_le_mult:
  "(\<And>x. x \<in> set xs \<Longrightarrow> x \<le> m) \<Longrightarrow> sum_list xs \<le> length xs * (m::nat)"
proof (induction xs)
  case Nil
  then show ?case by simp
next
  case (Cons x xs)
  then have "sum_list xs \<le> length xs * m" and "x \<le> m" by simp_all
  then show ?case by simp
qed

lemma sum_list_take_le: "sum_list (take n xs) \<le> sum_list (xs :: nat list)"
proof -
  have "sum_list xs = sum_list (take n xs) + sum_list (drop n xs)"
    by (simp flip: sum_list_append)
  then show ?thesis by simp
qed

lemma length_take_drop_bound: "length (take m (drop p xs)) = m \<Longrightarrow> 0 < m \<Longrightarrow> p + m \<le> length xs"
  by (simp add: min_def split: if_splits)

lemma drop_split: "take n (drop p xs) @ drop (p + n) xs = drop p xs"
  using append_take_drop_id [of n "drop p xs"] by (simp add: add.commute)

lemma unat_add_no_wrap:
  "unat (a :: 'a::len word) + unat b < 2 ^ LENGTH('a) \<Longrightarrow> unat (a + b) = unat a + unat b"
  by (simp add: unat_word_ariths)

lemma unat_less_64: "unat (a :: 64 word) < 2 ^ 64"
  using unsigned_less [of a, where ?'a = nat] by simp

lemma unat_of_nat_64: "n < 2 ^ 64 \<Longrightarrow> unat (of_nat n :: 64 word) = n"
  by (simp add: unat_of_nat)

lemma unat_diff_no_wrap:
  "(b :: 'a::len word) \<le> a \<Longrightarrow> unat (a - b) = unat a - unat b"
  by (simp add: unat_sub)

end
