(* ===== verification/Interfaces.thy ===== *)
theory Interfaces
  imports Prelude
begin

section \<open>Interfaces between the components\<close>

text \<open>
  The contracts one component relies on and another provides, each a locale with the
  operations as parameters and the promised laws as assumptions:
  \<^item> \<open>bounded_fifo\<close>: a store that keeps the most recent \<open>cap\<close> records (the circular
    buffer, relied on by the driver's write);
  \<^item> \<open>located_store\<close>: finding the record that holds a byte position (the circular
    buffer, relied on by the driver's read);
  \<^item> \<open>byte_source\<close>: reading a byte sequence by positioned, possibly short, reads (the
    driver's read and the C library's streams, relied on by the server's send loops).
  The clients' facts are proved here, once, from the laws alone.
\<close>

subsection \<open>A bounded first-in first-out store\<close>

fun add_all :: "('b \<Rightarrow> 'e \<Rightarrow> 'b result) \<Rightarrow> 'b \<Rightarrow> 'e list \<Rightarrow> 'b result" where
  "add_all add b [] = Inr b"
| "add_all add b (e # es) = bindr (add b e) (\<lambda>b'. add_all add b' es)"

locale bounded_fifo =
  fixes init :: 'b
    and add :: "'b \<Rightarrow> 'e \<Rightarrow> 'b result"
    and contents :: "'b \<Rightarrow> 'e list"
    and invar :: "'b \<Rightarrow> bool"
    and cap :: nat
  assumes invar_init: "invar init"
    and contents_init: "contents init = []"
    and contents_bound: "invar b \<Longrightarrow> length (contents b) \<le> cap"
    and add_ok: "invar b \<Longrightarrow>
      \<exists>b'. add b e = Inr b' \<and> invar b' \<and>
        contents b' = drop (Suc (length (contents b)) - cap) (contents b @ [e])"
begin

lemma add_all_ok:
  "invar b \<Longrightarrow>
     \<exists>b'. add_all add b es = Inr b' \<and> invar b' \<and>
       contents b' = drop (length (contents b) + length es - cap) (contents b @ es)"
proof (induction es arbitrary: b)
  case Nil
  then show ?case using contents_bound by simp
next
  case (Cons e es)
  from add_ok [OF Cons.prems, of e] obtain b1 where b1: "add b e = Inr b1" "invar b1"
    "contents b1 = drop (Suc (length (contents b)) - cap) (contents b @ [e])" by blast
  from Cons.IH [OF b1(2)] obtain b2 where b2: "add_all add b1 es = Inr b2" "invar b2"
    "contents b2 = drop (length (contents b1) + length es - cap) (contents b1 @ es)" by blast
  have "contents b2 = drop (length (contents b) + length (e # es) - cap) (contents b @ e # es)"
  proof (cases "Suc (length (contents b)) \<le> cap")
    case True
    then show ?thesis by (simp add: b2(3) b1(3))
  next
    case False
    with contents_bound [OF Cons.prems] have "length (contents b) = cap" by simp
    then show ?thesis by (cases "contents b") (auto simp: b2(3) b1(3))
  qed
  with b1 b2 show ?case by simp
qed

lemma history:
  "\<exists>b'. add_all add init es = Inr b' \<and> invar b' \<and> contents b' = drop (length es - cap) es"
  using add_all_ok [OF invar_init, of es] by (simp add: contents_init)

end

subsection \<open>Finding a byte position\<close>

locale located_store =
  fixes find :: "'b \<Rightarrow> size_t \<Rightarrow> (nat \<times> size_t) option result"
    and slot :: "'b \<Rightarrow> nat \<Rightarrow> nat"
    and entry_at :: "'b \<Rightarrow> nat \<Rightarrow> 'e"
    and contents :: "'b \<Rightarrow> 'e list"
    and esize :: "'e \<Rightarrow> nat"
    and ok :: "'b \<Rightarrow> bool"
  assumes total_bound: "ok b \<Longrightarrow> sum_list (map esize (contents b)) < 2 ^ 64"
    and entry_at_slot: "ok b \<Longrightarrow> k < length (contents b) \<Longrightarrow> entry_at b (slot b k) = contents b ! k"
    and find_ok: "ok b \<Longrightarrow>
      find b c = Inr (map_option (\<lambda>(k, j). (slot b k, of_nat j))
                        (locate (map esize (contents b)) (unat c)))"
begin

lemma find_end: "ok b \<Longrightarrow> sum_list (map esize (contents b)) \<le> unat c \<Longrightarrow> find b c = Inr None"
  by (simp add: find_ok locate_None_iff [THEN iffD2])

lemma find_inside:
  assumes "ok b" and "unat c < sum_list (map esize (contents b))"
  obtains k j where "locate (map esize (contents b)) (unat c) = Some (k, j)"
    and "find b c = Inr (Some (slot b k, of_nat j))"
    and "k < length (contents b)" and "entry_at b (slot b k) = contents b ! k"
    and "j < esize (contents b ! k)" and "unat (of_nat j :: size_t) = j"
proof -
  from assms(2) have "locate (map esize (contents b)) (unat c) \<noteq> None"
    by (simp add: locate_None_iff)
  then obtain k j where l: "locate (map esize (contents b)) (unat c) = Some (k, j)" by auto
  from locate_SomeD [OF l] have k: "k < length (contents b)" and j: "j < esize (contents b ! k)"
    and c: "unat c = sum_list (take k (map esize (contents b))) + j" by auto
  from c have "j < 2 ^ 64" using unat_less_64 [of c] by simp
  then have u: "unat (of_nat j :: size_t) = j" by (rule unat_of_nat_64)
  show thesis
    by (rule that [OF l _ k entry_at_slot [OF assms(1) k] j u]) (simp add: find_ok [OF assms(1)] l)
qed

end

subsection \<open>A source of bytes\<close>

text \<open>
  The loop of a client that reads until it gets nothing and concatenates what it got; \<open>None\<close>
  when \<open>n\<close> reads were not enough.
\<close>

fun drain :: "('s \<Rightarrow> u8 list \<times> 's) \<Rightarrow> nat \<Rightarrow> 's \<Rightarrow> (u8 list \<times> 's) option" where
  "drain rd 0 s = None"
| "drain rd (Suc n) s =
     (case rd s of (bs, s') \<Rightarrow>
        if bs = [] then Some ([], s')
        else map_option (\<lambda>(out, s''). (bs @ out, s'')) (drain rd n s'))"

locale byte_source =
  fixes rd :: "'s \<Rightarrow> u8 list \<times> 's"
    and rest :: "'s \<Rightarrow> u8 list"
    and ok :: "'s \<Rightarrow> bool"
  assumes rd_ok: "ok s \<Longrightarrow> rd s = (bs, s') \<Longrightarrow> ok s' \<and> rest s = bs @ rest s' \<and> (bs = [] \<longrightarrow> rest s = [])"
begin

lemma drain_all:
  "ok s \<Longrightarrow> length (rest s) < n \<Longrightarrow> \<exists>s'. drain rd n s = Some (rest s, s') \<and> ok s' \<and> rest s' = []"
proof (induction n arbitrary: s)
  case 0
  then show ?case by simp
next
  case (Suc n)
  obtain bs s' where rd: "rd s = (bs, s')" by force
  from rd_ok [OF Suc.prems(1) rd] have ok: "ok s'" and rest: "rest s = bs @ rest s'"
    and e: "bs = [] \<longrightarrow> rest s = []" by auto
  show ?case
  proof (cases "bs = []")
    case True
    with rd ok rest e show ?thesis by simp
  next
    case False
    with rest Suc.prems(2) have "length (rest s') < n" by (cases bs) simp_all
    from Suc.IH [OF ok this] False rd rest show ?thesis by auto
  qed
qed

end

end
