(* ===== verification/Circular_Buffer.thy ===== *)
theory Circular_Buffer
  imports Interfaces
begin

section \<open>The circular buffer of write commands\<close>

text \<open>
  \<^verbatim>\<open>aesd-char-driver/aesd-circular-buffer.h\<close> and \<^verbatim>\<open>aesd-circular-buffer.c\<close>: an array of ten
  entries (a pointer and a size each), two \<open>uint8_t\<close> cursors and a flag. The three
  operations are translated with their index arithmetic, the wrap-around of the \<open>size_t\<close>
  additions and the bounds of the array: an index outside the array is the fault
  \<open>OutOfBounds\<close>. The theory shows that the structure is a bounded queue of the ten latest
  entries and that the position search is the plain search through their sizes.
\<close>

named_theorems cb_simps \<open>the operations of the circular buffer on a well-formed buffer\<close>

subsection \<open>Data\<close>

definition AESDCHAR_MAX_WRITE_OPERATIONS_SUPPORTED :: nat where
  "AESDCHAR_MAX_WRITE_OPERATIONS_SUPPORTED = 10"

lemma MAX_OPS [simp]: "AESDCHAR_MAX_WRITE_OPERATIONS_SUPPORTED = 10"
  by (simp add: AESDCHAR_MAX_WRITE_OPERATIONS_SUPPORTED_def)

record aesd_buffer_entry =
  buffptr :: addr
  entry_size :: size_t

record aesd_circular_buffer =
  entry :: "aesd_buffer_entry list"
  in_offs :: u8
  out_offs :: u8
  full :: bool

abbreviation esz :: "aesd_buffer_entry \<Rightarrow> nat" where
  "esz e \<equiv> unat (entry_size e)"

definition null_entry :: aesd_buffer_entry where
  "null_entry = \<lparr>buffptr = 0, entry_size = 0\<rparr>"

lemma null_entry_sel [simp]: "buffptr null_entry = 0" "entry_size null_entry = 0"
  by (simp_all add: null_entry_def)

subsection \<open>Operations\<close>

text \<open>The index step of every loop over the ring: \<open>i = (i + 1) % 10\<close>.\<close>

definition next_index :: "nat \<Rightarrow> nat" where
  "next_index i = (i + 1) mod AESDCHAR_MAX_WRITE_OPERATIONS_SUPPORTED"

text \<open>
  The loop of \<open>aesd_circular_buffer_find_entry_offset_for_fpos\<close>; \<open>n\<close> is the number of
  iterations left (\<open>10 - count\<close>). The returned pointer \<open>&buffer->entry[i]\<close> is the index \<open>i\<close>.
\<close>

fun find_entry_loop ::
  "aesd_circular_buffer \<Rightarrow> size_t \<Rightarrow> nat \<Rightarrow> nat \<Rightarrow> size_t \<Rightarrow> (nat \<times> size_t) option result" where
  "find_entry_loop buffer char_offset 0 i boffset = Inr None"
| "find_entry_loop buffer char_offset (Suc n) i boffset =
     (if i < length (entry buffer) then
        if char_offset < boffset + entry_size (entry buffer ! i)
        then Inr (Some (i, char_offset - boffset))
        else find_entry_loop buffer char_offset n (next_index i)
               (boffset + entry_size (entry buffer ! i))
      else Inl OutOfBounds)"

definition aesd_circular_buffer_find_entry_offset_for_fpos ::
  "aesd_circular_buffer \<Rightarrow> size_t \<Rightarrow> (nat \<times> size_t) option result" where
  "aesd_circular_buffer_find_entry_offset_for_fpos buffer char_offset =
     find_entry_loop buffer char_offset AESDCHAR_MAX_WRITE_OPERATIONS_SUPPORTED
       (unat (out_offs buffer)) 0"

definition aesd_circular_buffer_add_entry ::
  "aesd_circular_buffer \<Rightarrow> aesd_buffer_entry \<Rightarrow> aesd_circular_buffer result" where
  "aesd_circular_buffer_add_entry buffer add_entry =
     (if unat (in_offs buffer) < length (entry buffer) then
        let b1 = buffer\<lparr>entry := (entry buffer)[unat (in_offs buffer) := add_entry]\<rparr>;
            b2 = b1\<lparr>in_offs := of_nat ((unat (in_offs b1) + 1) mod
                                 AESDCHAR_MAX_WRITE_OPERATIONS_SUPPORTED)\<rparr>;
            b3 = (if full b2
                  then b2\<lparr>out_offs := of_nat ((unat (out_offs b2) + 1) mod
                                        AESDCHAR_MAX_WRITE_OPERATIONS_SUPPORTED)\<rparr>
                  else b2)
        in Inr (b3\<lparr>full := (in_offs b3 = out_offs b3)\<rparr>)
      else Inl OutOfBounds)"

definition aesd_circular_buffer_init :: "aesd_circular_buffer \<Rightarrow> aesd_circular_buffer" where
  "aesd_circular_buffer_init buffer =
     \<lparr>entry = replicate AESDCHAR_MAX_WRITE_OPERATIONS_SUPPORTED null_entry,
      in_offs = 0, out_offs = 0, full = False\<rparr>"

text \<open>
  The iteration macro \<open>AESD_CIRCULAR_BUFFER_FOREACH\<close>: the body runs with the entry at
  \<open>index\<close>, for \<open>index\<close> from 0 while it is below ten.
\<close>

function foreach_from ::
  "(aesd_buffer_entry \<Rightarrow> 's \<Rightarrow> 's) \<Rightarrow> aesd_circular_buffer \<Rightarrow> nat \<Rightarrow> 's \<Rightarrow> 's result" where
  "foreach_from body buffer index s =
     (if index < AESDCHAR_MAX_WRITE_OPERATIONS_SUPPORTED then
        if index < length (entry buffer)
        then foreach_from body buffer (index + 1) (body (entry buffer ! index) s)
        else Inl OutOfBounds
      else Inr s)"
  by pat_completeness auto
termination
  by (relation "measure (\<lambda>(body, buffer, index, s). 10 - index)") auto

declare foreach_from.simps [simp del]

definition AESD_CIRCULAR_BUFFER_FOREACH ::
  "(aesd_buffer_entry \<Rightarrow> 's \<Rightarrow> 's) \<Rightarrow> aesd_circular_buffer \<Rightarrow> 's \<Rightarrow> 's result" where
  "AESD_CIRCULAR_BUFFER_FOREACH body buffer s = foreach_from body buffer 0 s"

subsection \<open>Well-formedness and the abstract contents\<close>

definition cb_wf :: "aesd_circular_buffer \<Rightarrow> bool" where
  "cb_wf b \<longleftrightarrow>
     length (entry b) = 10 \<and> unat (in_offs b) < 10 \<and> unat (out_offs b) < 10 \<and>
     (if full b then in_offs b = out_offs b
      else out_offs b = 0 \<and> drop (unat (in_offs b)) (entry b) =
             replicate (10 - unat (in_offs b)) null_entry)"

text \<open>The entries held, oldest first.\<close>

definition cb_list :: "aesd_circular_buffer \<Rightarrow> aesd_buffer_entry list" where
  "cb_list b = (if full b then rotate (unat (out_offs b)) (entry b)
                else take (unat (in_offs b)) (entry b))"

definition cb_total :: "aesd_circular_buffer \<Rightarrow> nat" where
  "cb_total b = sum_list (map esz (cb_list b))"

text \<open>Well-formed, and no sum of sizes wraps around.\<close>

definition cb_ok :: "aesd_circular_buffer \<Rightarrow> bool" where
  "cb_ok b \<longleftrightarrow> cb_wf b \<and> cb_total b < 2 ^ 64"

text \<open>The array index of the \<open>k\<close>-th oldest entry.\<close>

definition cb_slot :: "aesd_circular_buffer \<Rightarrow> nat \<Rightarrow> nat" where
  "cb_slot b k = (unat (out_offs b) + k) mod 10"

lemma cb_wf_init [simp]: "cb_wf (aesd_circular_buffer_init b)"
  by (simp add: cb_wf_def aesd_circular_buffer_init_def)

lemma cb_list_init [simp]: "cb_list (aesd_circular_buffer_init b) = []"
  by (simp add: cb_list_def aesd_circular_buffer_init_def)

lemma length_cb_list: "cb_wf b \<Longrightarrow> length (cb_list b) = (if full b then 10 else unat (in_offs b))"
  by (simp add: cb_wf_def cb_list_def)

lemma length_cb_list_le: "cb_wf b \<Longrightarrow> length (cb_list b) \<le> 10"
  by (simp add: cb_wf_def cb_list_def)

subsection \<open>Adding an entry\<close>

lemma rotate_less: "n < length xs \<Longrightarrow> rotate n xs = drop n xs @ take n xs"
  by (simp add: rotate_drop_take)

lemma rotate_Suc_update:
  assumes "n < length xs"
  shows "rotate (Suc n mod length xs) (xs[n := e]) = tl (rotate n xs) @ [e]"
proof -
  have "rotate (Suc n mod length xs) (xs[n := e]) = rotate1 (rotate n (xs[n := e]))"
    using rotate_conv_mod [of "Suc n" "xs[n := e]"] by simp
  also have "\<dots> = rotate1 (e # drop (Suc n) xs @ take n xs)"
    using assms by (simp add: rotate_less drop_update_swap Cons_nth_drop_Suc [symmetric]
        del: Cons_nth_drop_Suc)
  also have "\<dots> = tl (rotate n xs) @ [e]"
    using assms by (simp add: rotate_less Cons_nth_drop_Suc [symmetric] del: Cons_nth_drop_Suc)
  finally show ?thesis .
qed

lemma unat_of_nat_mod10 [simp]: "unat (of_nat (n mod 10) :: u8) = n mod 10"
proof -
  have "n mod 10 < 10" by simp
  then have "n mod 10 < 2 ^ 8" by (rule less_trans) simp
  then show ?thesis by (simp add: unat_of_nat)
qed

lemma add_entry_not_full:
  assumes wf: "cb_wf b" and nf: "\<not> full b"
  shows "\<exists>b'. aesd_circular_buffer_add_entry b e = Inr b' \<and> cb_wf b' \<and>
           cb_list b' = cb_list b @ [e]"
proof -
  let ?i = "unat (in_offs b)"
  from wf nf have len: "length (entry b) = 10" and i: "?i < 10" and o0: "out_offs b = 0"
    and tail: "drop ?i (entry b) = replicate (10 - ?i) null_entry"
    by (simp_all add: cb_wf_def)
  let ?b = "b\<lparr>entry := (entry b)[?i := e], in_offs := of_nat ((?i + 1) mod 10),
              full := ((of_nat ((?i + 1) mod 10) :: u8) = 0)\<rparr>"
  have add: "aesd_circular_buffer_add_entry b e = Inr ?b"
    using len i nf o0 by (simp add: aesd_circular_buffer_add_entry_def Let_def)
  show ?thesis
  proof (cases "?i = 9")
    case True
    then have "cb_wf ?b" using len o0 by (simp add: cb_wf_def)
    moreover have "cb_list ?b = cb_list b @ [e]"
      using True len nf o0 by (simp add: cb_list_def list_update_append1 [symmetric]
          upd_conv_take_nth_drop)
    ultimately show ?thesis using add by blast
  next
    case False
    with i have m: "(?i + 1) mod 10 = ?i + 1" by simp
    have u: "unat (of_nat (?i + 1) :: u8) = ?i + 1"
      using unat_of_nat_mod10 [of "?i + 1"] unfolding m .
    have nz: "(of_nat (?i + 1) :: u8) \<noteq> 0"
      using u by (metis Suc_eq_plus1 nat.distinct(1) unat_0)
    have "drop (?i + 1) ((entry b)[?i := e]) = replicate (10 - (?i + 1)) null_entry"
    proof -
      have "drop (?i + 1) ((entry b)[?i := e]) = tl (drop ?i (entry b))"
        by (simp add: drop_update_cancel) (simp add: drop_Suc tl_drop)
      then show ?thesis using tail i by (cases "10 - ?i") simp_all
    qed
    then have "cb_wf ?b" using len o0 nz u m i False by (simp add: cb_wf_def)
    moreover have "cb_list ?b = cb_list b @ [e]"
      using nz u m len i nf by (simp add: cb_list_def take_Suc_conv_app_nth)
    ultimately show ?thesis using add by blast
  qed
qed

lemma add_entry_full:
  assumes wf: "cb_wf b" and f: "full b"
  shows "\<exists>b'. aesd_circular_buffer_add_entry b e = Inr b' \<and> cb_wf b' \<and> full b' \<and>
           cb_list b' = tl (cb_list b) @ [e]"
proof -
  let ?i = "unat (out_offs b)"
  from wf f have len: "length (entry b) = 10" and i: "?i < 10" and io: "in_offs b = out_offs b"
    by (simp_all add: cb_wf_def)
  let ?b = "b\<lparr>entry := (entry b)[?i := e], in_offs := of_nat ((?i + 1) mod 10),
              out_offs := of_nat ((?i + 1) mod 10), full := True\<rparr>"
  have add: "aesd_circular_buffer_add_entry b e = Inr ?b"
    using len i io f by (simp add: aesd_circular_buffer_add_entry_def Let_def)
  have "cb_wf ?b" using len by (simp add: cb_wf_def del: of_nat_add of_nat_Suc)
  moreover have "cb_list ?b = tl (cb_list b) @ [e]"
    using rotate_Suc_update [of ?i "entry b" e] len i f
    by (simp add: cb_list_def del: of_nat_add of_nat_Suc)
  ultimately show ?thesis using add by auto
qed

interpretation cb_fifo: bounded_fifo "aesd_circular_buffer_init b0"
  aesd_circular_buffer_add_entry cb_list cb_wf AESDCHAR_MAX_WRITE_OPERATIONS_SUPPORTED
proof unfold_locales
  show "cb_wf (aesd_circular_buffer_init b0)" by simp
  show "cb_list (aesd_circular_buffer_init b0) = []" by simp
next
  fix b assume "cb_wf b"
  then show "length (cb_list b) \<le> AESDCHAR_MAX_WRITE_OPERATIONS_SUPPORTED"
    by (simp add: length_cb_list_le)
next
  fix b e assume wf: "cb_wf b"
  show "\<exists>b'. aesd_circular_buffer_add_entry b e = Inr b' \<and> cb_wf b' \<and>
    cb_list b' = drop (Suc (length (cb_list b)) - AESDCHAR_MAX_WRITE_OPERATIONS_SUPPORTED)
                   (cb_list b @ [e])"
  proof (cases "full b")
    case True
    with length_cb_list [OF wf] have "length (cb_list b) = 10" by simp
    then show ?thesis using add_entry_full [OF wf True, of e]
      by (auto simp: drop_Suc)
  next
    case False
    with length_cb_list [OF wf] wf have "length (cb_list b) < 10" by (simp add: cb_wf_def)
    then show ?thesis using add_entry_not_full [OF wf False, of e] by auto
  qed
qed

subsection \<open>Walking the ring\<close>

text \<open>The \<open>n\<close> entries a loop visits when it starts at index \<open>i\<close>.\<close>

definition ring :: "aesd_circular_buffer \<Rightarrow> nat \<Rightarrow> nat \<Rightarrow> aesd_buffer_entry list" where
  "ring b i n = map (\<lambda>k. entry b ! ((i + k) mod 10)) [0..<n]"

lemma length_ring [simp]: "length (ring b i n) = n"
  by (simp add: ring_def)

lemma ring_0 [simp]: "ring b i 0 = []"
  by (simp add: ring_def)

lemma ring_Suc: "i < 10 \<Longrightarrow> ring b i (Suc n) = entry b ! i # ring b (next_index i) n"
proof -
  assume i: "i < 10"
  have "map (\<lambda>k. entry b ! ((i + k) mod 10)) [Suc 0..<Suc n] = ring b (next_index i) n"
    by (simp add: ring_def map_Suc_upt [symmetric] next_index_def mod_simps
        del: map_Suc_upt upt_Suc)
  then show ?thesis using i by (simp add: ring_def upt_conv_Cons del: upt_Suc)
qed

lemma next_index_less [simp]: "next_index i < 10"
  by (simp add: next_index_def)

lemma ring_rotate: "length (entry b) = 10 \<Longrightarrow> i < 10 \<Longrightarrow> ring b i 10 = rotate i (entry b)"
  by (rule nth_equalityI) (simp_all add: ring_def nth_rotate add.commute)

lemma ring_take: "take m (ring b i n) = ring b i (min m n)"
  by (rule nth_equalityI) (simp_all add: ring_def)

lemma ring_cb_list:
  assumes wf: "cb_wf b"
  shows "ring b (unat (out_offs b)) 10 =
           cb_list b @ replicate (10 - length (cb_list b)) null_entry"
proof (cases "full b")
  case True
  with wf show ?thesis by (simp add: cb_wf_def cb_list_def ring_rotate)
next
  case False
  with wf have len: "length (entry b) = 10" and o0: "out_offs b = 0" and i: "unat (in_offs b) < 10"
    and d: "drop (unat (in_offs b)) (entry b) = replicate (10 - unat (in_offs b)) null_entry"
    by (simp_all add: cb_wf_def)
  have "ring b (unat (out_offs b)) 10 = entry b" using len o0 by (simp add: ring_rotate)
  also have "\<dots> = cb_list b @ drop (unat (in_offs b)) (entry b)"
    using False by (simp add: cb_list_def)
  finally show ?thesis using d len i False by (simp add: cb_list_def)
qed

lemma ring_prefix:
  assumes "cb_wf b" and "n \<le> length (cb_list b)"
  shows "ring b (unat (out_offs b)) n = take n (cb_list b)"
proof -
  have "ring b (unat (out_offs b)) n = take n (ring b (unat (out_offs b)) 10)"
    using assms length_cb_list_le [OF assms(1)] by (simp add: ring_take min_absorb1)
  then show ?thesis using assms(2) by (simp add: ring_cb_list [OF assms(1)])
qed

lemma entry_slot:
  assumes wf: "cb_wf b" and k: "k < length (cb_list b)"
  shows "entry b ! cb_slot b k = cb_list b ! k"
proof -
  from k length_cb_list_le [OF wf] have "k < 10" by simp
  then have "entry b ! cb_slot b k = ring b (unat (out_offs b)) 10 ! k"
    by (simp add: ring_def cb_slot_def)
  then show ?thesis using k by (simp add: ring_cb_list [OF wf] nth_append)
qed

lemma sum_ring_total:
  "cb_wf b \<Longrightarrow> sum_list (map esz (ring b (unat (out_offs b)) 10)) = cb_total b"
  by (simp add: ring_cb_list cb_total_def null_entry_def sum_list_replicate)

subsection \<open>Finding a position\<close>

lemma find_entry_loop_ok:
  assumes "length (entry b) = 10" and "i < 10"
    and "unat bo + sum_list (map esz (ring b i n)) < 2 ^ 64" and "bo \<le> c"
  shows "find_entry_loop b c n i bo =
           Inr (map_option (\<lambda>(k, j). ((i + k) mod 10, of_nat j))
                  (locate (map esz (ring b i n)) (unat c - unat bo)))"
  using assms(2-)
proof (induction n arbitrary: i bo)
  case 0
  then show ?case by simp
next
  case (Suc n)
  let ?e = "entry b ! i"
  note r = ring_Suc [OF Suc.prems(1), of b n]
  from Suc.prems(2) have sum: "unat bo + esz ?e + sum_list (map esz (ring b (next_index i) n)) < 2 ^ 64"
    by (simp add: r)
  then have ub: "unat (bo + entry_size ?e) = unat bo + esz ?e"
    by (intro unat_add_no_wrap) simp
  have le: "unat bo \<le> unat c" using Suc.prems(3) by (simp add: word_le_nat_alt)
  have less: "c < bo + entry_size ?e \<longleftrightarrow> unat c - unat bo < esz ?e"
    using le by (auto simp: word_less_nat_alt ub)
  show ?case
  proof (cases "c < bo + entry_size ?e")
    case True
    then show ?thesis
      using Suc.prems assms(1) less le by (simp add: r unat_sub_if' word_le_nat_alt of_nat_diff)
  next
    case False
    then have bo': "bo + entry_size ?e \<le> c" by simp
    have "find_entry_loop b c (Suc n) i bo =
            find_entry_loop b c n (next_index i) (bo + entry_size ?e)"
      using False Suc.prems(1) assms(1) by simp
    also have "\<dots> = Inr (map_option (\<lambda>(k, j). ((next_index i + k) mod 10, of_nat j))
        (locate (map esz (ring b (next_index i) n)) (unat c - (unat bo + esz ?e))))"
      using Suc.IH [OF next_index_less _ bo'] sum by (simp add: ub)
    finally show ?thesis
      using False less
      by (simp add: r next_index_def mod_simps option.map_comp comp_def case_prod_unfold add.assoc
          diff_diff_left)
  qed
qed

lemma find_entry_offset_ok:
  assumes "cb_ok b"
  shows "aesd_circular_buffer_find_entry_offset_for_fpos b c =
           Inr (map_option (\<lambda>(k, j). (cb_slot b k, of_nat j)) (locate (map esz (cb_list b)) (unat c)))"
proof -
  from assms have wf: "cb_wf b" and t: "cb_total b < 2 ^ 64" by (simp_all add: cb_ok_def)
  have "map esz (ring b (unat (out_offs b)) 10) =
          map esz (cb_list b) @ replicate (10 - length (cb_list b)) 0"
    by (simp add: ring_cb_list [OF wf] null_entry_def)
  moreover have "find_entry_loop b c 10 (unat (out_offs b)) 0 =
      Inr (map_option (\<lambda>(k, j). (cb_slot b k, of_nat j))
        (locate (map esz (ring b (unat (out_offs b)) 10)) (unat c)))"
    using find_entry_loop_ok [of b "unat (out_offs b)" 0 10 c] wf t
    by (simp add: sum_ring_total [OF wf] cb_wf_def cb_slot_def)
  ultimately show ?thesis
    by (simp add: aesd_circular_buffer_find_entry_offset_for_fpos_def locate_zeros)
qed

interpretation cb_store: located_store aesd_circular_buffer_find_entry_offset_for_fpos
  cb_slot "\<lambda>b i. entry b ! i" cb_list esz cb_ok
  by unfold_locales
    (simp_all add: cb_ok_def cb_total_def entry_slot find_entry_offset_ok)

subsection \<open>The iteration macro\<close>

lemma foreach_from_fold:
  assumes "length (entry b) = 10" and "i \<le> 10"
  shows "foreach_from f b i s = Inr (fold f (drop i (entry b)) s)"
  using assms(2)
proof (induction "10 - i" arbitrary: i s)
  case 0
  then have "i = 10" by simp
  then show ?case using assms(1) by (simp add: foreach_from.simps [of f b 10 s])
next
  case (Suc n)
  then have i: "i < 10" by simp
  have "foreach_from f b (i + 1) (f (entry b ! i) s) = Inr (fold f (drop (i + 1) (entry b)) (f (entry b ! i) s))"
    using Suc.hyps i by simp
  then show ?case using i assms(1)
    by (simp add: foreach_from.simps [of f b i s] Cons_nth_drop_Suc [symmetric] del: Cons_nth_drop_Suc)
qed

subsection \<open>Properties\<close>

text \<open>
  Claim C9: Ten-deep history. Starting from the initialised buffer, any sequence of
  \<open>aesd_circular_buffer_add_entry\<close> calls stays inside the array (no fault), keeps the
  buffer well-formed, and leaves exactly the last ten entries added, oldest first.
\<close>

theorem add_entry_history:
  "\<exists>b'. add_all aesd_circular_buffer_add_entry (aesd_circular_buffer_init b0) es = Inr b' \<and>
        cb_wf b' \<and> cb_list b' = drop (length es - AESDCHAR_MAX_WRITE_OPERATIONS_SUPPORTED) es"
  by (rule cb_fifo.history)

text \<open>
  One call of \<open>aesd_circular_buffer_add_entry\<close> on a well-formed buffer appends the
  new entry; a buffer that already holds ten entries drops its oldest one, and only then.
\<close>

theorem add_entry_queue:
  assumes "cb_wf b"
  shows "\<exists>b'. aesd_circular_buffer_add_entry b e = Inr b' \<and> cb_wf b' \<and>
           cb_list b' = (if full b then tl (cb_list b) else cb_list b) @ [e]"
  using add_entry_full [OF assms, of e] add_entry_not_full [OF assms, of e] by auto

definition three_entries :: "aesd_buffer_entry list" where
  "three_entries = [\<lparr>buffptr = 100, entry_size = 4\<rparr>, \<lparr>buffptr = 200, entry_size = 2\<rparr>,
     \<lparr>buffptr = 300, entry_size = 7\<rparr>]"

definition three_buffer :: aesd_circular_buffer where
  "three_buffer = \<lparr>entry = three_entries @ replicate 7 null_entry,
     in_offs = 3, out_offs = 0, full = False\<rparr>"

lemma three_buffer_sel [simp]:
  "entry three_buffer = three_entries @ replicate 7 null_entry" "in_offs three_buffer = 3"
  "out_offs three_buffer = 0" "full three_buffer = False"
  by (simp_all add: three_buffer_def)

lemma three_buffer_ok [simp]: "cb_ok three_buffer" "cb_wf three_buffer"
  "cb_list three_buffer = three_entries"
  by (simp_all add: cb_ok_def cb_wf_def cb_list_def cb_total_def three_entries_def)

theorem add_entry_queue_witness:
  "\<exists>b'. aesd_circular_buffer_add_entry three_buffer null_entry = Inr b' \<and> cb_wf b' \<and>
        cb_list b' = three_entries @ [null_entry]"
  using add_entry_queue [OF three_buffer_ok(2), of null_entry] by simp

text \<open>
  Claim C14: The position search of \<open>aesd_circular_buffer_find_entry_offset_for_fpos\<close> is the
  plain search through the sizes of the entries held, oldest first: it returns NULL exactly
  when the offset lies at or past the end, and otherwise the array slot of the entry that
  holds the byte, with the byte's offset in it. It reads no slot outside the array.
\<close>

theorem find_entry_is_locate:
  assumes "cb_ok b"
  shows "aesd_circular_buffer_find_entry_offset_for_fpos b c =
           (case locate (map esz (cb_list b)) (unat c) of
              None \<Rightarrow> Inr None
            | Some (k, j) \<Rightarrow> Inr (Some (cb_slot b k, of_nat j)))"
  by (simp add: cb_store.find_ok [OF assms] split: option.split)

theorem find_entry_is_locate_witness:
  "aesd_circular_buffer_find_entry_offset_for_fpos three_buffer 5 = Inr (Some (1, 1)) \<and>
   aesd_circular_buffer_find_entry_offset_for_fpos three_buffer 13 = Inr None"
  using find_entry_is_locate [OF three_buffer_ok(1), of 5]
    find_entry_is_locate [OF three_buffer_ok(1), of 13]
  by (simp add: three_entries_def) (simp add: cb_slot_def)

text \<open>
  Every byte position is found where it was put: byte \<open>j\<close> of the \<open>k\<close>-th oldest
  entry is found at the offset that counts the bytes before it.
\<close>

theorem find_entry_prefix:
  assumes "cb_ok b" and "k < length (cb_list b)" and "j < esz (cb_list b ! k)"
  shows "aesd_circular_buffer_find_entry_offset_for_fpos b
           (of_nat (sum_list (take k (map esz (cb_list b))) + j)) =
           Inr (Some (cb_slot b k, of_nat j)) \<and> entry b ! cb_slot b k = cb_list b ! k"
proof -
  have l: "locate (map esz (cb_list b)) (sum_list (take k (map esz (cb_list b))) + j) = Some (k, j)"
    using assms by (intro locate_prefix) simp_all
  from locate_less_total [OF l] cb_store.total_bound [OF assms(1)]
  have "unat (of_nat (sum_list (take k (map esz (cb_list b))) + j) :: size_t) =
          sum_list (take k (map esz (cb_list b))) + j"
    by (intro unat_of_nat_64) (rule less_trans)
  then show ?thesis
    using l by (simp add: cb_store.find_ok [OF assms(1)] cb_store.entry_at_slot [OF assms(1,2)]
        del: of_nat_add)
qed

theorem find_entry_prefix_witness:
  "aesd_circular_buffer_find_entry_offset_for_fpos three_buffer (of_nat (4 + 2 + 3)) =
     Inr (Some (2, 3))"
  using find_entry_prefix [OF three_buffer_ok(1), of 2 3]
  by (simp add: three_entries_def) (simp add: cb_slot_def)

text \<open>
  The macro \<open>AESD_CIRCULAR_BUFFER_FOREACH\<close> terminates and runs its body once for
  each of the ten array slots, in array order and within the array.
\<close>

theorem foreach_visits_all:
  assumes "cb_wf b"
  shows "AESD_CIRCULAR_BUFFER_FOREACH body b s = Inr (fold body (entry b) s)"
  using foreach_from_fold [of b 0 body s] assms
  by (simp add: AESD_CIRCULAR_BUFFER_FOREACH_def cb_wf_def)

theorem foreach_visits_all_witness:
  "AESD_CIRCULAR_BUFFER_FOREACH (\<lambda>e n. n + esz e) three_buffer 0 = Inr 13"
  using foreach_visits_all [OF three_buffer_ok(2), of "\<lambda>e n. n + esz e" 0]
  by (simp add: three_entries_def null_entry_def id_def [symmetric])

end
