(* ===== verification/Char_Driver.thy ===== *)
theory Char_Driver
  imports Circular_Buffer
begin

unbundle bit_operations_syntax

section \<open>The character driver: file operations\<close>

text \<open>
  \<^verbatim>\<open>aesd-char-driver/main.c\<close>, \<^verbatim>\<open>aesdchar.h\<close> and \<^verbatim>\<open>aesd_ioctl.h\<close>: the device structure and the
  handlers \<open>open\<close>, \<open>release\<close>, \<open>read\<close>, \<open>write\<close>, \<open>llseek\<close> and \<open>unlocked_ioctl\<close>. Each handler is
  one definition over the kernel state (the device and the heap), with the mutex, every
  early return and every memory access written out.

  The kernel services the handlers call are not part of the repository; they are the fields
  of the record \<open>kernel\<close>, an argument of the handlers, and \<open>kernel_ok\<close> states what their
  documentation promises. An allocated block has exactly the requested bytes; the bytes of
  the same object after them, which a string scan can run into, are the field \<open>slack\<close>.
\<close>

named_theorems drv_defs \<open>the definitions of the driver's operations\<close>

subsection \<open>Kernel services\<close>

type_synonym uaddr = size_t

record kernel =
  kzalloc :: "heap \<Rightarrow> size_t \<Rightarrow> addr \<times> heap"
  krealloc :: "heap \<Rightarrow> addr \<Rightarrow> size_t \<Rightarrow> addr \<times> heap"
  copy_from_user :: "uaddr \<Rightarrow> size_t \<Rightarrow> size_t \<times> u8 list"
    \<comment> \<open>the number of bytes not copied, and the bytes stored at the destination\<close>
  copy_to_user :: "uaddr \<Rightarrow> u8 list \<Rightarrow> size_t"
    \<comment> \<open>the number of bytes not copied\<close>
  slack :: "heap \<Rightarrow> addr \<Rightarrow> u8 list"
  kmalloc_max :: nat

text \<open>
  \<open>kzalloc(n)\<close>: NULL, or a fresh block of \<open>n\<close> zero bytes; for \<open>n = 0\<close> the address
  \<open>ZERO_SIZE_PTR\<close>, which is not null, is never the address of a block and may not be
  dereferenced.
\<close>

definition ZERO_SIZE_PTR :: addr where "ZERO_SIZE_PTR = 16"

definition kzalloc_ok :: "kernel \<Rightarrow> bool" where
  "kzalloc_ok k \<longleftrightarrow> (\<forall>h n p h'. kzalloc k h n = (p, h') \<longrightarrow>
     (if n = 0 then p = ZERO_SIZE_PTR \<and> h' = h
      else p = 0 \<and> h' = h \<or>
           p \<noteq> 0 \<and> p \<noteq> ZERO_SIZE_PTR \<and> h p = None \<and> unat n \<le> kmalloc_max k \<and> h' = h(p \<mapsto> replicate (unat n) 0)))"

text \<open>
  \<open>krealloc(p, n)\<close> for \<open>n > 0\<close>: NULL, leaving the block; or a block of \<open>n\<close> bytes, in place
  or fresh, that keeps the old contents up to the smaller size. On a null pointer it
  allocates; the contents are then unspecified.
\<close>

definition krealloc_ok :: "kernel \<Rightarrow> bool" where
  "krealloc_ok k \<longleftrightarrow> (\<forall>h p n q h'. krealloc k h p n = (q, h') \<longrightarrow> n \<noteq> 0 \<longrightarrow> p = 0 \<or> h p \<noteq> None \<longrightarrow>
     q = 0 \<and> h' = h \<or>
     q \<noteq> 0 \<and> q \<noteq> ZERO_SIZE_PTR \<and> (p \<noteq> 0 \<and> q = p \<or> h q = None) \<and> unat n \<le> kmalloc_max k \<and>
       (\<exists>blk. length blk = unat n \<and> h' = (if p = 0 then h else h(p := None))(q \<mapsto> blk) \<and>
          (\<forall>old. p \<noteq> 0 \<longrightarrow> h p = Some old \<longrightarrow>
             take (min (length old) (unat n)) blk = take (min (length old) (unat n)) old)))"

text \<open>
  \<open>copy_from_user\<close> fills the destination (the part that could not be copied is zeroed) and
  both copies report how many bytes they could not copy, at most all of them.
\<close>

definition copy_ok :: "kernel \<Rightarrow> bool" where
  "copy_ok k \<longleftrightarrow>
     (\<forall>u n r bs. copy_from_user k u n = (r, bs) \<longrightarrow>
        r \<le> n \<and> length bs = unat n \<and> drop (unat (n - r)) bs = replicate (unat r) 0) \<and>
     (\<forall>u bs. unat (copy_to_user k u bs) \<le> length bs)"

definition kernel_ok :: "kernel \<Rightarrow> bool" where
  "kernel_ok k \<longleftrightarrow> kzalloc_ok k \<and> krealloc_ok k \<and> copy_ok k \<and> kmalloc_max k \<le> 2 ^ 32"

text \<open>The largest count the VFS passes to a read or write handler (\<open>MAX_RW_COUNT\<close>).\<close>

definition MAX_RW_COUNT :: nat where
  "MAX_RW_COUNT = 0x7ffff000"

subsection \<open>Device, files and error codes\<close>

datatype mutex = MutexUninit | Unlocked | Locked

record aesd_dev =
  circular_buffer :: aesd_circular_buffer
  dev_entry :: aesd_buffer_entry
  mtx :: mutex

text \<open>The one device structure of the module is the global \<open>aesd_device\<close>.\<close>

datatype dev_ptr = Aesd_device

record kstate =
  aesd_device :: aesd_dev
  kheap :: heap

record inode =
  i_cdev :: dev_ptr

record open_file =
  private_data :: "dev_ptr option"
  f_pos :: loff_t

definition ENOMEM :: "64 word" where "ENOMEM = 12"
definition EFAULT :: "64 word" where "EFAULT = 14"
definition EINVAL :: "64 word" where "EINVAL = 22"
definition ENOTTY :: "64 word" where "ENOTTY = 25"

lemmas errno_defs = ENOMEM_def EFAULT_def EINVAL_def ENOTTY_def

definition NEWLINE :: u8 where "NEWLINE = 10"

definition mutex_lock :: "kstate \<Rightarrow> kstate result" where
  "mutex_lock s =
     (case mtx (aesd_device s) of
        MutexUninit \<Rightarrow> Inl UninitMutex
      | Locked \<Rightarrow> Inl Deadlock
      | Unlocked \<Rightarrow> Inr (s\<lparr>aesd_device := (aesd_device s)\<lparr>mtx := Locked\<rparr>\<rparr>))"

definition mutex_unlock :: "kstate \<Rightarrow> kstate" where
  "mutex_unlock s = s\<lparr>aesd_device := (aesd_device s)\<lparr>mtx := Unlocked\<rparr>\<rparr>"

text \<open>Following \<open>filp->private_data\<close> to the device; a null pointer is a fault.\<close>

definition deref_dev :: "open_file \<Rightarrow> unit result" where
  "deref_dev filp = (case private_data filp of None \<Rightarrow> Inl NullDeref | Some Aesd_device \<Rightarrow> Inr ())"

subsection \<open>open and release\<close>

text \<open>\<open>container_of\<close> of the embedded \<open>cdev\<close>, the first member of the device structure.\<close>

definition aesd_open :: "inode \<Rightarrow> open_file \<Rightarrow> 64 word \<times> open_file" where
  "aesd_open inode filp = (0, filp\<lparr>private_data := Some (i_cdev inode)\<rparr>)"

definition aesd_release :: "inode \<Rightarrow> open_file \<Rightarrow> 64 word \<times> open_file" where
  "aesd_release inode filp = (0, filp)"

subsection \<open>read\<close>

text \<open>
  The result is the return value, the new \<open>*f_pos\<close>, the bytes that reached the user buffer
  and the kernel state.
\<close>

definition aesd_read ::
  "kernel \<Rightarrow> open_file \<Rightarrow> uaddr \<Rightarrow> size_t \<Rightarrow> loff_t \<Rightarrow> kstate \<Rightarrow>
     (ssize_t \<times> loff_t \<times> u8 list \<times> kstate) result" where
  "aesd_read k filp buf count pos s =
     bindr (deref_dev filp) (\<lambda>_.
     bindr (mutex_lock s) (\<lambda>s.
     let cb = circular_buffer (aesd_device s) in
     bindr (aesd_circular_buffer_find_entry_offset_for_fpos cb pos) (\<lambda>found.
       case found of
         None \<Rightarrow> Inr (0, pos, [], mutex_unlock s)
       | Some (i, offset) \<Rightarrow>
           let buffer = entry cb ! i;
               retval = (if count < entry_size buffer - offset then count
                         else entry_size buffer - offset)
           in bindr (load_bytes (kheap s) (buffptr buffer) (unat offset) (unat retval)) (\<lambda>bs.
                let uncopied = copy_to_user k buf bs in
                if uncopied \<noteq> 0
                then Inr (- EFAULT, pos, take (length bs - unat uncopied) bs, mutex_unlock s)
                else Inr (retval, pos + retval, bs, mutex_unlock s)))))"

subsection \<open>write\<close>

definition set_entry :: "kstate \<Rightarrow> aesd_buffer_entry \<Rightarrow> kstate" where
  "set_entry s e = s\<lparr>aesd_device := (aesd_device s)\<lparr>dev_entry := e\<rparr>\<rparr>"

text \<open>The allocation at the start of \<open>aesd_write\<close>: a new block, or the pending one enlarged.\<close>

definition entry_alloc :: "kernel \<Rightarrow> heap \<Rightarrow> aesd_buffer_entry \<Rightarrow> size_t \<Rightarrow> addr \<times> heap" where
  "entry_alloc k h e count =
     (if entry_size e = 0 then kzalloc k h count
      else krealloc k h (buffptr e) (entry_size e + count))"

definition aesd_write ::
  "kernel \<Rightarrow> open_file \<Rightarrow> uaddr \<Rightarrow> size_t \<Rightarrow> kstate \<Rightarrow> (ssize_t \<times> kstate) result" where
  "aesd_write k filp buf count s =
     bindr (deref_dev filp) (\<lambda>_.
     bindr (mutex_lock s) (\<lambda>s.
     let e = dev_entry (aesd_device s);
         (p, h) = entry_alloc k (kheap s) e count;
         s = set_entry (s\<lparr>kheap := h\<rparr>) (e\<lparr>buffptr := p\<rparr>)
     in if p = 0 then Inr (- ENOMEM, mutex_unlock s)
        else
          let (remain, bs) = copy_from_user k buf count in
          bindr (store_bytes (kheap s) p (unat (entry_size e)) bs) (\<lambda>h.
            let retval = (if 0 < sint remain then count - remain else count);
                e = (dev_entry (aesd_device s))\<lparr>entry_size := entry_size e + retval\<rparr>;
                s = set_entry (s\<lparr>kheap := h\<rparr>) e
            in bindr (strchr h (slack k h p) p NEWLINE) (\<lambda>found.
                 if found \<noteq> None then
                   bindr (aesd_circular_buffer_add_entry (circular_buffer (aesd_device s)) e) (\<lambda>cb.
                     Inr (retval, mutex_unlock
                       (set_entry (s\<lparr>aesd_device := (aesd_device s)\<lparr>circular_buffer := cb\<rparr>\<rparr>)
                          \<lparr>buffptr = 0, entry_size = 0\<rparr>)))
                 else Inr (retval, mutex_unlock s)))))"

subsection \<open>llseek\<close>

datatype whence = SEEK_SET | SEEK_CUR | SEEK_END | SEEK_OTHER int

text \<open>
  The loop that adds up entry sizes, at most \<open>n\<close> of them, from index \<open>i\<close>: it adds first and
  then stops at the write cursor of a buffer that is not full.
\<close>

fun size_sum_loop :: "aesd_circular_buffer \<Rightarrow> nat \<Rightarrow> nat \<Rightarrow> size_t \<Rightarrow> size_t result" where
  "size_sum_loop buffer 0 i total_size = Inr total_size"
| "size_sum_loop buffer (Suc n) i total_size =
     (if i < length (entry buffer) then
        if i = unat (in_offs buffer) \<and> \<not> full buffer
        then Inr (total_size + entry_size (entry buffer ! i))
        else size_sum_loop buffer n (next_index i) (total_size + entry_size (entry buffer ! i))
      else Inl OutOfBounds)"

definition aesd_llseek ::
  "open_file \<Rightarrow> loff_t \<Rightarrow> whence \<Rightarrow> kstate \<Rightarrow> (loff_t \<times> open_file \<times> kstate) result" where
  "aesd_llseek file offset whence s =
     bindr (deref_dev file) (\<lambda>_.
     bindr (mutex_lock s) (\<lambda>s.
     let buffer = circular_buffer (aesd_device s) in
     bindr (size_sum_loop buffer AESDCHAR_MAX_WRITE_OPERATIONS_SUPPORTED
              (unat (out_offs buffer)) 0) (\<lambda>total_size.
       let target = (case whence of
                       SEEK_SET \<Rightarrow> Some offset
                     | SEEK_CUR \<Rightarrow> Some (f_pos file + offset)
                     | SEEK_END \<Rightarrow> Some (total_size + offset)
                     | SEEK_OTHER _ \<Rightarrow> None)
       in case target of
            None \<Rightarrow> Inr (- EINVAL, file, mutex_unlock s)
          | Some new_pos \<Rightarrow>
              if sint new_pos < 0 \<or> total_size < new_pos
              then Inr (- EINVAL, file, mutex_unlock s)
              else Inr (new_pos, file\<lparr>f_pos := new_pos\<rparr>, mutex_unlock s))))"

subsection \<open>ioctl\<close>

record aesd_seekto =
  write_cmd :: u32
  write_cmd_offset :: u32

text \<open>The command word: direction (2 bits), argument size (14), type (8) and number (8).\<close>

definition ioc_type :: "u32 \<Rightarrow> u32" where "ioc_type cmd = drop_bit 8 cmd AND 0xff"
definition ioc_nr :: "u32 \<Rightarrow> u32" where "ioc_nr cmd = cmd AND 0xff"
definition iowr :: "u32 \<Rightarrow> u32 \<Rightarrow> u32 \<Rightarrow> u32" where
  "iowr ty nr sz = push_bit 30 3 OR push_bit 8 ty OR nr OR push_bit 16 sz"

definition AESD_IOC_MAGIC :: u32 where "AESD_IOC_MAGIC = 0x16"
definition AESDCHAR_IOCSEEKTO :: u32 where "AESDCHAR_IOCSEEKTO = iowr AESD_IOC_MAGIC 1 8"
definition AESDCHAR_IOC_MAXNR :: u32 where "AESDCHAR_IOC_MAXNR = 1"

text \<open>The argument structure in memory: two 32-bit fields, least significant byte first.\<close>

definition le32_bytes :: "u32 \<Rightarrow> u8 list" where
  "le32_bytes w = map (\<lambda>i. ucast (drop_bit (8 * i) w)) [0, 1, 2, 3]"

fun le32_word :: "u8 list \<Rightarrow> u32" where
  "le32_word [] = 0"
| "le32_word (b # bs) = ucast b OR push_bit 8 (le32_word bs)"

definition seekto_bytes :: "aesd_seekto \<Rightarrow> u8 list" where
  "seekto_bytes t = le32_bytes (write_cmd t) @ le32_bytes (write_cmd_offset t)"

definition seekto_of_bytes :: "u8 list \<Rightarrow> aesd_seekto" where
  "seekto_of_bytes bs = \<lparr>write_cmd = le32_word (take 4 bs),
                         write_cmd_offset = le32_word (take 4 (drop 4 bs))\<rparr>"

text \<open>The loop that counts the entries held; \<open>n\<close> iterations are left.\<close>

fun count_loop :: "aesd_circular_buffer \<Rightarrow> nat \<Rightarrow> nat \<Rightarrow> nat \<Rightarrow> nat" where
  "count_loop buffer 0 i count = count"
| "count_loop buffer (Suc n) i count =
     (if i = unat (in_offs buffer) \<and> \<not> full buffer then count
      else count_loop buffer n (next_index i) (count + 1))"

definition aesd_ioctl ::
  "kernel \<Rightarrow> open_file \<Rightarrow> u32 \<Rightarrow> uaddr \<Rightarrow> kstate \<Rightarrow> (64 word \<times> open_file \<times> kstate) result" where
  "aesd_ioctl k filp cmd arg s =
     (if ioc_type cmd \<noteq> AESD_IOC_MAGIC then Inr (- ENOTTY, filp, s)
     else if AESDCHAR_IOC_MAXNR < ioc_nr cmd then Inr (- ENOTTY, filp, s)
     else if cmd \<noteq> AESDCHAR_IOCSEEKTO then Inr (- ENOTTY, filp, s)
     else
       let (uncopied, bs) = copy_from_user k arg 8 in
       if uncopied \<noteq> 0 then Inr (- EFAULT, filp, s)
       else
         let seekto = seekto_of_bytes bs in
         bindr (deref_dev filp) (\<lambda>_.
         bindr (mutex_lock s) (\<lambda>s.
         let buffer = circular_buffer (aesd_device s);
             count = count_loop buffer AESDCHAR_MAX_WRITE_OPERATIONS_SUPPORTED
                       (unat (out_offs buffer)) 0
         in if count \<le> unat (write_cmd seekto) then Inr (- EINVAL, filp, mutex_unlock s)
            else if length (entry buffer) \<le> unat (write_cmd seekto) then Inl OutOfBounds
            else if entry_size (entry buffer ! unat (write_cmd seekto)) \<le>
                      ucast (write_cmd_offset seekto)
                 then Inr (- EINVAL, filp, mutex_unlock s)
            else bindr (size_sum_loop buffer (unat (write_cmd seekto))
                          (unat (out_offs buffer)) 0) (\<lambda>new_pos.
                   Inr (0, filp\<lparr>f_pos := new_pos + ucast (write_cmd_offset seekto)\<rparr>,
                        mutex_unlock s)))))"

subsection \<open>The table of file operations\<close>

record file_operations =
  fop_read :: "kernel \<Rightarrow> open_file \<Rightarrow> uaddr \<Rightarrow> size_t \<Rightarrow> loff_t \<Rightarrow> kstate \<Rightarrow>
    (ssize_t \<times> loff_t \<times> u8 list \<times> kstate) result"
  fop_write :: "kernel \<Rightarrow> open_file \<Rightarrow> uaddr \<Rightarrow> size_t \<Rightarrow> kstate \<Rightarrow> (ssize_t \<times> kstate) result"
  fop_open :: "inode \<Rightarrow> open_file \<Rightarrow> 64 word \<times> open_file"
  fop_release :: "inode \<Rightarrow> open_file \<Rightarrow> 64 word \<times> open_file"
  fop_llseek :: "open_file \<Rightarrow> loff_t \<Rightarrow> whence \<Rightarrow> kstate \<Rightarrow> (loff_t \<times> open_file \<times> kstate) result"
  fop_unlocked_ioctl :: "kernel \<Rightarrow> open_file \<Rightarrow> u32 \<Rightarrow> uaddr \<Rightarrow> kstate \<Rightarrow> (64 word \<times> open_file \<times> kstate) result"

definition aesd_fops :: file_operations where
  "aesd_fops =
     \<lparr>fop_read = aesd_read, fop_write = aesd_write, fop_open = aesd_open, fop_release = aesd_release,
      fop_llseek = aesd_llseek, fop_unlocked_ioctl = aesd_ioctl\<rparr>"

lemma aesd_fops_sel [simp]:
  "fop_read aesd_fops = aesd_read" "fop_write aesd_fops = aesd_write" "fop_open aesd_fops = aesd_open"
  "fop_release aesd_fops = aesd_release" "fop_llseek aesd_fops = aesd_llseek"
  "fop_unlocked_ioctl aesd_fops = aesd_ioctl"
  by (simp_all add: aesd_fops_def)

lemmas driver_defs [drv_defs] = aesd_read_def aesd_write_def aesd_llseek_def aesd_ioctl_def

end
