(* ===== verification/Server_Command.thy ===== *)
theory Server_Command
  imports Char_Driver
begin

section \<open>The server's seek command\<close>

text \<open>
  \<^verbatim>\<open>server/aesdsocket_linkedlists.c\<close> recognises one textual command in what a client sends,
  with \<^verbatim>\<open>sscanf(buffer, "AESDCHAR_IOCSEEKTO:%u,%u", ...) == 2\<close>. This theory models the two
  kinds of directive that the format has: a character that must match, and an unsigned
  decimal conversion, which skips white space, takes an optional sign and then digits.
  Values that do not fit in 32 bits, and negative ones, are undefined behaviour of the
  conversion; what they yield is the parameter \<open>ovf\<close>.
\<close>

definition ascii :: "string \<Rightarrow> u8 list" where
  "ascii cs = map of_char cs"

text \<open>The C string in a buffer: the bytes before the first NUL.\<close>

definition c_string :: "u8 list \<Rightarrow> u8 list" where
  "c_string bs = takeWhile (\<lambda>b. b \<noteq> 0) bs"

definition is_space :: "u8 \<Rightarrow> bool" where
  "is_space b \<longleftrightarrow> b = 32 \<or> 9 \<le> b \<and> b \<le> 13"

definition is_digit :: "u8 \<Rightarrow> bool" where
  "is_digit b \<longleftrightarrow> 48 \<le> b \<and> b \<le> 57"

definition digit_val :: "u8 \<Rightarrow> nat" where
  "digit_val b = unat (b - 48)"

definition decimal :: "u8 list \<Rightarrow> nat" where
  "decimal ds = foldl (\<lambda>n d. 10 * n + digit_val d) 0 ds"

text \<open>One \<^verbatim>\<open>%u\<close> conversion: the value and the rest of the input, or \<open>None\<close> without digits.\<close>

fun scan_sign :: "u8 list \<Rightarrow> bool \<times> u8 list" where
  "scan_sign [] = (False, [])"
| "scan_sign (b # bs) = (if b = 45 then (True, bs) else if b = 43 then (False, bs) else (False, b # bs))"

definition scan_u :: "(bool \<Rightarrow> nat \<Rightarrow> u32) \<Rightarrow> u8 list \<Rightarrow> (u32 \<times> u8 list) option" where
  "scan_u ovf bs =
     (let (neg, bs) = scan_sign (dropWhile is_space bs);
          ds = takeWhile is_digit bs;
          n = decimal ds
      in if ds = [] then None
         else Some (if n < 2 ^ 32 \<and> (neg \<longrightarrow> n = 0) then of_nat n else ovf neg n,
                    dropWhile is_digit bs))"

datatype directive = Lit u8 | Conv_u

text \<open>The values stored by the conversions, up to the first directive that fails.\<close>

fun sscanf :: "(bool \<Rightarrow> nat \<Rightarrow> u32) \<Rightarrow> directive list \<Rightarrow> u8 list \<Rightarrow> u32 list" where
  "sscanf ovf [] bs = []"
| "sscanf ovf (Lit c # ds) [] = []"
| "sscanf ovf (Lit c # ds) (b # bs) = (if b = c then sscanf ovf ds bs else [])"
| "sscanf ovf (Conv_u # ds) bs =
     (case scan_u ovf bs of None \<Rightarrow> [] | Some (v, bs) \<Rightarrow> v # sscanf ovf ds bs)"

definition SEEK_PREFIX :: "u8 list" where
  "SEEK_PREFIX = ascii ''AESDCHAR_IOCSEEKTO:''"

definition SEEK_FORMAT :: "directive list" where
  "SEEK_FORMAT = map Lit SEEK_PREFIX @ [Conv_u, Lit 44, Conv_u]"

text \<open>The test in the receive loop: the command when both conversions succeeded.\<close>

definition parse_seek :: "(bool \<Rightarrow> nat \<Rightarrow> u32) \<Rightarrow> u8 list \<Rightarrow> aesd_seekto option" where
  "parse_seek ovf buffer =
     (case sscanf ovf SEEK_FORMAT (c_string buffer) of
        [a, b] \<Rightarrow> Some \<lparr>write_cmd = a, write_cmd_offset = b\<rparr>
      | _ \<Rightarrow> None)"

subsection \<open>Printing a command\<close>

function print_dec :: "nat \<Rightarrow> u8 list" where
  "print_dec n = (if n < 10 then [48 + of_nat n] else print_dec (n div 10) @ [48 + of_nat (n mod 10)])"
  by pat_completeness auto
termination
  by (relation "measure id") auto

declare print_dec.simps [simp del]

definition print_seek :: "aesd_seekto \<Rightarrow> u8 list" where
  "print_seek t = SEEK_PREFIX @ print_dec (unat (write_cmd t)) @ 44 # print_dec (unat (write_cmd_offset t))"

lemma digit_facts:
  assumes "n < 10"
  shows "is_digit (48 + of_nat n)" and "digit_val (48 + of_nat n) = n"
    and "(48 + of_nat n :: u8) \<noteq> 0" and "\<not> is_space (48 + of_nat n)"
    and "(48 + of_nat n :: u8) \<noteq> 45" and "(48 + of_nat n :: u8) \<noteq> 43"
proof -
  have "n \<in> {0, 1, 2, 3, 4, 5, 6, 7, 8, 9}" using assms by auto
  then show "is_digit (48 + of_nat n)" and "digit_val (48 + of_nat n) = n"
    and "(48 + of_nat n :: u8) \<noteq> 0" and "\<not> is_space (48 + of_nat n)"
    and "(48 + of_nat n :: u8) \<noteq> 45" and "(48 + of_nat n :: u8) \<noteq> 43"
    by (auto simp: is_digit_def digit_val_def is_space_def)
qed

lemma print_dec_nonempty [simp]: "print_dec n \<noteq> []"
  by (subst print_dec.simps) simp

lemma print_dec_digits: "d \<in> set (print_dec n) \<Longrightarrow> \<exists>k < 10. d = 48 + of_nat k"
proof (induction n rule: print_dec.induct)
  case (1 n)
  show ?case
    using "1.prems" "1.IH" mod_less_divisor [of 10 n]
    by (subst (asm) print_dec.simps) (auto split: if_splits simp del: mod_less_divisor)
qed

lemma decimal_snoc: "decimal (ds @ [d]) = 10 * decimal ds + digit_val d"
  by (simp add: decimal_def)

lemma decimal_print_dec: "decimal (print_dec n) = n"
proof (induction n rule: print_dec.induct)
  case (1 n)
  show ?case
  proof (cases "n < 10")
    case True
    then show ?thesis
      by (subst print_dec.simps) (simp add: decimal_def digit_facts)
  next
    case False
    then show ?thesis
      by (subst print_dec.simps) (simp add: decimal_snoc "1.IH" digit_facts)
  qed
qed

definition no_digit_next :: "u8 list \<Rightarrow> bool" where
  "no_digit_next bs \<longleftrightarrow> (case bs of [] \<Rightarrow> True | b # _ \<Rightarrow> \<not> is_digit b)"

lemma scan_u_print_dec:
  assumes "n < 2 ^ 32" and "no_digit_next rest"
  shows "scan_u ovf (print_dec n @ rest) = Some (of_nat n, rest)"
proof -
  obtain d ds where p: "print_dec n = d # ds" by (cases "print_dec n") auto
  then obtain k where k: "k < 10" "d = 48 + of_nat k"
    using print_dec_digits [of d n] by auto
  have digits: "\<forall>x \<in> set (print_dec n). is_digit x"
    using print_dec_digits digit_facts(1) by blast
  have sp: "dropWhile is_space (print_dec n @ rest) = print_dec n @ rest"
    using digit_facts(4) [OF k(1)] k(2) p by simp
  have sg: "scan_sign (print_dec n @ rest) = (False, print_dec n @ rest)"
    using digit_facts(5,6) [OF k(1)] k(2) p by simp
  have tw: "takeWhile is_digit (print_dec n @ rest) = print_dec n"
    and dw: "dropWhile is_digit (print_dec n @ rest) = rest"
    using digits assms(2)
    by (auto simp: takeWhile_append2 dropWhile_append2 no_digit_next_def takeWhile_eq_Nil_iff split: list.splits)
  show ?thesis
    using assms(1) by (simp add: scan_u_def sp sg tw dw decimal_print_dec Let_def)
qed

lemma sscanf_lits: "sscanf ovf (map Lit cs @ ds) (cs @ bs) = sscanf ovf ds bs"
  by (induction cs) auto

lemma sscanf_lits_inv: "sscanf ovf (map Lit cs @ ds) bs \<noteq> [] \<Longrightarrow> \<exists>rest. bs = cs @ rest"
proof (induction cs arbitrary: bs)
  case (Cons c cs)
  then show ?case by (cases bs) (auto split: if_splits)
qed simp

lemma seek_prefix_nonnul: "0 \<notin> set SEEK_PREFIX"
  by (simp add: SEEK_PREFIX_def ascii_def)

lemma c_string_append: "0 \<notin> set xs \<Longrightarrow> c_string (xs @ ys) = xs @ c_string ys"
  by (simp add: c_string_def takeWhile_append2 takeWhile_append)

lemma print_seek_nonnul: "0 \<notin> set (print_seek t)"
proof
  assume "0 \<in> set (print_seek t)"
  then obtain n where "0 \<in> set (print_dec n)"
    using seek_prefix_nonnul by (auto simp: print_seek_def)
  then show False
    using print_dec_digits digit_facts(3) by metis
qed

text \<open>A buffer that does not start with the command's name is never taken for a command.\<close>

lemma parse_seek_prefix:
  assumes "parse_seek ovf buffer = Some t"
  shows "\<exists>rest. c_string buffer = SEEK_PREFIX @ rest"
proof -
  have "sscanf ovf SEEK_FORMAT (c_string buffer) \<noteq> []"
    using assms by (auto simp: parse_seek_def)
  then show ?thesis
    unfolding SEEK_FORMAT_def by (rule sscanf_lits_inv)
qed

lemma parse_printed:
  assumes "no_digit_next (c_string rest)"
  shows "parse_seek ovf (print_seek t @ rest) = Some t"
proof -
  let ?a = "unat (write_cmd t)" and ?b = "unat (write_cmd_offset t)"
  have lt: "?a < 2 ^ 32" "?b < 2 ^ 32"
    using unsigned_less [of "write_cmd t"] unsigned_less [of "write_cmd_offset t"] by simp_all
  have comma: "no_digit_next (44 # print_dec ?b @ c_string rest)"
    by (simp add: no_digit_next_def is_digit_def)
  have "sscanf ovf SEEK_FORMAT (c_string (print_seek t @ rest)) = [write_cmd t, write_cmd_offset t]"
    unfolding c_string_append [OF print_seek_nonnul] unfolding SEEK_FORMAT_def print_seek_def
    using scan_u_print_dec [OF lt(1) comma] scan_u_print_dec [OF lt(2) assms]
    by (simp add: sscanf_lits)
  then show ?thesis
    by (simp add: parse_seek_def)
qed

text \<open>
  Claim C29: Commands are understood. The text of any seek command, followed by a NUL or by
  anything that does not continue the last number, is parsed to exactly that command;
  whatever the C library does with numbers out of range.
\<close>

theorem parse_seek_print_seek:
  assumes "no_digit_next (c_string rest)"
  shows "parse_seek ovf (print_seek t @ rest) = Some t"
  using assms by (rule parse_printed)

theorem parse_seek_print_seek_witness:
  "parse_seek (\<lambda>_ _. 0) (print_seek \<lparr>write_cmd = 2, write_cmd_offset = 15\<rparr> @ [10, 0]) =
     Some \<lparr>write_cmd = 2, write_cmd_offset = 15\<rparr>"
  by (rule parse_seek_print_seek) (simp add: no_digit_next_def c_string_def is_digit_def)

end
