(* ===== verification/Server_Thread.thy ===== *)
theory Server_Thread
  imports Server_Command
begin

section \<open>The server: one connection\<close>

text \<open>
  The connection thread of \<^verbatim>\<open>server/aesdsocket_linkedlists.c\<close>: \<open>recieve_text\<close> with
  \<open>savetofile\<close>, \<open>sendfile\<close> and the handling of the seek command, and \<open>savetime\<close>. The calls to
  the operating system and to the C library's streams are the fields of the record \<open>os\<close>, an
  argument of the definitions, over a type \<open>'w\<close> of everything outside the thread. The thread
  itself keeps the mutexes it holds and, as a list, the resources it has to give back:
  memory, streams and descriptors. Loops that depend on the environment run on fuel.
\<close>

subsection \<open>Environment\<close>

definition MAXBUFFER :: nat where "MAXBUFFER = 4096"
definition FILENAME :: string where "FILENAME = ''/dev/aesdchar''"

type_synonym fd = int
type_synonym file_ptr = nat   \<comment> \<open>a \<^verbatim>\<open>FILE *\<close>; 0 is null\<close>

record 'w os =
  os_fopen :: "string \<Rightarrow> string \<Rightarrow> 'w \<Rightarrow> file_ptr \<times> 'w"
  os_fputs :: "u8 list \<Rightarrow> file_ptr \<Rightarrow> 'w \<Rightarrow> bool \<times> 'w"
    \<comment> \<open>\<open>False\<close> for \<^verbatim>\<open>EOF\<close>\<close>
  os_fflush :: "file_ptr \<Rightarrow> 'w \<Rightarrow> 'w"
  os_fread :: "file_ptr \<Rightarrow> nat \<Rightarrow> 'w \<Rightarrow> u8 list \<times> 'w"
  os_fclose :: "file_ptr \<Rightarrow> 'w \<Rightarrow> 'w"
  os_malloc :: "nat \<Rightarrow> 'w \<Rightarrow> bool \<times> 'w"
    \<comment> \<open>\<open>False\<close> for a null pointer\<close>
  os_recv :: "fd \<Rightarrow> nat \<Rightarrow> 'w \<Rightarrow> u8 list option \<times> 'w"
    \<comment> \<open>\<open>None\<close> for the return value -1\<close>
  os_send :: "fd \<Rightarrow> u8 list \<Rightarrow> 'w \<Rightarrow> int \<times> 'w"
  os_open :: "string \<Rightarrow> 'w \<Rightarrow> fd \<times> 'w"
  os_ioctl :: "fd \<Rightarrow> u32 \<Rightarrow> aesd_seekto \<Rightarrow> 'w \<Rightarrow> int \<times> 'w"
  os_read :: "fd \<Rightarrow> nat \<Rightarrow> 'w \<Rightarrow> u8 list option \<times> 'w"
  os_close :: "fd \<Rightarrow> 'w \<Rightarrow> 'w"
  scan_overflow :: "bool \<Rightarrow> nat \<Rightarrow> u32"
    \<comment> \<open>what \<open>sscanf\<close> stores for a number out of range\<close>

subsection \<open>Thread state\<close>

datatype lock = Mutex | Filemutex | Sendmutex

datatype resource = Params | Heap_block | Stream file_ptr | Descriptor fd

record Connections_t =
  conn_done :: bool
  ostream :: file_ptr
  filename :: string
  istream :: fd
  pid :: nat
  conn_s :: string   \<comment> \<open>the peer's address as text\<close>

record 'w thread =
  world :: 'w
  held :: "lock set"
  owned :: "resource list"
  params :: Connections_t
  activethreads :: "32 word"

definition pthread_mutex_lock :: "lock \<Rightarrow> 'w thread \<Rightarrow> 'w thread run" where
  "pthread_mutex_lock l t = (if l \<in> held t then fault Deadlock else ret (t\<lparr>held := insert l (held t)\<rparr>))"

definition pthread_mutex_unlock :: "lock \<Rightarrow> 'w thread \<Rightarrow> 'w thread" where
  "pthread_mutex_unlock l t = t\<lparr>held := held t - {l}\<rparr>"

definition acquire :: "resource \<Rightarrow> 'w thread \<Rightarrow> 'w thread" where
  "acquire r t = t\<lparr>owned := r # owned t\<rparr>"

definition release :: "resource \<Rightarrow> 'w thread \<Rightarrow> 'w thread" where
  "release r t = t\<lparr>owned := remove1 r (owned t)\<rparr>"

abbreviation set_world :: "'w \<Rightarrow> 'w thread \<Rightarrow> 'w thread" where
  "set_world w t \<equiv> t\<lparr>world := w\<rparr>"

definition close_fd :: "'w os \<Rightarrow> fd \<Rightarrow> 'w thread \<Rightarrow> 'w thread" where
  "close_fd os d t = release (Descriptor d) (set_world (os_close os d (world t)) t)"

definition fclose :: "'w os \<Rightarrow> file_ptr \<Rightarrow> 'w thread \<Rightarrow> 'w thread run" where
  "fclose os f t =
     (if f = 0 then fault NullDeref
      else ret (release (Stream f) (set_world (os_fclose os f (world t)) t)))"

subsection \<open>savetofile and savetime\<close>

definition savetofile :: "'w os \<Rightarrow> u8 list \<Rightarrow> file_ptr \<Rightarrow> 'w thread \<Rightarrow> (int \<times> 'w thread) run" where
  "savetofile os buffer f t =
     bindx (pthread_mutex_lock Filemutex t) (\<lambda>t.
       if f = 0 then fault NullDeref
       else
         let (ok, w) = os_fputs os (c_string buffer) f (world t);
             t = pthread_mutex_unlock Filemutex (set_world w t)
         in if \<not> ok then ret (-1, t)
            else ret (0, set_world (os_fflush os f (world t)) t))"

definition savetime :: "'w os \<Rightarrow> u8 list \<Rightarrow> 'w thread \<Rightarrow> (int \<times> 'w thread) run" where
  "savetime os buffer t =
     (let (f, w) = os_fopen os FILENAME ''a+'' (world t);
          t = set_world w t
      in if f = 0 then ret (-1, t)
         else bindx (savetofile os buffer f (acquire (Stream f) t)) (\<lambda>(_, t). ret (0, t)))"

subsection \<open>sendfile\<close>

text \<open>\<open>have_buf\<close> is false when \<open>malloc\<close> failed: storing bytes read is then a null access.\<close>

fun sendfile_loop :: "nat \<Rightarrow> 'w os \<Rightarrow> file_ptr \<Rightarrow> fd \<Rightarrow> bool \<Rightarrow> 'w thread \<Rightarrow> (int \<times> 'w thread) run" where
  "sendfile_loop 0 os f stream have_buf t = None"
| "sendfile_loop (Suc n) os f stream have_buf t =
     (if f = 0 then fault NullDeref
      else
        let (bs, w) = os_fread os f MAXBUFFER (world t); t = set_world w t
        in if bs = [] then ret (0, if have_buf then release Heap_block t else t)
           else if \<not> have_buf then fault NullDeref
           else bindx (pthread_mutex_lock Sendmutex t) (\<lambda>t.
             let (sent, w) = os_send os stream bs (world t);
                 t = pthread_mutex_unlock Sendmutex (set_world w t)
             in if sent \<noteq> int (length bs) then ret (-1, t)
                else sendfile_loop n os f stream have_buf t))"

definition sendfile :: "nat \<Rightarrow> 'w os \<Rightarrow> file_ptr \<Rightarrow> fd \<Rightarrow> 'w thread \<Rightarrow> (int \<times> 'w thread) run" where
  "sendfile fuel os f stream t =
     (let (have_buf, w) = os_malloc os MAXBUFFER (world t);
          t = set_world w t
      in sendfile_loop fuel os f stream have_buf (if have_buf then acquire Heap_block t else t))"

subsection \<open>The seek command\<close>

fun reply_loop :: "nat \<Rightarrow> 'w os \<Rightarrow> fd \<Rightarrow> fd \<Rightarrow> 'w thread \<Rightarrow> 'w thread run" where
  "reply_loop 0 os device_fd stream t = None"
| "reply_loop (Suc n) os device_fd stream t =
     (let (r, w) = os_read os device_fd MAXBUFFER (world t); t = set_world w t
      in case r of
           None \<Rightarrow> ret t
         | Some bs \<Rightarrow>
             if bs = [] then ret t
             else
               let (sent, w) = os_send os stream bs (world t); t = set_world w t
               in if sent \<noteq> int (length bs) then ret t
                  else reply_loop n os device_fd stream t)"

definition seek_command :: "nat \<Rightarrow> 'w os \<Rightarrow> aesd_seekto \<Rightarrow> 'w thread \<Rightarrow> 'w thread run" where
  "seek_command fuel os seekto t =
     (let (device_fd, w) = os_open os FILENAME (world t); t = set_world w t
      in if device_fd = -1 then ret t
         else
           let t = acquire (Descriptor device_fd) t;
               (r, w) = os_ioctl os device_fd AESDCHAR_IOCSEEKTO seekto (world t);
               t = set_world w t
           in if r = -1 then ret (close_fd os device_fd t)
              else bindx (reply_loop fuel os device_fd (istream (params t)) t) (\<lambda>t.
                     ret (close_fd os device_fd t)))"

subsection \<open>The receive loop\<close>

text \<open>
  What one pass does with the \<open>bs\<close> bytes received, which \<open>buffer[bytes_recieved] = '\0'\<close> has
  terminated. Both \<open>continue\<close> statements lead, as the end of the body does, to the loop test.
\<close>

definition serve_chunk ::
  "nat \<Rightarrow> 'w os \<Rightarrow> file_ptr \<Rightarrow> u8 list \<Rightarrow> 'w thread \<Rightarrow> 'w thread run" where
  "serve_chunk fuel os sendfd bs t =
     (let buffer = bs @ [0] in
      case parse_seek (scan_overflow os) buffer of
        Some seekto \<Rightarrow> seek_command fuel os seekto t
      | None \<Rightarrow>
          bindx (savetofile os buffer (ostream (params t)) t) (\<lambda>(_, t).
            if NEWLINE \<in> set (c_string buffer)
            then bindx (sendfile fuel os sendfd (istream (params t)) t) (\<lambda>(_, t). ret t)
            else ret t))"

text \<open>
  One pass of the loop, with whether there is another one. The buffer has \<open>MAXBUFFER + 1\<close>
  bytes. The return value -1 of \<open>recv\<close>, stored in a \<open>size_t\<close>,
  is the index \<open>SIZE_MAX\<close>.
\<close>

definition recv_pass :: "nat \<Rightarrow> 'w os \<Rightarrow> file_ptr \<Rightarrow> 'w thread \<Rightarrow> (bool \<times> 'w thread) run" where
  "recv_pass fuel os sendfd t =
     (case os_recv os (istream (params t)) MAXBUFFER (world t) of
        (None, w) \<Rightarrow> fault OutOfBounds
      | (Some bs, w) \<Rightarrow>
          if MAXBUFFER < length bs then fault OutOfBounds
          else bindx (serve_chunk fuel os sendfd bs (set_world w t)) (\<lambda>t. ret (bs \<noteq> [], t)))"

fun recv_loop :: "nat \<Rightarrow> 'w os \<Rightarrow> file_ptr \<Rightarrow> 'w thread \<Rightarrow> 'w thread run" where
  "recv_loop 0 os sendfd t = None"
| "recv_loop (Suc n) os sendfd t =
     bindx (recv_pass n os sendfd t) (\<lambda>(more, t). if more then recv_loop n os sendfd t else ret t)"

text \<open>The part of \<open>recieve_text\<close> before the mutex: \<open>None\<close> if it returns there.\<close>

definition begin_connection :: "'w os \<Rightarrow> 'w thread \<Rightarrow> file_ptr option \<times> 'w thread" where
  "begin_connection os t =
     (let (f, w) = os_fopen os FILENAME ''a+'' (world t);
          t = t\<lparr>world := w, params := (params t)\<lparr>ostream := f\<rparr>\<rparr>
      in if f = 0 then (None, t)
         else
           let t = acquire (Stream f) t;
               (have_buf, w) = os_malloc os (MAXBUFFER + 1) (world t);
               t = set_world w t
           in if \<not> have_buf then (None, t)
              else
                let t = acquire Heap_block t;
                    (sendfd, w) = os_fopen os (filename (params t)) ''r'' (world t);
                    t = set_world w t
                in (Some sendfd, if sendfd = 0 then t else acquire (Stream sendfd) t))"

text \<open>The part after it, from \<open>free(buffer)\<close> on.\<close>

definition close_connection :: "'w os \<Rightarrow> file_ptr \<Rightarrow> 'w thread \<Rightarrow> 'w thread run" where
  "close_connection os sendfd t =
     bindx (fclose os sendfd (release Heap_block t)) (\<lambda>t.
       let t = close_fd os (istream (params t)) t
       in bindx (fclose os (ostream (params t)) t) (\<lambda>t.
          ret (release Params
            (t\<lparr>params := (params t)\<lparr>conn_done := True\<rparr>,
               activethreads := activethreads t - 1\<rparr>))))"

definition finish_connection :: "'w os \<Rightarrow> file_ptr \<Rightarrow> 'w thread \<Rightarrow> 'w thread run" where
  "finish_connection os sendfd t = close_connection os sendfd (pthread_mutex_unlock Mutex t)"

definition recieve_text :: "nat \<Rightarrow> 'w os \<Rightarrow> 'w thread \<Rightarrow> 'w thread run" where
  "recieve_text fuel os t =
     (case begin_connection os t of
        (None, t) \<Rightarrow> ret t
      | (Some sendfd, t) \<Rightarrow>
          bindx (pthread_mutex_lock Mutex t) (\<lambda>t.
          bindx (recv_loop fuel os sendfd t) (finish_connection os sendfd)))"

end
