(* ===== verification/Server_Safety.thy ===== *)
theory Server_Safety
  imports Server_Thread
begin

section \<open>The connection thread in any environment\<close>

text \<open>
  Facts about the connection thread that need nothing of the operating system: which mutexes
  it holds, what it keeps of its own state, what it owns when it returns, on every branch,
  and that more fuel never changes a result.
\<close>

text \<open>One pass of the receive loop, unfolded into the loop.\<close>

lemma recv_loop_Suc [simp]:
  "recv_loop (Suc n) os sendfd t =
     (case os_recv os (istream (params t)) MAXBUFFER (world t) of
        (None, w) \<Rightarrow> fault OutOfBounds
      | (Some bs, w) \<Rightarrow>
          if MAXBUFFER < length bs then fault OutOfBounds
          else bindx (serve_chunk n os sendfd bs (set_world w t)) (\<lambda>t.
                 if bs = [] then ret t else recv_loop n os sendfd t))"
  by (auto simp: recv_pass_def bindx_assoc intro!: arg_cong [where f = "bindx m" for m]
      split: prod.split option.split)

declare recv_loop.simps(2) [simp del]

named_theorems thread_defs \<open>the definitions of the thread's small operations\<close>

lemmas thread_ops [thread_defs] =
  pthread_mutex_lock_def pthread_mutex_unlock_def acquire_def release_def close_fd_def fclose_def

subsection \<open>Mutexes and thread-local state\<close>

text \<open>The two inner mutexes are free between the thread's calls.\<close>

definition calm :: "'w thread \<Rightarrow> bool" where
  "calm t \<longleftrightarrow> Filemutex \<notin> held t \<and> Sendmutex \<notin> held t"

definition same_thread :: "'w thread \<Rightarrow> 'w thread \<Rightarrow> bool" where
  "same_thread t u \<longleftrightarrow> held u = held t \<and> params u = params t \<and> activethreads u = activethreads t"

lemma same_thread_refl [simp]: "same_thread t t"
  by (simp add: same_thread_def)

lemma same_thread_trans: "same_thread t u \<Longrightarrow> same_thread u v \<Longrightarrow> same_thread t v"
  by (simp add: same_thread_def)

lemma same_thread_calm: "same_thread t u \<Longrightarrow> calm u = calm t"
  by (simp add: same_thread_def calm_def)

lemma same_thread_params: "same_thread t u \<Longrightarrow> params u = params t"
  by (simp add: same_thread_def)

lemma same_thread_ops [simp]:
  "same_thread t (set_world w u) = same_thread t u" "same_thread (set_world w t) u = same_thread t u"
  "same_thread t (acquire r u) = same_thread t u" "same_thread (acquire r t) u = same_thread t u"
  "same_thread t (release r u) = same_thread t u" "same_thread (release r t) u = same_thread t u"
  "same_thread t (close_fd os d u) = same_thread t u"
  by (auto simp: same_thread_def thread_defs)

lemma calm_set_world [simp]: "calm (set_world w t) = calm t" "calm (acquire r t) = calm t"
  by (simp_all add: calm_def acquire_def)

text \<open>A run that neither locks a mutex twice nor, when it returns, changes the thread's own state.\<close>

definition tidy :: "'w thread \<Rightarrow> ('a \<Rightarrow> 'w thread) \<Rightarrow> 'a run \<Rightarrow> bool" where
  "tidy t thr m \<longleftrightarrow> m \<noteq> fault Deadlock \<and> (\<forall>x. m = ret x \<longrightarrow> same_thread t (thr x))"

lemma tidy_simps [simp]:
  "tidy t thr None" "tidy t thr (fault e) = (e \<noteq> Deadlock)" "tidy t thr (ret x) = same_thread t (thr x)"
  by (simp_all add: tidy_def)

lemma tidy_ops [simp]:
  "tidy (set_world w t) thr m = tidy t thr m" "tidy (acquire r t) thr m = tidy t thr m"
  by (simp_all add: tidy_def)

lemma tidy_bindx:
  assumes "tidy t thr m" and "\<And>x. m = ret x \<Longrightarrow> same_thread t (thr x) \<Longrightarrow> tidy (thr x) thr' (f x)"
  shows "tidy t thr' (bindx m f)"
  using assms by (auto simp: tidy_def bindx_def split: option.splits sum.splits dest: same_thread_trans)

lemma tidy_trans: "same_thread t u \<Longrightarrow> tidy u thr m \<Longrightarrow> tidy t thr m"
  by (auto simp: tidy_def dest: same_thread_trans)

text \<open>A call bracketed by locking and unlocking one free mutex.\<close>

lemma locked_section:
  assumes "l \<notin> held t"
  shows "bindx (pthread_mutex_lock l t) f = f (t\<lparr>held := insert l (held t)\<rparr>)"
    and "same_thread t (pthread_mutex_unlock l (set_world w (t\<lparr>held := insert l (held t)\<rparr>)))"
  using assms by (simp_all add: pthread_mutex_lock_def pthread_mutex_unlock_def same_thread_def)

lemma savetofile_tidy: "calm t \<Longrightarrow> tidy t snd (savetofile os buffer f t)"
  unfolding savetofile_def
  by (subst locked_section)
    (auto simp: calm_def Let_def pthread_mutex_unlock_def same_thread_def split: prod.splits)

lemma sendfile_loop_tidy: "calm t \<Longrightarrow> tidy t snd (sendfile_loop n os f stream have_buf t)"
proof (induction n arbitrary: t)
  case (Suc n)
  obtain bs w where r: "os_fread os f MAXBUFFER (world t) = (bs, w)" by force
  obtain sent w' where s: "os_send os stream bs w = (sent, w')" by force
  let ?u = "pthread_mutex_unlock Sendmutex (set_world w' ((set_world w t)\<lparr>held := insert Sendmutex (held t)\<rparr>))"
  have same: "same_thread t ?u"
    using Suc.prems by (simp add: calm_def pthread_mutex_unlock_def same_thread_def)
  have "tidy ?u snd (sendfile_loop n os f stream have_buf ?u)"
    using Suc.IH same_thread_calm [OF same] Suc.prems by blast
  from tidy_trans [OF same this] same show ?case
    using Suc.prems r s
    by (cases have_buf) (auto simp: Let_def pthread_mutex_lock_def calm_def)
qed simp

lemma sendfile_tidy: "calm t \<Longrightarrow> tidy t snd (sendfile fuel os f stream t)"
  using sendfile_loop_tidy [of "acquire Heap_block (set_world w t)" for w]
    sendfile_loop_tidy [of "set_world w t" for w]
  by (auto simp: sendfile_def Let_def split: prod.splits)

lemma reply_loop_tidy: "tidy t (\<lambda>t. t) (reply_loop n os d stream t)"
proof (induction n arbitrary: t)
  case (Suc n)
  have "tidy t (\<lambda>t. t) (reply_loop n os d stream (set_world w t))" for w
    using Suc.IH [of "set_world w t"] by simp
  then show ?case
    by (auto simp: Let_def split: prod.splits option.splits)
qed simp

lemma seek_command_tidy: "tidy t (\<lambda>t. t) (seek_command fuel os seekto t)"
proof -
  have "tidy u (\<lambda>t. t) (bindx (reply_loop fuel os d str u) (\<lambda>t. ret (close_fd os d t)))" for d str u
    by (rule tidy_bindx [OF reply_loop_tidy]) simp
  from this [of "set_world w (acquire r (set_world w' t))" for w r w'] show ?thesis
    by (auto simp: seek_command_def Let_def split: prod.splits)
qed

lemma serve_chunk_tidy:
  assumes "calm t"
  shows "tidy t (\<lambda>t. t) (serve_chunk fuel os sendfd bs t)"
proof -
  have "tidy t (\<lambda>t. t) (bindx (savetofile os buffer f t) (\<lambda>(_, u).
      if c then bindx (sendfile fuel os sendfd (istream (params u)) u) (\<lambda>(_, t). ret t) else ret u))"
    for buffer f c
    by (rule tidy_bindx [OF savetofile_tidy [OF assms]])
      (auto split: prod.splits intro!: tidy_bindx [OF sendfile_tidy]
        simp: same_thread_calm assms)
  then show ?thesis
    by (auto simp: serve_chunk_def Let_def seek_command_tidy split: option.splits)
qed

lemma recv_loop_tidy: "calm t \<Longrightarrow> tidy t (\<lambda>t. t) (recv_loop n os sendfd t)"
proof (induction n arbitrary: t)
  case (Suc n)
  have "tidy t (\<lambda>t. t) (bindx (serve_chunk n os sendfd bs (set_world w t)) (\<lambda>t.
      if bs = [] then ret t else recv_loop n os sendfd t))" for bs w
    by (rule tidy_bindx [where thr = "\<lambda>t. t"])
      (use Suc.prems in \<open>auto simp: Suc.IH same_thread_calm
        intro: serve_chunk_tidy [of "set_world w t", simplified]\<close>)
  then show ?case
    by (auto split: prod.splits option.splits)
qed simp

text \<open>
  The setup of \<open>recieve_text\<close>: an early return, or the state in which the receive loop starts.
\<close>

definition started :: "'w thread \<Rightarrow> file_ptr \<Rightarrow> file_ptr \<Rightarrow> 'w \<Rightarrow> 'w thread" where
  "started t f g w =
     t\<lparr>world := w, params := (params t)\<lparr>ostream := f\<rparr>, held := insert Mutex (held t),
       owned := (if g = 0 then [] else [Stream g]) @ Heap_block # Stream f # owned t\<rparr>"

lemma recieve_text_cases:
  assumes "Mutex \<notin> held t"
  obtains (no_file) w where "os_fopen os FILENAME ''a+'' (world t) = (0, w)"
      and "\<And>fuel. recieve_text fuel os t = ret (t\<lparr>world := w, params := (params t)\<lparr>ostream := 0\<rparr>\<rparr>)"
  | (no_memory) f w w' where "os_fopen os FILENAME ''a+'' (world t) = (f, w)" and "f \<noteq> 0"
      and "os_malloc os (MAXBUFFER + 1) w = (False, w')"
      and "\<And>fuel. recieve_text fuel os t =
        ret (t\<lparr>world := w', params := (params t)\<lparr>ostream := f\<rparr>, owned := Stream f # owned t\<rparr>)"
  | (runs) f w w' g w'' where "os_fopen os FILENAME ''a+'' (world t) = (f, w)" and "f \<noteq> 0"
      and "os_malloc os (MAXBUFFER + 1) w = (True, w')"
      and "os_fopen os (filename (params t)) ''r'' w' = (g, w'')"
      and "\<And>fuel. recieve_text fuel os t =
        bindx (recv_loop fuel os g (started t f g w'')) (finish_connection os g)"
proof -
  obtain f w where f: "os_fopen os FILENAME ''a+'' (world t) = (f, w)" by force
  obtain b w' where b: "os_malloc os (MAXBUFFER + 1) w = (b, w')" by force
  obtain g w'' where g: "os_fopen os (filename (params t)) ''r'' w' = (g, w'')" by force
  consider "f = 0" | "f \<noteq> 0" "\<not> b" | "f \<noteq> 0" "b" by blast
  then show thesis
  proof cases
    case 1
    then show thesis
      using f by (intro no_file) (simp_all add: recieve_text_def begin_connection_def)
  next
    case 2
    then have "recieve_text fuel os t =
        ret (t\<lparr>world := w', params := (params t)\<lparr>ostream := f\<rparr>, owned := Stream f # owned t\<rparr>)" for fuel
      using f b by (cases t) (simp add: recieve_text_def begin_connection_def acquire_def)
    with 2 show thesis
      using f b by (intro no_memory) simp_all
  next
    case 3
    then have "recieve_text fuel os t =
        bindx (recv_loop fuel os g (started t f g w'')) (finish_connection os g)" for fuel
      using f b g assms
      by (cases t) (simp add: recieve_text_def begin_connection_def acquire_def pthread_mutex_lock_def started_def)
    with 3 show thesis
      using f b g by (intro runs [of f w w' g w'']) simp_all
  qed
qed

lemma finish_connection_eq:
  "finish_connection os g t =
     (if g = 0 \<or> ostream (params t) = 0 then fault NullDeref
      else ret (t\<lparr>world := os_fclose os (ostream (params t))
                    (os_close os (istream (params t)) (os_fclose os g (world t))),
                  held := held t - {Mutex},
                  owned := remove1 Params (remove1 (Stream (ostream (params t)))
                    (remove1 (Descriptor (istream (params t))) (remove1 (Stream g)
                      (remove1 Heap_block (owned t))))),
                  params := (params t)\<lparr>conn_done := True\<rparr>,
                  activethreads := activethreads t - 1\<rparr>))"
  by (simp add: finish_connection_def close_connection_def Let_def thread_defs)

lemma started_sel [simp]:
  "params (started t f g w) = (params t)\<lparr>ostream := f\<rparr>" "calm (started t f g w) = calm t"
  "held (started t f g w) = insert Mutex (held t)" "activethreads (started t f g w) = activethreads t"
  "world (started t f g w) = w"
  "owned (started t f g w) = (if g = 0 then [] else [Stream g]) @ Heap_block # Stream f # owned t"
  by (simp_all add: started_def calm_def)

subsection \<open>Resources\<close>

definition all_sent :: "'w os \<Rightarrow> bool" where
  "all_sent os \<longleftrightarrow> (\<forall>s bs w. fst (os_send os s bs w) = int (length bs))"

text \<open>What the thread owns besides what it owned before: buffers, one per short send.\<close>

definition leaks :: "'w os \<Rightarrow> 'w thread \<Rightarrow> 'w thread \<Rightarrow> bool" where
  "leaks os t u \<longleftrightarrow> (\<exists>k. owned u = replicate k Heap_block @ owned t \<and> (all_sent os \<longrightarrow> k = 0))"

lemma leaks_same: "owned u = owned t \<Longrightarrow> leaks os t u"
  unfolding leaks_def by (rule exI [of _ 0]) simp

lemma leaks_trans: "leaks os t u \<Longrightarrow> leaks os u v \<Longrightarrow> leaks os t v"
  unfolding leaks_def by (metis append_assoc replicate_add add_is_0)

lemma savetofile_owned: "savetofile os buffer f t = ret (r, u) \<Longrightarrow> owned u = owned t"
  by (auto simp: savetofile_def pthread_mutex_lock_def pthread_mutex_unlock_def Let_def
      split: if_splits prod.splits)

lemma all_sent_short:
  "os_send os s bs w = (k, w') \<Longrightarrow> k \<noteq> int (length bs) \<Longrightarrow> \<not> all_sent os"
  unfolding all_sent_def by (metis fst_conv)

lemma sendfile_loop_owned:
  "sendfile_loop n os f s b t = ret (r, u) \<Longrightarrow> owned t = (if b then [Heap_block] else []) @ own \<Longrightarrow>
     r = 0 \<and> owned u = own \<or> r = -1 \<and> owned u = Heap_block # own \<and> \<not> all_sent os"
proof (induction n arbitrary: t)
  case (Suc n)
  obtain bs w where rd: "os_fread os f MAXBUFFER (world t) = (bs, w)" by force
  obtain k w' where sd: "os_send os s bs w = (k, w')" by force
  let ?v = "pthread_mutex_unlock Sendmutex (set_world w' (t\<lparr>held := insert Sendmutex (held t)\<rparr>))"
  consider "bs = []" | "b" "k \<noteq> int (length bs)" "u = ?v" "r = -1"
    | "b" "sendfile_loop n os f s b ?v = ret (r, u)"
    using Suc.prems(1) rd sd
    by (auto simp: Let_def pthread_mutex_lock_def split: if_splits)
  then show ?case
  proof cases
    case 1
    then show ?thesis
      using Suc.prems rd by (auto simp: release_def split: if_splits)
  next
    case 2
    then show ?thesis
      using Suc.prems(2) all_sent_short [OF sd] by (simp add: pthread_mutex_unlock_def)
  next
    case 3
    show ?thesis
      by (rule Suc.IH [OF 3(2)]) (use Suc.prems(2) 3(1) in \<open>simp add: pthread_mutex_unlock_def\<close>)
  qed
qed simp

lemma sendfile_owned:
  assumes "sendfile fuel os f s t = ret (r, u)"
  shows "r = 0 \<and> owned u = owned t \<or> r = -1 \<and> owned u = Heap_block # owned t \<and> \<not> all_sent os"
  using assms
  by (auto simp: sendfile_def acquire_def Let_def split: prod.splits if_splits
      dest!: sendfile_loop_owned [where own = "owned t"])

lemma reply_loop_owned: "reply_loop n os d s t = ret u \<Longrightarrow> owned u = owned t"
  by (induction n arbitrary: t)
    (auto simp: Let_def split: prod.splits if_splits option.splits)

lemma seek_command_owned: "seek_command fuel os seekto t = ret u \<Longrightarrow> owned u = owned t"
  by (auto simp: seek_command_def Let_def thread_defs split: prod.splits if_splits
      dest!: reply_loop_owned)

lemma leaks_block: "owned u = Heap_block # owned t \<Longrightarrow> \<not> all_sent os \<Longrightarrow> leaks os t u"
  unfolding leaks_def by (rule exI [of _ 1]) simp

lemma serve_chunk_leaks: "serve_chunk fuel os g bs t = ret u \<Longrightarrow> leaks os t u"
  by (auto simp: serve_chunk_def Let_def split: option.splits prod.splits if_splits
      dest!: savetofile_owned sendfile_owned seek_command_owned)
    (simp_all add: leaks_same leaks_block)

lemma recv_loop_leaks: "recv_loop n os g t = ret u \<Longrightarrow> leaks os t u"
proof (induction n arbitrary: t)
  case (Suc n)
  obtain bs w v where c: "serve_chunk n os g bs (set_world w t) = ret v"
    and r: "u = v \<or> recv_loop n os g v = ret u"
    using Suc.prems by (auto split: prod.splits option.splits if_splits)
  have "leaks os t v"
    using serve_chunk_leaks [OF c] by (simp add: leaks_def)
  moreover have "leaks os v u"
    using r Suc.IH leaks_same [of u v] by blast
  ultimately show ?case by (rule leaks_trans)
qed simp

subsection \<open>More fuel gives the same result\<close>

lemma bindx_mono:
  assumes "bindx m f = Some r" and "\<And>r. m = Some r \<Longrightarrow> m' = Some r" and "\<And>x r. f x = Some r \<Longrightarrow> f' x = Some r"
  shows "bindx m' f' = Some r"
  using assms(1)
proof (cases rule: bindx_Some_cases)
  case (fault e)
  then show ?thesis using assms(2) by simp
next
  case (ret x)
  then show ?thesis using assms(2,3) by simp
qed

lemma sendfile_loop_mono:
  "sendfile_loop n os f s b t = Some r \<Longrightarrow> n \<le> m \<Longrightarrow> sendfile_loop m os f s b t = Some r"
proof (induction n arbitrary: m t b)
  case (Suc n)
  then obtain m' where m: "m = Suc m'" "n \<le> m'" by (cases m) auto
  obtain bs w where rd: "os_fread os f MAXBUFFER (world t) = (bs, w)" by force
  show ?case
    using Suc.prems(1) rd
    by (auto simp: m Let_def pthread_mutex_lock_def split: if_splits prod.splits
        intro: Suc.IH [OF _ m(2)])
qed simp

lemma reply_loop_mono:
  "reply_loop n os d s t = Some r \<Longrightarrow> n \<le> m \<Longrightarrow> reply_loop m os d s t = Some r"
proof (induction n arbitrary: m t)
  case (Suc n)
  then obtain m' where m: "m = Suc m'" "n \<le> m'" by (cases m) auto
  show ?case
    using Suc.prems(1)
    by (auto simp: m Let_def split: if_splits prod.splits option.splits intro: Suc.IH [OF _ m(2)])
qed simp

lemma sendfile_mono: "sendfile n os f s t = Some r \<Longrightarrow> n \<le> m \<Longrightarrow> sendfile m os f s t = Some r"
  by (auto simp: sendfile_def Let_def split: prod.splits if_splits intro: sendfile_loop_mono)

lemma seek_command_mono: "seek_command n os c t = Some r \<Longrightarrow> n \<le> m \<Longrightarrow> seek_command m os c t = Some r"
  by (auto simp: seek_command_def Let_def split: prod.splits if_splits
      intro: bindx_mono reply_loop_mono)

lemma serve_chunk_mono:
  assumes "serve_chunk n os g bs t = Some r" and "n \<le> m"
  shows "serve_chunk m os g bs t = Some r"
proof (cases "parse_seek (scan_overflow os) (bs @ [0])")
  case None
  have inner: "bindx (sendfile n os g i u) (\<lambda>(_, t). ret t) = Some q \<Longrightarrow>
      bindx (sendfile m os g i u) (\<lambda>(_, t). ret t) = Some q" for i u q
    by (erule bindx_mono) (use sendfile_mono [OF _ assms(2)] in auto)
  show ?thesis
    using assms(1) None unfolding serve_chunk_def Let_def
    by simp (erule bindx_mono, auto split: if_splits intro: inner)
next
  case (Some c)
  then show ?thesis
    using assms seek_command_mono by (simp add: serve_chunk_def)
qed

lemma recv_pass_mono:
  assumes "recv_pass n os g t = Some r" and "n \<le> m"
  shows "recv_pass m os g t = Some r"
  using assms(1)
  by (auto simp: recv_pass_def split: prod.splits option.splits if_splits
      elim!: bindx_mono intro: serve_chunk_mono [OF _ assms(2)])

lemma recv_loop_mono: "recv_loop n os g t = Some r \<Longrightarrow> n \<le> m \<Longrightarrow> recv_loop m os g t = Some r"
proof (induction n arbitrary: m t r)
  case (Suc n)
  then obtain m' where m: "m = Suc m'" "n \<le> m'" by (cases m) auto
  obtain x w where rv: "os_recv os (istream (params t)) MAXBUFFER (world t) = (x, w)" by force
  show ?case
    using Suc.prems(1) rv
    by (auto simp: m split: if_splits option.splits
        elim!: bindx_mono intro: serve_chunk_mono [OF _ m(2)] Suc.IH [OF _ m(2)])
qed simp

lemma recieve_text_mono:
  assumes "recieve_text n os t = Some r" and "n \<le> m" and "Mutex \<notin> held t"
  shows "recieve_text m os t = Some r"
  using assms(3)
proof (cases rule: recieve_text_cases [where os = os])
  case (runs f w w' g w'')
  have "bindx (recv_loop m os g (started t f g w'')) (finish_connection os g) = Some r"
    by (rule bindx_mono [of "recv_loop n os g (started t f g w'')" "finish_connection os g"])
      (use assms runs(5) recv_loop_mono [OF _ assms(2)] in auto)
  then show ?thesis
    by (simp add: runs(5))
qed (use assms in auto)

end
