(* ===== verification/Server_Refinement.thy ===== *)
theory Server_Refinement
  imports Server_Safety
begin

section \<open>What a connection does to the device and to the client\<close>

text \<open>
  The abstract specification of a connection: the packets received one after the other drive
  a device that can be written, read from a position and searched for a record. The locale
  \<open>connection_env\<close> is the interface between the server and its environment (socket, streams,
  device); inside it the connection thread is proved to refine the specification.
\<close>

subsection \<open>Specification\<close>

record 'd device =
  d_contents :: "'d \<Rightarrow> u8 list"
  d_write :: "u8 list \<Rightarrow> 'd \<Rightarrow> 'd"
  d_seek :: "aesd_seekto \<Rightarrow> 'd \<Rightarrow> nat option"

text \<open>
  One packet. A seek command is answered with the contents from the position it names, or
  not at all. Anything else is appended to the device up to the first NUL; if it has a
  newline, the client gets the whole contents, but only once per connection: the stream the
  contents are read from stays at its end.
\<close>

definition chunk_spec ::
  "(bool \<Rightarrow> nat \<Rightarrow> u32) \<Rightarrow> 'd device \<Rightarrow> u8 list \<Rightarrow> bool \<times> 'd \<Rightarrow> (bool \<times> 'd) \<times> u8 list" where
  "chunk_spec ovf D c s =
     (case s of (answered, d) \<Rightarrow>
        case parse_seek ovf c of
          Some seekto \<Rightarrow> ((answered, d), case d_seek D seekto d of None \<Rightarrow> [] | Some p \<Rightarrow> drop p (d_contents D d))
        | None \<Rightarrow>
            let d' = d_write D (c_string c) d; nl = NEWLINE \<in> set (c_string c)
            in ((answered \<or> nl, d'), if nl \<and> \<not> answered then d_contents D d' else []))"

fun connection_spec ::
  "(bool \<Rightarrow> nat \<Rightarrow> u32) \<Rightarrow> 'd device \<Rightarrow> u8 list list \<Rightarrow> bool \<times> 'd \<Rightarrow> (bool \<times> 'd) \<times> u8 list" where
  "connection_spec ovf D [] s = (s, [])"
| "connection_spec ovf D (c # cs) s =
     (let (s, out) = chunk_spec ovf D c s; (s, out') = connection_spec ovf D cs s
      in (s, out @ out'))"

lemma c_string_nul [simp]: "c_string (c @ [0]) = c_string c"
  by (induction c) (auto simp: c_string_def)

lemma parse_seek_nul [simp]: "parse_seek ovf (c @ [0]) = parse_seek ovf c"
  by (simp add: parse_seek_def)

lemma parse_seek_empty [simp]: "parse_seek ovf [] = None"
  using parse_seek_prefix [of ovf "[]"]
  by (cases "parse_seek ovf []") (auto simp: c_string_def SEEK_PREFIX_def ascii_def)

subsection \<open>Interface to the environment\<close>

text \<open>
  What the thread can observe of the world: the packets still to come, the bytes sent, the
  device, what a stream opened for reading will still give, the bytes left on an open
  descriptor of the device, and the streams open for appending. A stream from which nothing
  was read gives the contents the device has at that time; one that has met the end of the
  file gives nothing any more.
\<close>

datatype stream_view = Unread | Left "u8 list" | Ended

record 'd view =
  v_in :: "u8 list list"
  v_out :: "u8 list"
  v_dev :: 'd
  v_left :: "file_ptr \<Rightarrow> stream_view"
  v_fd :: "fd \<rightharpoonup> u8 list"
  v_app :: "file_ptr set"

definition left_of :: "'d device \<Rightarrow> 'd view \<Rightarrow> file_ptr \<Rightarrow> u8 list" where
  "left_of D v g = (case v_left v g of Unread \<Rightarrow> d_contents D (v_dev v) | Left r \<Rightarrow> r | Ended \<Rightarrow> [])"

text \<open>No read is under way, so that the device can change.\<close>

definition quiet :: "'d view \<Rightarrow> bool" where
  "quiet v \<longleftrightarrow> (\<forall>g. v_left v g = Unread \<or> v_left v g = Ended) \<and> (\<forall>d. v_fd v d = None)"

text \<open>One packet, with all it does to the view: other streams are as they were.\<close>

definition served :: "file_ptr \<Rightarrow> bool \<Rightarrow> 'd \<Rightarrow> u8 list \<Rightarrow> 'd view \<Rightarrow> 'd view" where
  "served g answered d out v =
     v\<lparr>v_dev := d, v_out := v_out v @ out, v_left := (v_left v)(g := if answered then Ended else Unread)\<rparr>"

locale connection_env =
  fixes os :: "'w os"
    and sock :: fd
    and D :: "'d device"
    and view :: "'w \<Rightarrow> 'd view"
    and inv :: "'w \<Rightarrow> bool"
  assumes write_nothing: "d_write D [] x = x"
    and recv_end: "inv w \<Longrightarrow> v_in (view w) = [] \<Longrightarrow>
      \<exists>w'. os_recv os sock n w = (Some [], w') \<and> inv w' \<and> view w' = view w"
    and recv_next: "inv w \<Longrightarrow> v_in (view w) = c # cs \<Longrightarrow> length c \<le> n \<Longrightarrow>
      \<exists>w'. os_recv os sock n w = (Some c, w') \<and> inv w' \<and> view w' = (view w)\<lparr>v_in := cs\<rparr>"
    and send_all: "inv w \<Longrightarrow>
      \<exists>w'. os_send os sock bs w = (int (length bs), w') \<and> inv w' \<and>
           view w' = (view w)\<lparr>v_out := v_out (view w) @ bs\<rparr>"
    and malloc_ok: "inv w \<Longrightarrow> \<exists>w'. os_malloc os n w = (True, w') \<and> inv w' \<and> view w' = view w"
    and fopen_append: "inv w \<Longrightarrow>
      \<exists>f w'. os_fopen os FILENAME ''a+'' w = (f, w') \<and> f \<noteq> 0 \<and> inv w' \<and>
           view w' = (view w)\<lparr>v_left := (v_left (view w))(f := Ended), v_app := insert f (v_app (view w))\<rparr>"
    and fopen_read: "inv w \<Longrightarrow>
      \<exists>g w'. os_fopen os FILENAME ''r'' w = (g, w') \<and> g \<noteq> 0 \<and> g \<notin> v_app (view w) \<and> inv w' \<and>
           view w' = (view w)\<lparr>v_left := (v_left (view w))(g := Unread)\<rparr>"
    and fputs_flush: "inv w \<Longrightarrow> quiet (view w) \<Longrightarrow> f \<in> v_app (view w) \<Longrightarrow> length bs \<le> MAXBUFFER \<Longrightarrow>
      \<exists>w'. os_fputs os bs f w = (True, w') \<and> inv (os_fflush os f w') \<and>
           view (os_fflush os f w') = (view w)\<lparr>v_dev := d_write D bs (v_dev (view w))\<rparr>"
    and fread_next: "inv w \<Longrightarrow> 0 < n \<Longrightarrow> n \<le> MAXBUFFER \<Longrightarrow>
      \<exists>w'. os_fread os g n w = (take n (left_of D (view w) g), w') \<and> inv w' \<and>
           view w' = (view w)\<lparr>v_left := (v_left (view w))(g :=
             if length (left_of D (view w) g) < n then Ended else Left (drop n (left_of D (view w) g)))\<rparr>"
    and fclose_ok: "inv w \<Longrightarrow> inv (os_fclose os f w) \<and>
      view (os_fclose os f w) = (view w)\<lparr>v_left := (v_left (view w))(f := Ended), v_app := v_app (view w) - {f}\<rparr>"
    and open_seek: "inv w \<Longrightarrow>
      \<exists>d w1 r w2. os_open os FILENAME w = (d, w1) \<and> d \<noteq> -1 \<and>
        os_ioctl os d AESDCHAR_IOCSEEKTO seekto w1 = (r, w2) \<and> inv w2 \<and>
        (case d_seek D seekto (v_dev (view w)) of
           None \<Rightarrow> r = -1 \<and> view w2 = (view w)\<lparr>v_fd := (v_fd (view w))(d \<mapsto> d_contents D (v_dev (view w)))\<rparr>
         | Some p \<Rightarrow> r \<noteq> -1 \<and>
             view w2 = (view w)\<lparr>v_fd := (v_fd (view w))(d \<mapsto> drop p (d_contents D (v_dev (view w))))\<rparr>)"
    and read_next: "inv w \<Longrightarrow> 0 < n \<Longrightarrow> n \<le> MAXBUFFER \<Longrightarrow> v_fd (view w) d = Some r \<Longrightarrow>
      \<exists>w' bs r'. os_read os d n w = (Some bs, w') \<and> inv w' \<and> r = bs @ r' \<and> (bs = [] \<longrightarrow> r = []) \<and>
        view w' = (view w)\<lparr>v_fd := (v_fd (view w))(d \<mapsto> r')\<rparr>"
    and close_ok: "inv w \<Longrightarrow> inv (os_close os d w) \<and>
      view (os_close os d w) = (view w)\<lparr>v_fd := (v_fd (view w))(d := None)\<rparr>"
begin

lemma sendfile_loop_refines:
  assumes "g \<noteq> 0"
  shows "inv (world t) \<Longrightarrow> calm t \<Longrightarrow> length (left_of D (view (world t)) g) < n \<Longrightarrow>
    \<exists>u. sendfile_loop n os g sock True t = ret (0, u) \<and> inv (world u) \<and>
        view (world u) = (view (world t))
          \<lparr>v_out := v_out (view (world t)) @ left_of D (view (world t)) g,
           v_left := (v_left (view (world t)))(g := Ended)\<rparr>"
proof (induction n arbitrary: t)
  case (Suc n)
  let ?r = "left_of D (view (world t)) g"
  obtain w where rd: "os_fread os g MAXBUFFER (world t) = (take MAXBUFFER ?r, w)" "inv w"
    and vw: "view w = (view (world t))\<lparr>v_left := (v_left (view (world t)))(g :=
      if length ?r < MAXBUFFER then Ended else Left (drop MAXBUFFER ?r))\<rparr>"
    using fread_next [OF Suc.prems(1), of MAXBUFFER g] by (auto simp: MAXBUFFER_def)
  have pos: "take MAXBUFFER ?r = [] \<longleftrightarrow> ?r = []" by (simp add: MAXBUFFER_def)
  show ?case
  proof (cases "?r = []")
    case True
    then show ?thesis
      using rd vw assms by (simp add: release_def fun_upd_def MAXBUFFER_def)
  next
    case False
    obtain w' where sd: "os_send os sock (take MAXBUFFER ?r) w = (int (length (take MAXBUFFER ?r)), w')" "inv w'"
      and vw': "view w' = (view w)\<lparr>v_out := v_out (view w) @ take MAXBUFFER ?r\<rparr>"
      using send_all [OF rd(2)] by blast
    define u where "u = pthread_mutex_unlock Sendmutex (set_world w' (t\<lparr>held := insert Sendmutex (held t)\<rparr>))"
    have u: "world u = w'" "calm u"
      using Suc.prems(2) by (simp_all add: u_def pthread_mutex_unlock_def calm_def)
    have left: "left_of D (view w') g = drop MAXBUFFER ?r"
      by (simp add: vw' vw left_of_def)
    have short: "length (left_of D (view (world u)) g) < n"
      using Suc.prems(3) False unfolding u left by (cases ?r) (auto simp: MAXBUFFER_def)
    have loop: "sendfile_loop (Suc n) os g sock True t = sendfile_loop n os g sock True u"
      using rd(1) sd(1) False pos assms Suc.prems(2)
      by (simp add: Let_def pthread_mutex_lock_def calm_def u_def)
    obtain x where x: "sendfile_loop n os g sock True u = ret (0, x)" "inv (world x)"
      and vx: "view (world x) = (view w')\<lparr>v_out := v_out (view w') @ drop MAXBUFFER ?r,
           v_left := (v_left (view w'))(g := Ended)\<rparr>"
      using Suc.IH [of u] sd(2) short u left by (auto simp: fun_upd_def)
    have "view (world x) = (view (world t))\<lparr>v_out := v_out (view (world t)) @ ?r,
           v_left := (v_left (view (world t)))(g := Ended)\<rparr>"
      unfolding vx vw' vw by simp
    with x show ?thesis unfolding loop by blast
  qed
qed simp

lemma sendfile_refines:
  assumes "g \<noteq> 0" and "inv (world t)" and "calm t"
  shows "\<exists>n u. sendfile n os g sock t = ret (0, u) \<and> inv (world u) \<and>
        view (world u) = (view (world t))
          \<lparr>v_out := v_out (view (world t)) @ left_of D (view (world t)) g,
           v_left := (v_left (view (world t)))(g := Ended)\<rparr>"
proof -
  obtain w where m: "os_malloc os MAXBUFFER (world t) = (True, w)" "inv w" "view w = view (world t)"
    using malloc_ok [OF assms(2)] by blast
  define n where "n = Suc (length (left_of D (view w) g))"
  have "world (acquire Heap_block (set_world w t)) = w"
    by (simp add: acquire_def)
  with sendfile_loop_refines [OF assms(1), of "acquire Heap_block (set_world w t)" n] show ?thesis
    using m assms(3) by (auto simp: sendfile_def n_def simp del: sendfile_loop.simps)
qed

lemma reply_loop_refines:
  "inv (world t) \<Longrightarrow> v_fd (view (world t)) d = Some r \<Longrightarrow> length r < n \<Longrightarrow>
    \<exists>u. reply_loop n os d sock t = ret u \<and> inv (world u) \<and>
        view (world u) = (view (world t))
          \<lparr>v_out := v_out (view (world t)) @ r, v_fd := (v_fd (view (world t)))(d \<mapsto> [])\<rparr>"
proof (induction n arbitrary: t r)
  case (Suc n)
  obtain w bs r' where rd: "os_read os d MAXBUFFER (world t) = (Some bs, w)" "inv w"
    and r: "r = bs @ r'" "bs = [] \<longrightarrow> r = []"
    and vw: "view w = (view (world t))\<lparr>v_fd := (v_fd (view (world t)))(d \<mapsto> r')\<rparr>"
    using read_next [OF Suc.prems(1) _ _ Suc.prems(2), of MAXBUFFER] by (auto simp: MAXBUFFER_def)
  show ?case
  proof (cases "bs = []")
    case True
    then show ?thesis
      using rd r vw Suc.prems(2) by (auto simp: fun_upd_def)
  next
    case False
    obtain w' where sd: "os_send os sock bs w = (int (length bs), w')" "inv w'"
      and vw': "view w' = (view w)\<lparr>v_out := v_out (view w) @ bs\<rparr>"
      using send_all [OF rd(2)] by blast
    have fd: "v_fd (view w') d = Some r'" by (simp add: vw' vw)
    have short: "length r' < n"
      using Suc.prems(3) False r(1) by (cases bs) auto
    have loop: "reply_loop (Suc n) os d sock t = reply_loop n os d sock (set_world w' t)"
      using rd(1) sd(1) False by auto
    obtain x where x: "reply_loop n os d sock (set_world w' t) = ret x" "inv (world x)"
      and vx: "view (world x) = (view w')\<lparr>v_out := v_out (view w') @ r', v_fd := (v_fd (view w'))(d \<mapsto> [])\<rparr>"
      using Suc.IH [of "set_world w' t" r'] sd(2) short fd by (auto simp: fun_upd_def)
    have "view (world x) = (view (world t))\<lparr>v_out := v_out (view (world t)) @ r,
           v_fd := (v_fd (view (world t)))(d \<mapsto> [])\<rparr>"
      unfolding vx vw' vw using r(1) by simp
    with x show ?thesis unfolding loop by blast
  qed
qed simp

lemma seek_command_refines:
  assumes "inv (world t)" and "quiet (view (world t))" and "istream (params t) = sock"
  shows "\<exists>n u. seek_command n os seekto t = ret u \<and> inv (world u) \<and>
    view (world u) = (view (world t))\<lparr>v_out := v_out (view (world t)) @
      (case d_seek D seekto (v_dev (view (world t))) of
         None \<Rightarrow> [] | Some p \<Rightarrow> drop p (d_contents D (v_dev (view (world t)))))\<rparr>"
proof -
  let ?v = "view (world t)"
  obtain d w1 r w2 where op: "os_open os FILENAME (world t) = (d, w1)" "d \<noteq> -1"
    and io: "os_ioctl os d AESDCHAR_IOCSEEKTO seekto w1 = (r, w2)" "inv w2"
    and res: "case d_seek D seekto (v_dev ?v) of
           None \<Rightarrow> r = -1 \<and> view w2 = ?v\<lparr>v_fd := (v_fd ?v)(d \<mapsto> d_contents D (v_dev ?v))\<rparr>
         | Some p \<Rightarrow> r \<noteq> -1 \<and> view w2 = ?v\<lparr>v_fd := (v_fd ?v)(d \<mapsto> drop p (d_contents D (v_dev ?v)))\<rparr>"
    using open_seek [OF assms(1), of seekto] by blast
  have closed: "(v_fd ?v)(d := None) = v_fd ?v"
    using assms(2) by (auto simp: quiet_def)
  let ?t = "set_world w2 (acquire (Descriptor d) (set_world w1 t))"
  show ?thesis
  proof (cases "d_seek D seekto (v_dev ?v)")
    case None
    then have "seek_command n os seekto t = ret (close_fd os d ?t)" for n
      using op io res by (simp add: seek_command_def acquire_def Let_def)
    then show ?thesis
      using None res close_ok [OF io(2), of d] closed
      by (auto simp: close_fd_def release_def)
  next
    case (Some p)
    let ?r = "drop p (d_contents D (v_dev ?v))"
    obtain u where u: "reply_loop (Suc (length ?r)) os d sock ?t = ret u" "inv (world u)"
      "view (world u) = (view w2)\<lparr>v_out := v_out (view w2) @ ?r, v_fd := (v_fd (view w2))(d \<mapsto> [])\<rparr>"
      using reply_loop_refines [of ?t d ?r "Suc (length ?r)"] io(2) Some res
      by (auto simp del: reply_loop.simps)
    have "seek_command (Suc (length ?r)) os seekto t = ret (close_fd os d u)"
      using op io res Some u(1) assms(3)
      by (simp add: seek_command_def acquire_def Let_def del: reply_loop.simps)
    moreover have "view (world (close_fd os d u)) = ?v\<lparr>v_out := v_out ?v @ drop p (d_contents D (v_dev ?v))\<rparr>"
      "inv (world (close_fd os d u))"
      using Some res close_ok [OF u(2), of d] closed by (simp_all add: close_fd_def release_def u(3))
    ultimately show ?thesis
      using Some by fastforce
  qed
qed

text \<open>The thread between two packets; \<open>answered\<close> tells whether its reading stream is used up.\<close>

definition ready :: "file_ptr \<Rightarrow> bool \<Rightarrow> 'w thread \<Rightarrow> bool" where
  "ready g answered t \<longleftrightarrow>
     inv (world t) \<and> quiet (view (world t)) \<and> calm t \<and> istream (params t) = sock \<and>
     ostream (params t) \<in> v_app (view (world t)) \<and> ostream (params t) \<noteq> 0 \<and> g \<noteq> 0 \<and>
     v_left (view (world t)) g = (if answered then Ended else Unread)"

lemma savetofile_refines:
  assumes "ready g answered t" and "length (c_string buffer) \<le> MAXBUFFER"
  shows "\<exists>u. savetofile os buffer (ostream (params t)) t = ret (0, u) \<and> same_thread t u \<and> inv (world u) \<and>
    view (world u) = (view (world t))\<lparr>v_dev := d_write D (c_string buffer) (v_dev (view (world t)))\<rparr>"
proof -
  obtain w where "os_fputs os (c_string buffer) (ostream (params t)) (world t) = (True, w)"
    "inv (os_fflush os (ostream (params t)) w)"
    "view (os_fflush os (ostream (params t)) w) =
       (view (world t))\<lparr>v_dev := d_write D (c_string buffer) (v_dev (view (world t)))\<rparr>"
    using assms fputs_flush [of "world t" "ostream (params t)" "c_string buffer"]
    unfolding ready_def by blast
  then show ?thesis
    using assms
    by (auto simp: savetofile_def pthread_mutex_lock_def pthread_mutex_unlock_def ready_def calm_def
        same_thread_def Let_def)
qed

lemma ready_served:
  assumes "ready g answered t" and "same_thread t u" and "inv (world u)"
    and "view (world u) = served g answered' d out (view (world t))"
  shows "ready g answered' u"
  using assms same_thread_calm [OF assms(2)] same_thread_params [OF assms(2)]
  by (auto simp: ready_def served_def quiet_def)

lemma serve_chunk_view:
  assumes rdy: "ready g answered t" and len: "length c \<le> MAXBUFFER"
    and spec: "chunk_spec (scan_overflow os) D c (answered, v_dev (view (world t))) = ((answered', d'), out)"
  shows "\<exists>n u. serve_chunk n os g c t = ret u \<and> same_thread t u \<and> inv (world u) \<and>
    view (world u) = served g answered' d' out (view (world t))"
proof (cases "parse_seek (scan_overflow os) c")
  case (Some seekto)
  obtain n u where u: "seek_command n os seekto t = ret u" "inv (world u)"
    "view (world u) = (view (world t))\<lparr>v_out := v_out (view (world t)) @ out\<rparr>"
    using seek_command_refines [of t seekto] rdy spec Some
    unfolding ready_def by (auto simp: chunk_spec_def split: option.splits)
  have "(v_left (view (world t)))(g := if answered' then Ended else Unread) = v_left (view (world t))"
    using rdy spec Some by (auto simp: ready_def chunk_spec_def)
  then have "view (world u) = served g answered' d' out (view (world t))"
    using spec Some by (simp add: u(3) served_def chunk_spec_def)
  moreover have "same_thread t u"
    using seek_command_tidy [of t n os seekto] u(1) by simp
  ultimately show ?thesis
    using u(1,2) Some by (intro exI [of _ n] exI [of _ u]) (simp add: serve_chunk_def)
next
  case None
  let ?v = "view (world t)" and ?nl = "NEWLINE \<in> set (c_string c)"
  obtain x where x: "savetofile os (c @ [0]) (ostream (params t)) t = ret (0, x)" "same_thread t x"
    "inv (world x)" and vx: "view (world x) = ?v\<lparr>v_dev := d_write D (c_string c) (v_dev ?v)\<rparr>"
    using savetofile_refines [OF rdy, of "c @ [0]"] len length_takeWhile_le [of "\<lambda>b. b \<noteq> 0" c]
    by (auto simp: c_string_def [symmetric])
  have cx: "calm x" "params x = params t"
    using x(2) rdy same_thread_calm same_thread_params by (auto simp: ready_def)
  have sp: "answered' = (answered \<or> ?nl)" "d' = d_write D (c_string c) (v_dev ?v)"
    "out = (if ?nl \<and> \<not> answered then d_contents D d' else [])"
    using spec None by (auto simp: chunk_spec_def Let_def)
  show ?thesis
  proof (cases ?nl)
    case False
    then have "serve_chunk n os g c t = ret x" for n
      using x(1) None by (simp add: serve_chunk_def)
    moreover have "(v_left ?v)(g := if answered' then Ended else Unread) = v_left ?v"
      using rdy sp(1) False by (auto simp: ready_def)
    then have "view (world x) = served g answered' d' out ?v"
      using sp False by (simp add: vx served_def)
    ultimately show ?thesis using x(2,3) by blast
  next
    case True
    obtain n y where y: "sendfile n os g sock x = ret (0, y)" "inv (world y)"
      and vy: "view (world y) = (view (world x))\<lparr>v_out := v_out (view (world x)) @ left_of D (view (world x)) g,
           v_left := (v_left (view (world x)))(g := Ended)\<rparr>"
      using sendfile_refines [of g x] x(3) cx(1) rdy unfolding ready_def by blast
    have st: "same_thread x y"
      using sendfile_tidy [OF cx(1), of n os g sock] y(1) by simp
    have left: "left_of D (view (world x)) g = out"
      using rdy sp True by (simp add: ready_def vx left_of_def)
    have "serve_chunk n os g c t = ret y"
      using x(1) y(1) None True cx(2) rdy by (simp add: serve_chunk_def ready_def)
    moreover have "view (world y) = served g answered' d' out ?v"
      unfolding vy left using True by (simp add: vx sp(1,2) served_def)
    ultimately show ?thesis
      using same_thread_trans [OF x(2) st] y(2) by blast
  qed
qed

lemma serve_chunk_refines:
  assumes "ready g answered t" and "length c \<le> MAXBUFFER"
    and "chunk_spec (scan_overflow os) D c (answered, v_dev (view (world t))) = ((answered', d'), out)"
  shows "\<exists>n u. serve_chunk n os g c t = ret u \<and> same_thread t u \<and> ready g answered' u \<and>
    v_dev (view (world u)) = d' \<and> v_out (view (world u)) = v_out (view (world t)) @ out \<and>
    v_in (view (world u)) = v_in (view (world t))"
proof -
  obtain n u where u: "serve_chunk n os g c t = ret u" "same_thread t u" "inv (world u)"
    "view (world u) = served g answered' d' out (view (world t))"
    using serve_chunk_view [OF assms] by blast
  from ready_served [OF assms(1) u(2-4)] u show ?thesis
    by (intro exI [of _ n] exI [of _ u]) (simp add: served_def)
qed

text \<open>One pass of the loop, in its two forms: the next packet, or the end of the connection.\<close>

lemma recv_pass_next:
  assumes "ready g answered t" and "v_in (view (world t)) = c # cs" and "c \<noteq> []" and "length c \<le> MAXBUFFER"
    and "chunk_spec (scan_overflow os) D c (answered, v_dev (view (world t))) = ((answered', d'), out)"
  shows "\<exists>n u. recv_pass n os g t = ret (True, u) \<and> same_thread t u \<and> inv (world u) \<and>
    view (world u) = served g answered' d' out ((view (world t))\<lparr>v_in := cs\<rparr>)"
proof -
  obtain w where w: "os_recv os sock MAXBUFFER (world t) = (Some c, w)" "inv w"
    "view w = (view (world t))\<lparr>v_in := cs\<rparr>"
    using recv_next [of "world t" c cs MAXBUFFER] assms by (auto simp: ready_def)
  have r: "ready g answered (set_world w t)"
    using assms(1) w by (simp add: ready_def quiet_def)
  obtain n u where "serve_chunk n os g c (set_world w t) = ret u" "same_thread t u" "inv (world u)"
    "view (world u) = served g answered' d' out ((view (world t))\<lparr>v_in := cs\<rparr>)"
    using serve_chunk_view [OF r assms(4)] assms(5) w(3) by auto
  then show ?thesis
    using w(1) assms(1,3,4) by (intro exI [of _ n] exI [of _ u]) (simp add: recv_pass_def ready_def)
qed

lemma recv_pass_end:
  assumes "ready g answered t" and "v_in (view (world t)) = []"
  shows "\<exists>n u. recv_pass n os g t = ret (False, u) \<and> same_thread t u \<and> inv (world u) \<and>
    view (world u) = view (world t)"
proof -
  obtain w where w: "os_recv os sock MAXBUFFER (world t) = (Some [], w)" "inv w" "view w = view (world t)"
    using recv_end [of "world t" MAXBUFFER] assms by (auto simp: ready_def)
  have r: "ready g answered (set_world w t)"
    using assms(1) w by (simp add: ready_def)
  have s: "chunk_spec (scan_overflow os) D [] (answered, v_dev (view w)) = ((answered, v_dev (view w)), [])"
    by (simp add: chunk_spec_def c_string_def write_nothing)
  have v: "served g answered (v_dev (view w)) [] (view w) = view (world t)"
    using assms(1) w(3) fun_upd_triv [of "v_left (view (world t))" g] by (simp add: served_def ready_def)
  obtain n u where "serve_chunk n os g [] (set_world w t) = ret u" "same_thread t u" "inv (world u)"
    "view (world u) = view (world t)"
    using serve_chunk_view [OF r, of "[]"] s v by auto
  then show ?thesis
    using w(1) assms(1) by (intro exI [of _ n] exI [of _ u]) (simp add: recv_pass_def ready_def)
qed

lemma recv_loop_refines:
  "ready g answered t \<Longrightarrow> v_in (view (world t)) = cs \<Longrightarrow>
   (\<forall>c \<in> set cs. c \<noteq> [] \<and> length c \<le> MAXBUFFER) \<Longrightarrow>
   connection_spec (scan_overflow os) D cs (answered, v_dev (view (world t))) = ((answered', d'), out) \<Longrightarrow>
   \<exists>n u. recv_loop n os g t = ret u \<and> same_thread t u \<and> ready g answered' u \<and>
     v_dev (view (world u)) = d' \<and> v_out (view (world u)) = v_out (view (world t)) @ out \<and>
     v_in (view (world u)) = []"
proof (induction cs arbitrary: t answered out)
  case Nil
  obtain n u where u: "recv_pass n os g t = ret (False, u)" "same_thread t u" "inv (world u)"
    "view (world u) = view (world t)"
    using recv_pass_end [OF Nil.prems(1,2)] by blast
  moreover have "recv_loop (Suc n) os g t = ret u"
    using u(1) by (simp add: recv_loop.simps(2) del: recv_loop_Suc)
  moreover have "ready g answered u"
    using Nil.prems(1) u same_thread_calm [OF u(2)] same_thread_params [OF u(2)] by (simp add: ready_def)
  ultimately show ?case
    using Nil.prems(2,4) by (intro exI [of _ "Suc n"] exI [of _ u]) simp
next
  case (Cons c cs)
  have c: "c \<noteq> []" "length c \<le> MAXBUFFER" using Cons.prems(3) by simp_all
  obtain an d o1 where s1: "chunk_spec (scan_overflow os) D c (answered, v_dev (view (world t))) = ((an, d), o1)"
    by (metis prod.exhaust)
  obtain o2 where s2: "connection_spec (scan_overflow os) D cs (an, d) = ((answered', d'), o2)" "out = o1 @ o2"
    using Cons.prems(4) s1 by (auto split: prod.splits)
  obtain n x where x: "recv_pass n os g t = ret (True, x)" "same_thread t x" "inv (world x)"
    and vx: "view (world x) = served g an d o1 ((view (world t))\<lparr>v_in := cs\<rparr>)"
    using recv_pass_next [OF Cons.prems(1,2) c s1] by blast
  have "ready g an x"
    using Cons.prems(1) x vx same_thread_calm [OF x(2)] same_thread_params [OF x(2)]
    by (auto simp: ready_def served_def quiet_def)
  then obtain m u where u: "recv_loop m os g x = ret u" "same_thread x u" "ready g answered' u"
    "v_dev (view (world u)) = d'" "v_out (view (world u)) = v_out (view (world t)) @ out"
    "v_in (view (world u)) = []"
    using Cons.IH [of an x] Cons.prems(3) s2 vx by (auto simp: served_def)
  have "recv_loop (Suc (max n m)) os g t = ret u"
    using recv_pass_mono [OF x(1), of "max n m"] recv_loop_mono [OF u(1), of "max n m"]
    by (simp add: recv_loop.simps(2) del: recv_loop_Suc)
  with u same_thread_trans [OF x(2) u(2)] show ?case by blast
qed

lemma recieve_text_refines:
  assumes inv: "inv (world t)" and q: "quiet (view (world t))" and calm: "calm t" "Mutex \<notin> held t"
    and par: "istream (params t) = sock" "filename (params t) = FILENAME"
    and packets: "\<forall>c \<in> set (v_in (view (world t))). c \<noteq> [] \<and> length c \<le> MAXBUFFER"
    and spec: "connection_spec (scan_overflow os) D (v_in (view (world t))) (False, v_dev (view (world t))) =
      ((answered', d'), out)"
  shows "\<exists>n u. (\<forall>m \<ge> n. recieve_text m os t = ret u) \<and> conn_done (params u) \<and> inv (world u) \<and>
     quiet (view (world u)) \<and> v_dev (view (world u)) = d' \<and> v_out (view (world u)) = v_out (view (world t)) @ out \<and>
     v_in (view (world u)) = []"
proof -
  obtain f w where f: "os_fopen os FILENAME ''a+'' (world t) = (f, w)" "f \<noteq> 0" "inv w"
    and vf: "view w = (view (world t))\<lparr>v_left := (v_left (view (world t)))(f := Ended),
      v_app := insert f (v_app (view (world t)))\<rparr>"
    using fopen_append [OF inv] by blast
  obtain w' where m: "os_malloc os (MAXBUFFER + 1) w = (True, w')" "inv w'" "view w' = view w"
    using malloc_ok [OF f(3)] by blast
  obtain g w'' where g: "os_fopen os FILENAME ''r'' w' = (g, w'')" "g \<noteq> 0" "g \<notin> v_app (view w')" "inv w''"
    and vg: "view w'' = (view w')\<lparr>v_left := (v_left (view w'))(g := Unread)\<rparr>"
    using fopen_read [OF m(2)] by blast
  have run: "recieve_text n os t = bindx (recv_loop n os g (started t f g w'')) (finish_connection os g)" for n
    using calm(2)
    by (cases rule: recieve_text_cases [where os = os]) (use f m g par in auto)
  have "ready g False (started t f g w'')"
    using f g calm par q by (simp add: ready_def vg m(3) vf quiet_def)
  then obtain n u where u: "recv_loop n os g (started t f g w'') = ret u" "same_thread (started t f g w'') u"
    "ready g answered' u" "v_dev (view (world u)) = d'" "v_out (view (world u)) = v_out (view (world t)) @ out"
    "v_in (view (world u)) = []"
    using recv_loop_refines [of g False "started t f g w''" "v_in (view (world t))" answered' d' out]
      packets spec by (auto simp: vg m(3) vf)
  have o: "ostream (params u) = f" "istream (params u) = sock"
    using same_thread_params [OF u(2)] par by simp_all
  let ?w1 = "os_fclose os g (world u)"
  let ?w2 = "os_close os sock ?w1"
  obtain v where fin: "finish_connection os g u = ret v" "conn_done (params v)" "world v = os_fclose os f ?w2"
    using g(2) f(2) o by (simp add: finish_connection_eq)
  have iu: "inv (world u)" using u(3) by (simp add: ready_def)
  note c1 = fclose_ok [OF iu, of g]
  note c2 = close_ok [OF conjunct1 [OF c1], of sock]
  note c3 = fclose_ok [OF conjunct1 [OF c2], of f]
  have "\<forall>m \<ge> n. recieve_text m os t = ret v"
    using recv_loop_mono [OF u(1)] fin(1) run by simp
  moreover have "quiet (view (world v))"
    using u(3) fin(3) c1 c2 c3 by (simp add: ready_def quiet_def)
  ultimately show ?thesis
    using fin c1 c2 c3 u by (intro exI [of _ n] exI [of _ v]) simp
qed

end

end
