(* ===== verification/Driver_Correct.thy ===== *)
theory Driver_Correct
  imports Char_Driver
begin

section \<open>The character driver: invariant and correctness\<close>

text \<open>
  What the handlers of \<open>Char_Driver\<close> promise. The abstract view of the device is
  \<open>dev_contents\<close>, the bytes of the entries held, oldest first, and \<open>pending_bytes\<close>, the bytes
  of the write that has not seen its newline yet. The invariant \<open>dev_inv\<close> says that the
  circular buffer is well-formed, that the mutex is free between calls and that every entry
  points to a live block large enough for its size. The handlers are shown to keep it and to
  act on the abstract view as a byte sequence with a ten-record window.
\<close>

subsection \<open>Abstraction and invariant\<close>

definition entry_bytes :: "heap \<Rightarrow> aesd_buffer_entry \<Rightarrow> u8 list" where
  "entry_bytes h e = (case h (buffptr e) of None \<Rightarrow> [] | Some b \<Rightarrow> take (esz e) b)"

definition entry_ok :: "heap \<Rightarrow> aesd_buffer_entry \<Rightarrow> bool" where
  "entry_ok h e \<longleftrightarrow> buffptr e \<noteq> 0 \<and> esz e \<le> 2 ^ 32 \<and>
     (case h (buffptr e) of None \<Rightarrow> False | Some b \<Rightarrow> esz e \<le> length b)"

abbreviation live :: "kstate \<Rightarrow> aesd_buffer_entry list" where
  "live s \<equiv> cb_list (circular_buffer (aesd_device s))"

abbreviation pending :: "kstate \<Rightarrow> aesd_buffer_entry" where
  "pending s \<equiv> dev_entry (aesd_device s)"

definition dev_records :: "kstate \<Rightarrow> u8 list list" where
  "dev_records s = map (entry_bytes (kheap s)) (live s)"

definition dev_contents :: "kstate \<Rightarrow> u8 list" where
  "dev_contents s = concat (dev_records s)"

definition pending_bytes :: "kstate \<Rightarrow> u8 list" where
  "pending_bytes s = entry_bytes (kheap s) (pending s)"

text \<open>
  A pending entry of size 0 is free for reuse; one of positive size points to a live block
  of its own, or is null (after a failed reallocation).
\<close>

definition pending_ok :: "kstate \<Rightarrow> bool" where
  "pending_ok s \<longleftrightarrow> esz (pending s) \<le> 2 ^ 32 \<and>
     (entry_size (pending s) \<noteq> 0 \<longrightarrow> buffptr (pending s) \<noteq> 0 \<longrightarrow>
        entry_ok (kheap s) (pending s) \<and> buffptr (pending s) \<notin> buffptr ` set (live s))"

definition dev_inv :: "kstate \<Rightarrow> bool" where
  "dev_inv s \<longleftrightarrow> cb_wf (circular_buffer (aesd_device s)) \<and> mtx (aesd_device s) = Unlocked \<and>
     (\<forall>e \<in> set (live s). entry_ok (kheap s) e) \<and> pending_ok s \<and> kheap s ZERO_SIZE_PTR = None"

lemma length_entry_bytes: "entry_ok h e \<Longrightarrow> length (entry_bytes h e) = esz e"
  by (auto simp: entry_ok_def entry_bytes_def split: option.splits)

lemma dev_inv_wf: "dev_inv s \<Longrightarrow> cb_wf (circular_buffer (aesd_device s))"
  by (simp add: dev_inv_def)

lemma map_length_records:
  "dev_inv s \<Longrightarrow> map length (dev_records s) = map esz (live s)"
  by (simp add: dev_records_def dev_inv_def length_entry_bytes)

lemma length_contents: "dev_inv s \<Longrightarrow> length (dev_contents s) = cb_total (circular_buffer (aesd_device s))"
  by (simp add: dev_contents_def length_concat map_length_records cb_total_def)

lemma dev_total_bound:
  assumes "dev_inv s"
  shows "cb_total (circular_buffer (aesd_device s)) \<le> 10 * 2 ^ 32"
proof -
  have "sum_list (map esz (live s)) \<le> length (map esz (live s)) * 2 ^ 32"
    using assms by (intro sum_list_le_mult) (auto simp: dev_inv_def entry_ok_def)
  also have "\<dots> \<le> 10 * 2 ^ 32"
    using length_cb_list_le [OF dev_inv_wf [OF assms]] by simp
  finally show ?thesis by (simp add: cb_total_def)
qed

lemma dev_inv_cb_ok: "dev_inv s \<Longrightarrow> cb_ok (circular_buffer (aesd_device s))"
  using dev_total_bound [of s] by (simp add: cb_ok_def dev_inv_wf)

lemma unat_total:
  "dev_inv s \<Longrightarrow> unat (of_nat (length (dev_contents s)) :: size_t) = length (dev_contents s)"
  using dev_total_bound [of s] by (simp add: length_contents unat_of_nat_64)

lemma pending_null: "pending s = null_entry \<Longrightarrow> pending_bytes s = []"
  by (simp add: pending_bytes_def entry_bytes_def null_entry_def split: option.split)

subsection \<open>Locking\<close>

definition locked :: "kstate \<Rightarrow> kstate" where
  "locked s = s\<lparr>aesd_device := (aesd_device s)\<lparr>mtx := Locked\<rparr>\<rparr>"

lemma mutex_lock_inv: "dev_inv s \<Longrightarrow> mutex_lock s = Inr (locked s)"
  by (simp add: mutex_lock_def dev_inv_def locked_def)

lemma locked_sel [simp]:
  "circular_buffer (aesd_device (locked s)) = circular_buffer (aesd_device s)"
  "dev_entry (aesd_device (locked s)) = dev_entry (aesd_device s)"
  "kheap (locked s) = kheap s"
  by (simp_all add: locked_def)

lemma unlock_locked: "mtx (aesd_device s) = Unlocked \<Longrightarrow> mutex_unlock (locked s) = s"
  by (cases s, cases "aesd_device s") (simp add: mutex_unlock_def locked_def)

lemma unlock_locked_inv [simp]: "dev_inv s \<Longrightarrow> mutex_unlock (locked s) = s"
  by (simp add: unlock_locked dev_inv_def)

abbreviation opened :: "open_file \<Rightarrow> bool" where
  "opened f \<equiv> private_data f = Some Aesd_device"

lemma deref_opened [simp]: "opened f \<Longrightarrow> deref_dev f = Inr ()"
  by (simp add: deref_dev_def)

subsection \<open>read\<close>

lemma aesd_read_end:
  assumes "dev_inv s" and "opened f" and "length (dev_contents s) \<le> unat pos"
  shows "aesd_read k f buf count pos s = Inr (0, pos, [], s)"
proof -
  have "aesd_circular_buffer_find_entry_offset_for_fpos (circular_buffer (aesd_device s)) pos = Inr None"
    using assms by (intro cb_store.find_end dev_inv_cb_ok)
      (simp_all add: length_contents cb_total_def)
  then show ?thesis using assms by (simp add: aesd_read_def mutex_lock_inv)
qed

lemma aesd_read_inside:
  fixes count :: size_t
  assumes inv: "dev_inv s" and op: "opened f"
    and loc: "locate (map length (dev_records s)) (unat pos) = Some (k, j)"
  defines "n \<equiv> min (unat count) (length (dev_records s ! k) - j)"
  defines "bs \<equiv> take n (drop (unat pos) (dev_contents s))"
  shows "aesd_read K f buf count pos s =
           (if copy_to_user K buf bs \<noteq> 0
            then Inr (- EFAULT, pos, take (length bs - unat (copy_to_user K buf bs)) bs, s)
            else Inr (of_nat n, pos + of_nat n, bs, s))"
    and "length bs = n" and "n \<le> unat count"
proof -
  let ?cb = "circular_buffer (aesd_device s)" and ?e = "live s ! k"
  have loc': "locate (map esz (live s)) (unat pos) = Some (k, j)"
    using loc map_length_records [OF inv] by simp
  from locate_SomeD [OF loc'] have k: "k < length (live s)" and j: "j < esz ?e" by auto
  have eok: "entry_ok (kheap s) ?e" using inv k by (simp add: dev_inv_def)
  then obtain b where p: "buffptr ?e \<noteq> 0" and b: "kheap s (buffptr ?e) = Some b"
    and len: "esz ?e \<le> length b" and small: "esz ?e \<le> 2 ^ 32"
    by (auto simp: entry_ok_def split: option.splits)
  have rec: "dev_records s ! k = take (esz ?e) b"
    using k b by (simp add: dev_records_def entry_bytes_def)
  have uj: "unat (of_nat j :: size_t) = j" using j small by (intro unat_of_nat_64) simp
  have ud: "unat (entry_size ?e - of_nat j) = esz ?e - j"
    using j uj by (simp add: unat_diff_no_wrap word_le_nat_alt)
  let ?r = "if count < entry_size ?e - of_nat j then count else entry_size ?e - of_nat j"
  have n: "n = min (unat count) (esz ?e - j)"
    using len by (simp add: n_def rec)
  have ur: "unat ?r = n" unfolding n using ud by (simp add: word_less_nat_alt min_def)
  then have r: "?r = of_nat n" by (simp only: ur [symmetric] of_nat_unat ucast_id)
  have "drop (unat pos) (dev_contents s) =
          drop j (take (esz ?e) b) @ concat (drop (Suc k) (dev_records s))"
    using drop_concat_locate [OF loc] by (simp add: dev_contents_def rec)
  then have bs: "bs = take n (drop j b)"
    using len by (simp add: bs_def n drop_take)
  have load: "load_bytes (kheap s) (buffptr ?e) j n = Inr bs"
    using p b j len by (simp add: load_bytes_ok bs n)
  have find: "aesd_circular_buffer_find_entry_offset_for_fpos ?cb pos = Inr (Some (cb_slot ?cb k, of_nat j))"
    using cb_store.find_ok [OF dev_inv_cb_ok [OF inv]] loc' by simp
  have slot: "entry ?cb ! cb_slot ?cb k = ?e"
    using cb_store.entry_at_slot [OF dev_inv_cb_ok [OF inv] k] .
  show "aesd_read K f buf count pos s =
           (if copy_to_user K buf bs \<noteq> 0
            then Inr (- EFAULT, pos, take (length bs - unat (copy_to_user K buf bs)) bs, s)
            else Inr (of_nat n, pos + of_nat n, bs, s))"
    unfolding aesd_read_def using inv op
    by (simp only: deref_opened mutex_lock_inv bindr_Inr Let_def locked_sel find option.case prod.case
        slot ur uj load unlock_locked_inv) (simp only: r)
  show "length bs = n" using len j by (simp add: bs n)
  show "n \<le> unat count" by (simp add: n_def)
qed

subsection \<open>The loops over the ring\<close>

text \<open>While the write cursor of a non-full buffer is not reached, the loops just walk.\<close>

definition clear_walk :: "aesd_circular_buffer \<Rightarrow> nat \<Rightarrow> nat \<Rightarrow> bool" where
  "clear_walk b i n \<longleftrightarrow> full b \<or> (\<forall>k<n. (i + k) mod 10 \<noteq> unat (in_offs b))"

lemma clear_walk_Suc:
  assumes "i < 10"
  shows "clear_walk b i (Suc n) \<longleftrightarrow> (full b \<or> i \<noteq> unat (in_offs b)) \<and> clear_walk b (next_index i) n"
  using assms by (auto simp: clear_walk_def next_index_def mod_simps less_Suc_eq_0_disj)

lemma size_sum_loop_walk:
  assumes "length (entry b) = 10" and "i < 10" and "clear_walk b i n"
  shows "size_sum_loop b (n + m) i t =
           size_sum_loop b m ((i + n) mod 10) (t + of_nat (sum_list (map esz (ring b i n))))"
  using assms(2,3)
proof (induction n arbitrary: i t)
  case 0
  then show ?case by simp
next
  case (Suc n)
  then show ?case using assms(1)
    by (auto simp: clear_walk_Suc ring_Suc next_index_def mod_simps add.assoc)
qed

lemma count_loop_walk:
  assumes "i < 10" and "clear_walk b i n"
  shows "count_loop b (n + m) i c = count_loop b m ((i + n) mod 10) (c + n)"
  using assms
proof (induction n arbitrary: i c)
  case 0
  then show ?case by simp
next
  case (Suc n)
  then show ?case by (auto simp: clear_walk_Suc next_index_def mod_simps)
qed

lemma clear_walk_held: "cb_wf b \<Longrightarrow> n \<le> length (cb_list b) \<Longrightarrow> clear_walk b (unat (out_offs b)) n"
  by (auto simp: clear_walk_def length_cb_list cb_wf_def)

lemma size_sum_loop_prefix:
  assumes "cb_wf b" and "n \<le> length (cb_list b)"
  shows "size_sum_loop b n (unat (out_offs b)) t =
           Inr (t + of_nat (sum_list (map esz (take n (cb_list b)))))"
  using size_sum_loop_walk [of b "unat (out_offs b)" n 0 t] clear_walk_held [OF assms] assms(1)
  by (simp add: cb_wf_def ring_prefix [OF assms])

lemma size_sum_loop_total:
  assumes wf: "cb_wf b"
  shows "size_sum_loop b 10 (unat (out_offs b)) 0 = Inr (of_nat (cb_total b))"
proof (cases "full b")
  case True
  then show ?thesis using size_sum_loop_prefix [OF wf, of 10 0] length_cb_list [OF wf]
    by (simp add: cb_total_def)
next
  case False
  let ?n = "unat (in_offs b)"
  from wf False have len: "length (entry b) = 10" and n: "?n < 10" and o0: "out_offs b = 0"
    and tail: "drop ?n (entry b) = replicate (10 - ?n) null_entry" by (simp_all add: cb_wf_def)
  have l: "length (cb_list b) = ?n" using length_cb_list [OF wf] False by simp
  have "entry b ! ?n = null_entry"
    using arg_cong [OF tail, of "\<lambda>xs. xs ! 0"] n len by simp
  then have z: "entry_size (entry b ! ?n) = 0" by (simp add: null_entry_def)
  obtain m where m: "(10::nat) = ?n + Suc m" using n by (metis add_Suc_right less_iff_Suc_add)
  have "size_sum_loop b (?n + Suc m) 0 0 =
          size_sum_loop b (Suc m) ?n (of_nat (sum_list (map esz (ring b 0 ?n))))"
    using size_sum_loop_walk [of b 0 ?n "Suc m" 0] clear_walk_held [OF wf, of ?n] len n l o0 by simp
  also have "\<dots> = Inr (of_nat (cb_total b))"
    using len n False z ring_prefix [OF wf, of ?n] l o0 by (simp add: cb_total_def)
  finally show ?thesis unfolding m [symmetric] o0 by simp
qed

lemma count_loop_held:
  assumes wf: "cb_wf b"
  shows "count_loop b 10 (unat (out_offs b)) 0 = length (cb_list b)"
proof (cases "full b")
  case True
  then show ?thesis
    using count_loop_walk [of "unat (out_offs b)" b 10 0 0] clear_walk_held [OF wf, of 10]
      length_cb_list [OF wf] wf by (simp add: cb_wf_def)
next
  case False
  let ?n = "unat (in_offs b)"
  from wf False have n: "?n < 10" and o0: "out_offs b = 0" by (simp_all add: cb_wf_def)
  have l: "length (cb_list b) = ?n" using length_cb_list [OF wf] False by simp
  obtain m where m: "(10::nat) = ?n + Suc m" using n by (metis add_Suc_right less_iff_Suc_add)
  have "count_loop b (?n + Suc m) 0 0 = ?n"
    using count_loop_walk [of 0 b ?n "Suc m" 0] clear_walk_held [OF wf, of ?n] n l o0 False by simp
  then show ?thesis unfolding m [symmetric] o0 l by simp
qed

subsection \<open>llseek\<close>

definition seek_target :: "kstate \<Rightarrow> open_file \<Rightarrow> loff_t \<Rightarrow> whence \<Rightarrow> loff_t option" where
  "seek_target s f offset wh =
     (case wh of SEEK_SET \<Rightarrow> Some offset | SEEK_CUR \<Rightarrow> Some (f_pos f + offset)
      | SEEK_END \<Rightarrow> Some (of_nat (length (dev_contents s)) + offset) | SEEK_OTHER _ \<Rightarrow> None)"

lemma sint_nonneg: "0 \<le> sint (w :: 'a::len word) \<Longrightarrow> sint w = int (unat w)"
proof -
  assume nn: "0 \<le> sint w"
  have "sint w < 2 ^ (LENGTH('a) - 1)" by (rule sint_lt)
  also have "\<dots> \<le> 2 ^ LENGTH('a)" by (rule power_increasing) simp_all
  finally have "take_bit LENGTH('a) (sint w) = sint w"
    using nn by (simp add: take_bit_int_eq_self)
  then show ?thesis by (simp add: uint_sint)
qed

lemma word_in_range_iff:
  "n < 2 ^ 63 \<Longrightarrow> \<not> (sint (w :: 64 word) < 0 \<or> of_nat n < w) \<longleftrightarrow> 0 \<le> sint w \<and> sint w \<le> int n"
  by (auto simp: word_less_nat_alt unat_of_nat_64 sint_nonneg simp del: of_nat_unat)

lemma aesd_llseek_ok:
  assumes "dev_inv s" and "opened f"
  shows "aesd_llseek f offset wh s =
           (case seek_target s f offset wh of
              None \<Rightarrow> Inr (- EINVAL, f, s)
            | Some p \<Rightarrow> if sint p < 0 \<or> of_nat (length (dev_contents s)) < p then Inr (- EINVAL, f, s)
                        else Inr (p, f\<lparr>f_pos := p\<rparr>, s))"
  using assms size_sum_loop_total [OF dev_inv_wf [OF assms(1)]]
  by (simp add: aesd_llseek_def mutex_lock_inv length_contents [symmetric] seek_target_def
      split: whence.split)

subsection \<open>ioctl\<close>

lemma le32_roundtrip: "le32_word (le32_bytes w) = w"
proof (rule bit_word_eqI)
  fix n
  assume "n < LENGTH(32)"
  then consider "n < 8" | "8 \<le> n" "n < 16" | "16 \<le> n" "n < 24" | "24 \<le> n" "n < 32"
    by fastforce
  then show "bit (le32_word (le32_bytes w)) n \<longleftrightarrow> bit w n"
    by cases (auto simp: le32_bytes_def bit_or_iff bit_push_bit_iff bit_ucast_iff bit_drop_bit_eq)
qed

lemma length_le32_bytes [simp]: "length (le32_bytes w) = 4"
  by (simp add: le32_bytes_def)

lemma seekto_roundtrip: "seekto_of_bytes (seekto_bytes t) = t"
  by (cases t) (simp add: seekto_of_bytes_def seekto_bytes_def le32_roundtrip)

lemma seekto_cmd_accepted:
  "ioc_type AESDCHAR_IOCSEEKTO = AESD_IOC_MAGIC" "ioc_nr AESDCHAR_IOCSEEKTO = 1"
  "AESDCHAR_IOCSEEKTO = 0xC0081601"
  by (simp_all add: ioc_type_def ioc_nr_def AESDCHAR_IOCSEEKTO_def AESD_IOC_MAGIC_def iowr_def)

lemma unat_ucast_32_64 [simp]: "unat (ucast (w :: 32 word) :: 64 word) = unat w"
proof -
  have "unat w < 2 ^ 64" using unsigned_less [of w, where ?'a = nat] by simp
  then show ?thesis by (simp add: unsigned_ucast_eq take_bit_nat_eq_self)
qed

lemma aesd_ioctl_seekto_raw:
  assumes inv: "dev_inv s" and op: "opened f"
    and arg: "copy_from_user k arg 8 = (0, bs)"
  defines "t \<equiv> seekto_of_bytes bs"
  defines "cb \<equiv> circular_buffer (aesd_device s)"
    and "w \<equiv> unat (write_cmd t)" and "off \<equiv> unat (write_cmd_offset t)"
  shows "aesd_ioctl k f AESDCHAR_IOCSEEKTO arg s =
           (if length (live s) \<le> w \<or> esz (entry cb ! w) \<le> off then Inr (- EINVAL, f, s)
            else Inr (0, f\<lparr>f_pos := of_nat (sum_list (take w (map esz (live s))) + off)\<rparr>, s))"
proof -
  have wf: "cb_wf cb" using dev_inv_wf [OF inv] by (simp add: cb_def)
  have c: "count_loop cb 10 (unat (out_offs cb)) 0 = length (cb_list cb)"
    by (rule count_loop_held [OF wf])
  have l10: "length (entry cb) = 10" using wf by (simp add: cb_wf_def)
  have bound: "\<not> length (cb_list cb) \<le> w \<Longrightarrow> \<not> length (entry cb) \<le> w"
    using length_cb_list_le [OF wf] l10 by simp
  have off: "(ucast (write_cmd_offset t) :: size_t) = of_nat off"
    unfolding off_def by simp
  show ?thesis
    using inv op arg bound size_sum_loop_prefix [OF wf, of w 0] c
    by (auto simp: aesd_ioctl_def seekto_cmd_accepted(1,2) AESDCHAR_IOC_MAXNR_def t_def [symmetric]
        mutex_lock_inv word_le_nat_alt off_def w_def cb_def [symmetric] take_map off [symmetric]
        Let_def)
qed

lemmas aesd_ioctl_seekto =
  aesd_ioctl_seekto_raw [where bs = "seekto_bytes t" for t, unfolded seekto_roundtrip]

lemma aesd_ioctl_refused:
  assumes "cmd \<noteq> AESDCHAR_IOCSEEKTO \<or> fst (copy_from_user k arg 8) \<noteq> 0"
  shows "aesd_ioctl k f cmd arg s =
           Inr (if cmd \<noteq> AESDCHAR_IOCSEEKTO then - ENOTTY else - EFAULT, f, s)"
  using assms
  by (auto simp: aesd_ioctl_def seekto_cmd_accepted(1,2) AESDCHAR_IOC_MAXNR_def Let_def split: prod.split)

end
