(* ===== verification/Sample_Kernel.thy ===== *)
theory Sample_Kernel
  imports Driver_Correct
begin

section \<open>A concrete kernel\<close>

text \<open>
  An executable instance of the kernel services: an allocator over a few fixed addresses
  that grows a block in place, and a user memory that delivers a given byte string in full.
  It satisfies \<open>kernel_ok\<close>, so the hypotheses of the driver's theorems can hold together, and
  the witnesses evaluate the driver on it. Its parameters are the user's bytes and the bytes
  after a block; new memory from \<open>krealloc\<close> is filled with the byte \<open>0xAA\<close>.
\<close>

definition sample_addrs :: "addr list" where
  "sample_addrs = [100, 200, 300, 400]"

definition sample_max :: nat where "sample_max = 1000"

definition sample_kzalloc :: "heap \<Rightarrow> size_t \<Rightarrow> addr \<times> heap" where
  "sample_kzalloc h n =
     (if n = 0 then (ZERO_SIZE_PTR, h)
      else if sample_max < unat n then (0, h)
      else case find (\<lambda>p. h p = None) sample_addrs of
             None \<Rightarrow> (0, h)
           | Some p \<Rightarrow> (p, h(p \<mapsto> replicate (unat n) 0)))"

definition sample_krealloc :: "heap \<Rightarrow> addr \<Rightarrow> size_t \<Rightarrow> addr \<times> heap" where
  "sample_krealloc h p n =
     (if sample_max < unat n \<or> p = ZERO_SIZE_PTR then (0, h)
      else if p = 0 then
        case find (\<lambda>p. h p = None) sample_addrs of
          None \<Rightarrow> (0, h)
        | Some q \<Rightarrow> (q, h(q \<mapsto> replicate (unat n) 0xAA))
      else case h p of
             None \<Rightarrow> (0, h)
           | Some old \<Rightarrow> (p, h(p \<mapsto> take (unat n) (old @ replicate (unat n) 0xAA))))"

definition sample_kernel :: "u8 list \<Rightarrow> u8 list \<Rightarrow> kernel" where
  "sample_kernel user_bytes after =
     \<lparr>kzalloc = sample_kzalloc, krealloc = sample_krealloc,
      copy_from_user = (\<lambda>u n. (0, take (unat n) (user_bytes @ replicate (unat n) 0))),
      copy_to_user = (\<lambda>u bs. 0), slack = (\<lambda>h p. after), kmalloc_max = sample_max\<rparr>"

lemma sample_addrs_valid: "find (\<lambda>p. h p = None) sample_addrs = Some p \<Longrightarrow>
    p \<noteq> 0 \<and> p \<noteq> ZERO_SIZE_PTR \<and> h p = None"
  by (auto simp: sample_addrs_def ZERO_SIZE_PTR_def split: if_splits)

lemma sample_kzalloc_ok: "kzalloc_ok (sample_kernel bs sl)"
  unfolding kzalloc_ok_def
  by (auto simp: sample_kernel_def sample_kzalloc_def ZERO_SIZE_PTR_def dest!: sample_addrs_valid
      split: if_splits option.splits)

lemma sample_krealloc_ok: "krealloc_ok (sample_kernel bs sl)"
proof -
  have "q = 0 \<and> h' = h \<or>
     q \<noteq> 0 \<and> q \<noteq> ZERO_SIZE_PTR \<and> (p \<noteq> 0 \<and> q = p \<or> h q = None) \<and> unat n \<le> sample_max \<and>
       (\<exists>blk. length blk = unat n \<and> h' = (if p = 0 then h else h(p := None))(q \<mapsto> blk) \<and>
          (\<forall>old. p \<noteq> 0 \<longrightarrow> h p = Some old \<longrightarrow>
             take (min (length old) (unat n)) blk = take (min (length old) (unat n)) old))"
    if r: "sample_krealloc h p n = (q, h')" for h p n q h'
  proof (cases "sample_max < unat n \<or> p = ZERO_SIZE_PTR")
    case True
    with r show ?thesis by (auto simp: sample_krealloc_def)
  next
    case small: False
    show ?thesis
    proof (cases "p = 0")
      case True
      with small r show ?thesis
        by (auto simp: sample_krealloc_def dest!: sample_addrs_valid split: option.splits
            intro!: exI [of _ "replicate (unat n) (0xAA :: u8)"])
    next
      case False
      show ?thesis
      proof (cases "h p")
        case None
        with False small r show ?thesis by (simp add: sample_krealloc_def)
      next
        case (Some old)
        with False small r show ?thesis
          by (auto simp: sample_krealloc_def min_def
              intro!: exI [of _ "take (unat n) (old @ replicate (unat n) 0xAA)"])
      qed
    qed
  qed
  then show ?thesis by (simp add: krealloc_ok_def sample_kernel_def)
qed

lemma sample_copy_ok: "copy_ok (sample_kernel bs sl)"
  by (auto simp: copy_ok_def sample_kernel_def min_def)

lemma sample_kernel_ok: "kernel_ok (sample_kernel bs sl)"
  by (simp add: kernel_ok_def sample_kzalloc_ok sample_krealloc_ok sample_copy_ok)
    (simp add: sample_kernel_def sample_max_def)

text \<open>The device as the module's initialisation leaves it, and an open file on it.\<close>

definition fresh_state :: kstate where
  "fresh_state =
     \<lparr>aesd_device = \<lparr>circular_buffer = \<lparr>entry = replicate 10 null_entry, in_offs = 0, out_offs = 0,
                                        full = False\<rparr>,
                     dev_entry = null_entry, mtx = Unlocked\<rparr>,
      kheap = Map.empty\<rparr>"

definition fresh_file :: open_file where
  "fresh_file = \<lparr>private_data = Some Aesd_device, f_pos = 0\<rparr>"

lemma fresh_sel [simp]:
  "private_data fresh_file = Some Aesd_device" "f_pos fresh_file = 0"
  "kheap fresh_state = Map.empty" "pending fresh_state = null_entry"
  "mtx (aesd_device fresh_state) = Unlocked" "live fresh_state = []"
  by (simp_all add: fresh_file_def fresh_state_def cb_list_def)

lemma fresh_inv [simp]: "dev_inv fresh_state" "dev_records fresh_state = []"
  "pending_bytes fresh_state = []"
  by (simp_all add: dev_inv_def pending_ok_def dev_records_def pending_bytes_def entry_bytes_def)
    (simp_all add: fresh_state_def cb_wf_def null_entry_def)

text \<open>A device that holds two records, \<^verbatim>\<open>ab\<close> and \<^verbatim>\<open>c\<close>, each with its newline.\<close>

definition loaded_state :: kstate where
  "loaded_state =
     \<lparr>aesd_device = \<lparr>circular_buffer =
         \<lparr>entry = [\<lparr>buffptr = 100, entry_size = 3\<rparr>, \<lparr>buffptr = 200, entry_size = 2\<rparr>] @
                    replicate 8 null_entry,
          in_offs = 2, out_offs = 0, full = False\<rparr>,
        dev_entry = null_entry, mtx = Unlocked\<rparr>,
      kheap = [100 \<mapsto> [97, 98, 10], 200 \<mapsto> [99, 10]]\<rparr>"

lemma loaded_sel [simp]:
  "kheap loaded_state = [100 \<mapsto> [97, 98, 10], 200 \<mapsto> [99, 10]]"
  "pending loaded_state = null_entry" "mtx (aesd_device loaded_state) = Unlocked"
  "live loaded_state = [\<lparr>buffptr = 100, entry_size = 3\<rparr>, \<lparr>buffptr = 200, entry_size = 2\<rparr>]"
  "out_offs (circular_buffer (aesd_device loaded_state)) = 0"
  by (simp_all add: loaded_state_def cb_list_def)

lemma loaded_wf: "cb_wf (circular_buffer (aesd_device loaded_state))"
  by (simp add: loaded_state_def cb_wf_def)

lemma loaded_inv [simp]: "dev_inv loaded_state"
  "dev_records loaded_state = [[97, 98, 10], [99, 10]]"
  "dev_contents loaded_state = [97, 98, 10, 99, 10]" "pending_bytes loaded_state = []"
  using loaded_wf
  by (simp_all add: dev_inv_def pending_ok_def dev_contents_def dev_records_def pending_bytes_def
      entry_bytes_def entry_ok_def null_entry_def ZERO_SIZE_PTR_def)

text \<open>An empty device with the two bytes \<^verbatim>\<open>hi\<close> pending.\<close>

definition partial_state :: kstate where
  "partial_state = fresh_state\<lparr>kheap := [100 \<mapsto> [104, 105]],
     aesd_device := (aesd_device fresh_state)\<lparr>dev_entry := \<lparr>buffptr = 100, entry_size = 2\<rparr>\<rparr>\<rparr>"

lemma partial_sel [simp]:
  "kheap partial_state = [100 \<mapsto> [104, 105]]" "pending partial_state = \<lparr>buffptr = 100, entry_size = 2\<rparr>"
  "mtx (aesd_device partial_state) = Unlocked" "live partial_state = []"
  "circular_buffer (aesd_device partial_state) = circular_buffer (aesd_device fresh_state)"
  by (simp_all add: partial_state_def)

lemma partial_inv [simp]: "dev_inv partial_state" "dev_records partial_state = []"
  "pending_bytes partial_state = [104, 105]"
  using dev_inv_wf [OF fresh_inv(1)]
  by (simp_all add: dev_inv_def pending_ok_def dev_records_def pending_bytes_def entry_bytes_def
      entry_ok_def ZERO_SIZE_PTR_def)

end
