(* ===== verification/Driver_Write.thy ===== *)
theory Driver_Write
  imports Sample_Kernel
begin

section \<open>The character driver: correctness of write\<close>

text \<open>
  \<open>aesd_write\<close> grows the pending entry by the bytes copied from the user and, when the C
  string at its block holds a newline, moves it into the circular buffer. The theory first
  shows what the allocation and the copy leave behind (\<open>write_alloc\<close>, \<open>write_grown\<close>), then
  that every result keeps the invariant, and what each outcome does to the abstract view.
\<close>

subsection \<open>Outcomes as state updates\<close>

definition waiting :: "kstate \<Rightarrow> heap \<Rightarrow> aesd_buffer_entry \<Rightarrow> kstate" where
  "waiting s h e = s\<lparr>kheap := h, aesd_device := (aesd_device s)\<lparr>dev_entry := e\<rparr>\<rparr>"

definition committed :: "kstate \<Rightarrow> heap \<Rightarrow> aesd_circular_buffer \<Rightarrow> kstate" where
  "committed s h cb =
     s\<lparr>kheap := h, aesd_device := (aesd_device s)\<lparr>circular_buffer := cb, dev_entry := null_entry\<rparr>\<rparr>"

lemma waiting_sel [simp]:
  "kheap (waiting s h e) = h" "dev_entry (aesd_device (waiting s h e)) = e"
  "circular_buffer (aesd_device (waiting s h e)) = circular_buffer (aesd_device s)"
  "mtx (aesd_device (waiting s h e)) = mtx (aesd_device s)"
  by (simp_all add: waiting_def)

lemma committed_sel [simp]:
  "kheap (committed s h cb) = h" "dev_entry (aesd_device (committed s h cb)) = null_entry"
  "circular_buffer (aesd_device (committed s h cb)) = cb"
  "mtx (aesd_device (committed s h cb)) = mtx (aesd_device s)"
  by (simp_all add: committed_def)

lemma unlock_waiting:
  "mtx (aesd_device s) = Unlocked \<Longrightarrow>
     mutex_unlock (set_entry (locked s\<lparr>kheap := h\<rparr>) e) = waiting s h e"
  "mtx (aesd_device s) = Unlocked \<Longrightarrow>
     mutex_unlock (set_entry (set_entry (locked s\<lparr>kheap := h\<rparr>) e\<lparr>kheap := h'\<rparr>) e') = waiting s h' e'"
  by (cases s, cases "aesd_device s",
      simp add: mutex_unlock_def set_entry_def locked_def waiting_def)+

subsection \<open>The allocation\<close>

lemma write_size_no_wrap:
  assumes "esz e \<le> 2 ^ 32" and "unat count \<le> MAX_RW_COUNT"
  shows "unat (entry_size e + count) = esz e + unat count"
  using assms by (intro unat_add_no_wrap) (simp add: MAX_RW_COUNT_def)

lemma fresh_not_live: "dev_inv s \<Longrightarrow> kheap s p = None \<Longrightarrow> p \<notin> buffptr ` set (live s)"
  by (auto simp: dev_inv_def entry_ok_def split: option.splits)

lemma kzalloc_okD:
  assumes "kernel_ok k" and "kzalloc k h n = (p, h')"
  shows "if n = 0 then p = ZERO_SIZE_PTR \<and> h' = h
         else p = 0 \<and> h' = h \<or>
              p \<noteq> 0 \<and> p \<noteq> ZERO_SIZE_PTR \<and> h p = None \<and> unat n \<le> kmalloc_max k \<and> h' = h(p \<mapsto> replicate (unat n) 0)"
  using assms(1) [unfolded kernel_ok_def kzalloc_ok_def] assms(2) by blast

lemma krealloc_okD:
  assumes "kernel_ok k" and "krealloc k h p n = (q, h')" and "n \<noteq> 0" and "p = 0 \<or> h p \<noteq> None"
  shows "q = 0 \<and> h' = h \<or>
     q \<noteq> 0 \<and> q \<noteq> ZERO_SIZE_PTR \<and> (p \<noteq> 0 \<and> q = p \<or> h q = None) \<and> unat n \<le> kmalloc_max k \<and>
       (\<exists>blk. length blk = unat n \<and> h' = (if p = 0 then h else h(p := None))(q \<mapsto> blk) \<and>
          (\<forall>old. p \<noteq> 0 \<longrightarrow> h p = Some old \<longrightarrow>
             take (min (length old) (unat n)) blk = take (min (length old) (unat n)) old))"
proof -
  have "krealloc_ok k" using assms(1) by (simp add: kernel_ok_def)
  note law = this [unfolded krealloc_ok_def, THEN spec [of _ h], THEN spec [of _ p],
    THEN spec [of _ n], THEN spec [of _ q], THEN spec [of _ h']]
  show ?thesis
    by (rule law [THEN mp, OF assms(2), THEN mp, OF assms(3), THEN mp, OF assms(4)])
qed

text \<open>
  The block at \<open>p\<close> has room for the pending bytes and the new ones, holds the pending bytes
  (unless they were lost with a failed reallocation), and no entry of the buffer moved.
\<close>

definition grown :: "kstate \<Rightarrow> size_t \<Rightarrow> addr \<Rightarrow> heap \<Rightarrow> u8 list \<Rightarrow> bool" where
  "grown s count p h blk \<longleftrightarrow> p \<noteq> 0 \<and> p \<noteq> ZERO_SIZE_PTR \<and> h ZERO_SIZE_PTR = None \<and> h p = Some blk \<and>
     length blk = esz (pending s) + unat count \<and> esz (pending s) + unat count \<le> 2 ^ 32 \<and>
     (\<forall>q \<in> buffptr ` set (live s). q \<noteq> p \<and> h q = kheap s q) \<and>
     (entry_size (pending s) = 0 \<or> buffptr (pending s) \<noteq> 0 \<longrightarrow>
        take (esz (pending s)) blk = pending_bytes s)"

lemma grownI:
  assumes "p \<noteq> 0" and "p \<noteq> ZERO_SIZE_PTR" and "h ZERO_SIZE_PTR = None"
    and "h p = Some blk" and "length blk = esz (pending s) + unat count"
    and "esz (pending s) + unat count \<le> 2 ^ 32"
    and "\<And>q. q \<in> buffptr ` set (live s) \<Longrightarrow> q \<noteq> p \<and> h q = kheap s q"
    and "entry_size (pending s) = 0 \<or> buffptr (pending s) \<noteq> 0 \<Longrightarrow>
           take (esz (pending s)) blk = pending_bytes s"
  shows "grown s count p h blk"
  using assms unfolding grown_def by blast

lemma grown_kzalloc:
  assumes k: "kernel_ok k" and inv: "dev_inv s" and c: "count \<noteq> 0"
    and e: "entry_size (pending s) = 0" and alloc: "kzalloc k (kheap s) count = (p, h)"
  shows "p = 0 \<and> h = kheap s \<or> (\<exists>blk. grown s count p h blk)"
proof -
  have kmax: "kmalloc_max k \<le> 2 ^ 32" using k by (simp add: kernel_ok_def)
  have zp: "kheap s ZERO_SIZE_PTR = None" using inv by (simp add: dev_inv_def)
  show ?thesis
  proof (cases "p = 0")
    case True
    with kzalloc_okD [OF k alloc] c show ?thesis by simp
  next
    case False
    with kzalloc_okD [OF k alloc] c have fr: "kheap s p = None" and pz: "p \<noteq> ZERO_SIZE_PTR"
      and mx: "unat count \<le> kmalloc_max k"
      and h: "h = (kheap s)(p \<mapsto> replicate (unat count) 0)" by simp_all
    have "grown s count p h (replicate (unat count) 0)"
    proof (rule grownI [OF False pz])
      show "h ZERO_SIZE_PTR = None" using h pz zp by simp
    next
      fix q assume "q \<in> buffptr ` set (live s)"
      then have "q \<noteq> p" using fresh_not_live [OF inv fr] by metis
      then show "q \<noteq> p \<and> h q = kheap s q" using h by simp
    qed (use h e mx kmax in \<open>simp_all add: pending_bytes_def entry_bytes_def split: option.split\<close>)
    then show ?thesis by blast
  qed
qed

lemma krealloc_keeps:
  assumes "kheap s (buffptr (pending s)) = Some ob" and "esz (pending s) \<le> length ob"
    and "esz (pending s) \<le> m" and "take (min (length ob) m) blk = take (min (length ob) m) ob"
  shows "take (esz (pending s)) blk = pending_bytes s"
proof -
  have e: "min (esz (pending s)) (min (length ob) m) = esz (pending s)" using assms(2,3) by simp
  have "take (esz (pending s)) blk = take (esz (pending s)) (take (min (length ob) m) blk)"
    by (simp only: take_take e)
  also have "\<dots> = take (esz (pending s)) ob" by (simp only: assms(4) take_take e)
  finally show ?thesis by (simp add: pending_bytes_def entry_bytes_def assms(1))
qed

lemma grown_krealloc:
  assumes k: "kernel_ok k" and inv: "dev_inv s" and c: "unat count \<le> MAX_RW_COUNT"
    and e: "entry_size (pending s) \<noteq> 0"
    and alloc: "krealloc k (kheap s) (buffptr (pending s)) (entry_size (pending s) + count) = (p, h)"
  shows "p = 0 \<and> h = kheap s \<or> (\<exists>blk. grown s count p h blk)"
proof -
  let ?q = "buffptr (pending s)" and ?m = "esz (pending s) + unat count"
  have po: "pending_ok s" using inv by (simp add: dev_inv_def)
  have kmax: "kmalloc_max k \<le> 2 ^ 32" using k by (simp add: kernel_ok_def)
  have zp: "kheap s ZERO_SIZE_PTR = None" using inv by (simp add: dev_inv_def)
  have n: "unat (entry_size (pending s) + count) = ?m"
    using po c by (intro write_size_no_wrap) (simp_all add: pending_ok_def)
  then have nz: "entry_size (pending s) + count \<noteq> 0" using e by (metis add_is_0 unat_0 unat_eq_zero)
  have old: "?q = 0 \<or> kheap s ?q \<noteq> None" and sep: "?q \<noteq> 0 \<longrightarrow> ?q \<notin> buffptr ` set (live s)"
    using po e by (auto simp: pending_ok_def entry_ok_def split: option.splits)
  note cases = krealloc_okD [OF k alloc nz old, unfolded n]
  show ?thesis
  proof (cases "p = 0")
    case True
    with cases show ?thesis by blast
  next
    case False
    with cases obtain blk where pz: "p \<noteq> ZERO_SIZE_PTR" and loc: "?q \<noteq> 0 \<and> p = ?q \<or> kheap s p = None"
      and mx: "?m \<le> kmalloc_max k" and len: "length blk = ?m"
      and h: "h = (if ?q = 0 then kheap s else (kheap s)(?q := None))(p \<mapsto> blk)"
      and keep: "\<And>old. ?q \<noteq> 0 \<Longrightarrow> kheap s ?q = Some old \<Longrightarrow>
        take (min (length old) ?m) blk = take (min (length old) ?m) old" by blast
    have frame: "r \<noteq> p \<and> h r = kheap s r" if r: "r \<in> buffptr ` set (live s)" for r
    proof -
      have "r \<noteq> p" "?q \<noteq> 0 \<longrightarrow> r \<noteq> ?q"
        using r loc sep fresh_not_live [OF inv, of p] by metis+
      then show ?thesis using h by simp
    qed
    have "take (esz (pending s)) blk = pending_bytes s" if q: "?q \<noteq> 0"
    proof -
      from po e q obtain ob where ob: "kheap s ?q = Some ob" "esz (pending s) \<le> length ob"
        by (auto simp: pending_ok_def entry_ok_def split: option.splits)
      show ?thesis by (rule krealloc_keeps [OF ob _ keep [OF q ob(1)]]) simp
    qed
    then have "grown s count p h blk"
      using h len mx kmax e pz zp by (intro grownI [OF False pz _ _ _ _ frame]) simp_all
    then show ?thesis by blast
  qed
qed

lemma write_alloc:
  assumes "kernel_ok k" and "dev_inv s" and "count \<noteq> 0 \<or> entry_size (pending s) \<noteq> 0"
    and "unat count \<le> MAX_RW_COUNT"
    and "entry_alloc k (kheap s) (pending s) count = (p, h)"
  shows "p = 0 \<and> h = kheap s \<or> (\<exists>blk. grown s count p h blk)"
proof (cases "entry_size (pending s) = 0")
  case True
  with assms(3,5) show ?thesis by (intro grown_kzalloc [OF assms(1,2)]) (simp_all add: entry_alloc_def)
next
  case False
  with assms(5) show ?thesis by (intro grown_krealloc [OF assms(1,2,4)]) (simp_all add: entry_alloc_def)
qed

subsection \<open>The copy and the newline test\<close>

lemma sint_small: "unat (w :: 64 word) < 2 ^ 63 \<Longrightarrow> sint w = int (unat w)"
proof -
  assume "unat w < 2 ^ 63"
  then have "uint w < 2 ^ 63" by (metis of_nat_less_iff of_nat_numeral of_nat_power of_nat_unat unsigned_word_eqI)
  then have "signed_take_bit 63 (uint w) = uint w"
    by (intro signed_take_bit_int_eq_self) (auto intro: order_trans [of _ 0])
  then show ?thesis by (simp add: sint_uint)
qed

lemma write_retval:
  assumes "r \<le> count" and "unat count \<le> MAX_RW_COUNT"
  shows "(if 0 < sint (r :: 64 word) then count - r else count) = count - r"
proof -
  have "unat r < 2 ^ 63" using assms by (simp add: word_le_nat_alt MAX_RW_COUNT_def)
  then show ?thesis by (auto simp: sint_small unat_eq_zero simp del: of_nat_unat)
qed

lemma copy_from_userD:
  assumes "kernel_ok k" and "copy_from_user k u n = (r, bs)"
  shows "r \<le> n" and "length bs = unat n" and "drop (unat (n - r)) bs = replicate (unat r) 0"
  using assms unfolding kernel_ok_def copy_ok_def by blast+

lemma aesd_write_enomem:
  assumes "dev_inv s" and "opened f"
    and "entry_alloc k (kheap s) (pending s) count = (0, h)"
  shows "aesd_write k f buf count s = Inr (- ENOMEM, waiting s h (pending s\<lparr>buffptr := 0\<rparr>))"
proof -
  have "mtx (aesd_device s) = Unlocked" using assms(1) by (simp add: dev_inv_def)
  from unlock_waiting(1) [OF this] assms show ?thesis
    by (simp add: aesd_write_def mutex_lock_inv Let_def)
qed

lemma aesd_write_grown:
  assumes k: "kernel_ok k" and inv: "dev_inv s" and op: "opened f"
    and c: "unat count \<le> MAX_RW_COUNT"
    and alloc: "entry_alloc k (kheap s) (pending s) count = (p, h)"
    and g: "grown s count p h blk" and cp: "copy_from_user k buf count = (r, bs)"
  defines "blk' \<equiv> take (esz (pending s)) blk @ bs"
  defines "h' \<equiv> h(p \<mapsto> blk')"
  defines "e' \<equiv> \<lparr>buffptr = p, entry_size = entry_size (pending s) + (count - r)\<rparr>"
  shows "aesd_write k f buf count s =
           bindr (scan_str NEWLINE (blk' @ slack k h' p)) (\<lambda>found.
             if found \<noteq> None
             then bindr (aesd_circular_buffer_add_entry (circular_buffer (aesd_device s)) e') (\<lambda>cb.
                    Inr (count - r, committed s h' cb))
             else Inr (count - r, waiting s h' e'))"
proof -
  note cf = copy_from_userD [OF k cp]
  from g have p: "p \<noteq> 0" and hp: "h p = Some blk" and len: "length blk = esz (pending s) + unat count"
    by (simp_all add: grown_def)
  have st: "store_bytes h p (esz (pending s)) bs = Inr h'"
    using store_bytes_ok [where h = h and off = "esz (pending s)" and bs = bs, OF p hp] len cf(2)
    by (simp add: h'_def blk'_def)
  have e: "pending s\<lparr>buffptr := p, entry_size := entry_size (pending s) + (count - r)\<rparr> = e'"
    by (cases "pending s") (simp add: e'_def)
  have sc: "strchr h' (slack k h' p) p NEWLINE = scan_str NEWLINE (blk' @ slack k h' p)"
    using p by (simp add: strchr_def h'_def)
  have un: "mtx (aesd_device s) = Unlocked" using inv by (simp add: dev_inv_def)
  note w = unlock_waiting(2) [OF un]
  have cm: "mutex_unlock (set_entry (set_entry (set_entry (locked s\<lparr>kheap := h\<rparr>) x\<lparr>kheap := h'\<rparr>) e'
      \<lparr>aesd_device := (aesd_device (set_entry (set_entry (locked s\<lparr>kheap := h\<rparr>) x\<lparr>kheap := h'\<rparr>) e'))
          \<lparr>circular_buffer := cb\<rparr>\<rparr>) \<lparr>buffptr = 0, entry_size = 0\<rparr>) = committed s h' cb" for x cb
    using un by (cases s, cases "aesd_device s")
      (simp add: mutex_unlock_def set_entry_def locked_def committed_def null_entry_def)
  have sel: "kheap (set_entry t x) = kheap t" "dev_entry (aesd_device (set_entry t x)) = x"
    "circular_buffer (aesd_device (set_entry t x)) = circular_buffer (aesd_device t)"
    "kheap (t\<lparr>kheap := g\<rparr>) = g" "aesd_device (t\<lparr>kheap := g\<rparr>) = aesd_device t" for t x g
    by (simp_all add: set_entry_def)
  show ?thesis
    unfolding aesd_write_def
    by (simp only: deref_opened [OF op] mutex_lock_inv [OF inv] bindr_Inr Let_def locked_sel alloc
        prod.case p if_False cp sel st write_retval [OF cf(1) c] e sc w cm)
qed

subsection \<open>The invariant and the abstract view\<close>

lemma entry_cong:
  "h' (buffptr e) = h (buffptr e) \<Longrightarrow> entry_bytes h' e = entry_bytes h e \<and> entry_ok h' e = entry_ok h e"
  by (simp add: entry_bytes_def entry_ok_def)

text \<open>What the grown entry holds after the copy, and that no other entry changed.\<close>

lemma grown_entry:
  assumes k: "kernel_ok k" and inv: "dev_inv s" and g: "grown s count p h blk"
    and cp: "copy_from_user k buf count = (r, bs)"
  defines "h' \<equiv> h(p \<mapsto> take (esz (pending s)) blk @ bs)"
    and "e' \<equiv> \<lparr>buffptr = p, entry_size = entry_size (pending s) + (count - r)\<rparr>"
  shows "entry_ok h' e'"
    and "entry_bytes h' e' = take (esz (pending s)) blk @ take (unat (count - r)) bs"
    and "p \<notin> buffptr ` set (live s)" and "h' ZERO_SIZE_PTR = None"
    and "\<And>e. e \<in> set (live s) \<Longrightarrow> h' (buffptr e) = kheap s (buffptr e)"
proof -
  note cf = copy_from_userD [OF k cp]
  have len: "length blk = esz (pending s) + unat count" and mx: "esz (pending s) + unat count \<le> 2 ^ 32"
    and frame: "\<And>q. q \<in> buffptr ` set (live s) \<Longrightarrow> q \<noteq> p \<and> h q = kheap s q"
    and p: "p \<noteq> 0" "p \<noteq> ZERO_SIZE_PTR" "h ZERO_SIZE_PTR = None"
    using g unfolding grown_def by blast+
  have d: "unat (count - r) = unat count - unat r" by (rule unat_diff_no_wrap [OF cf(1)])
  have sz: "unat (entry_size (pending s) + (count - r)) = esz (pending s) + unat (count - r)"
    using mx d by (intro unat_add_no_wrap) simp
  show "entry_ok h' e'" using p len mx d cf(2) by (simp add: entry_ok_def h'_def e'_def sz)
  show "entry_bytes h' e' = take (esz (pending s)) blk @ take (unat (count - r)) bs"
    using len by (simp add: entry_bytes_def h'_def e'_def sz)
  show "p \<notin> buffptr ` set (live s)" using frame by blast
  show "h' ZERO_SIZE_PTR = None" using p by (simp add: h'_def)
  show "h' (buffptr e) = kheap s (buffptr e)" if "e \<in> set (live s)" for e
    using frame [of "buffptr e"] that by (simp add: h'_def)
qed

lemma live_frame:
  assumes "dev_inv s" and "\<And>e. e \<in> set (live s) \<Longrightarrow> h' (buffptr e) = kheap s (buffptr e)"
  shows "\<forall>e \<in> set (live s). entry_ok h' e" and "map (entry_bytes h') (live s) = dev_records s"
  using assms entry_cong [of h' _ "kheap s"] by (auto simp: dev_inv_def dev_records_def)

lemma waiting_inv:
  assumes inv: "dev_inv s" and eok: "entry_ok h' e'" and p: "buffptr e' \<notin> buffptr ` set (live s)"
    and z: "h' ZERO_SIZE_PTR = None"
    and fr: "\<And>e. e \<in> set (live s) \<Longrightarrow> h' (buffptr e) = kheap s (buffptr e)"
  shows "dev_inv (waiting s h' e')" and "dev_records (waiting s h' e') = dev_records s"
    and "pending_bytes (waiting s h' e') = entry_bytes h' e'"
proof -
  note lf = live_frame [OF inv fr]
  show "dev_inv (waiting s h' e')"
    using inv lf(1) eok p z by (simp add: dev_inv_def pending_ok_def) (simp add: entry_ok_def)
  show "dev_records (waiting s h' e') = dev_records s" using lf(2) by (simp add: dev_records_def)
  show "pending_bytes (waiting s h' e') = entry_bytes h' e'" by (simp add: pending_bytes_def)
qed

text \<open>The ten-record window of a sequence.\<close>

definition window :: "'a list \<Rightarrow> 'a list" where
  "window xs = drop (length xs - AESDCHAR_MAX_WRITE_OPERATIONS_SUPPORTED) xs"

lemma committed_inv:
  assumes inv: "dev_inv s" and eok: "entry_ok h' e'" and z: "h' ZERO_SIZE_PTR = None"
    and fr: "\<And>e. e \<in> set (live s) \<Longrightarrow> h' (buffptr e) = kheap s (buffptr e)"
  shows "\<exists>cb. aesd_circular_buffer_add_entry (circular_buffer (aesd_device s)) e' = Inr cb \<and>
           dev_inv (committed s h' cb) \<and>
           cb_list cb = window (live s @ [e']) \<and>
           dev_records (committed s h' cb) = window (dev_records s @ [entry_bytes h' e']) \<and>
           pending_bytes (committed s h' cb) = []"
proof -
  from cb_fifo.add_ok [OF dev_inv_wf [OF inv], of e'] obtain cb where
    add: "aesd_circular_buffer_add_entry (circular_buffer (aesd_device s)) e' = Inr cb"
    and wf: "cb_wf cb" and cl: "cb_list cb = drop (Suc (length (live s)) - 10) (live s @ [e'])" by auto
  note lf = live_frame [OF inv fr]
  have "\<forall>e \<in> set (cb_list cb). entry_ok h' e"
    using lf(1) eok unfolding cl by (auto dest: in_set_dropD)
  then have "dev_inv (committed s h' cb)"
    using inv wf z by (simp add: dev_inv_def pending_ok_def null_entry_def)
  moreover have "dev_records (committed s h' cb) = window (dev_records s @ [entry_bytes h' e'])"
  proof -
    have "dev_records (committed s h' cb) = drop (Suc (length (live s)) - 10) (map (entry_bytes h') (live s @ [e']))"
      by (simp only: dev_records_def committed_sel cl drop_map)
    moreover have "length (dev_records s) = length (live s)" by (simp add: dev_records_def)
    ultimately show ?thesis by (simp add: lf(2) window_def)
  qed
  moreover have "pending_bytes (committed s h' cb) = []"
    by (simp add: pending_null)
  moreover have "cb_list cb = window (live s @ [e'])" by (simp add: cl window_def)
  ultimately show ?thesis using add by blast
qed

lemma enomem_inv:
  assumes "dev_inv s"
  shows "dev_inv (waiting s (kheap s) (pending s\<lparr>buffptr := 0\<rparr>))"
  using assms by (simp add: dev_inv_def pending_ok_def)

text \<open>All outcomes of a write that got its memory, in terms of the scan of its block.\<close>

lemma aesd_write_outcome:
  assumes k: "kernel_ok k" and inv: "dev_inv s" and op: "opened f"
    and c: "count \<noteq> 0 \<or> entry_size (pending s) \<noteq> 0" "unat count \<le> MAX_RW_COUNT"
    and alloc: "entry_alloc k (kheap s) (pending s) count = (p, h)" and p: "p \<noteq> 0"
    and cp: "copy_from_user k buf count = (r, bs)"
  obtains old h' where "length old = esz (pending s)"
    and "entry_size (pending s) = 0 \<or> buffptr (pending s) \<noteq> 0 \<Longrightarrow> old = pending_bytes s"
    and "\<And>e. e \<in> set (live s) \<Longrightarrow> buffptr e \<noteq> p \<and> h' (buffptr e) = kheap s (buffptr e)"
    and "\<And>n. scan_str NEWLINE ((old @ bs) @ slack k h' p) = Inr (Some n) \<Longrightarrow>
           \<exists>s'. aesd_write k f buf count s = Inr (count - r, s') \<and> dev_inv s' \<and> kheap s' = h' \<and>
             dev_records s' = window (dev_records s @ [old @ take (unat (count - r)) bs]) \<and>
             pending s' = null_entry \<and> (\<exists>e'. buffptr e' = p \<and> live s' = window (live s @ [e']))"
    and "scan_str NEWLINE ((old @ bs) @ slack k h' p) = Inr None \<Longrightarrow>
           \<exists>s'. aesd_write k f buf count s = Inr (count - r, s') \<and> dev_inv s' \<and> kheap s' = h' \<and>
             dev_records s' = dev_records s \<and> buffptr (pending s') = p \<and>
             pending_bytes s' = old @ take (unat (count - r)) bs"
    and "\<And>x. scan_str NEWLINE ((old @ bs) @ slack k h' p) = Inl x \<Longrightarrow>
           aesd_write k f buf count s = Inl x"
    and "h' = h(p \<mapsto> old @ bs)"
proof -
  from write_alloc [OF k inv c alloc] p obtain blk where g: "grown s count p h blk" by blast
  let ?old = "take (esz (pending s)) blk"
  let ?h = "h(p \<mapsto> ?old @ bs)"
  let ?e = "\<lparr>buffptr = p, entry_size = entry_size (pending s) + (count - r)\<rparr>"
  note w = aesd_write_grown [OF k inv op c(2) alloc g cp]
  note ge = grown_entry [OF k inv g cp]
  note ci = committed_inv [of s ?h ?e, OF inv ge(1) ge(4) ge(5)]
  have pe: "buffptr ?e \<notin> buffptr ` set (live s)" using ge(3) by simp
  note wi = waiting_inv [of s ?h ?e, OF inv ge(1) pe ge(4) ge(5)]
  show thesis
  proof (rule that [of ?old ?h])
    show "length ?old = esz (pending s)" using g by (simp add: grown_def)
    show "entry_size (pending s) = 0 \<or> buffptr (pending s) \<noteq> 0 \<Longrightarrow> ?old = pending_bytes s"
      using g unfolding grown_def by blast
  next
    fix e assume "e \<in> set (live s)"
    then show "buffptr e \<noteq> p \<and> ?h (buffptr e) = kheap s (buffptr e)" using ge(3,5) by auto
  next
    fix n assume "scan_str NEWLINE ((?old @ bs) @ slack k ?h p) = Inr (Some n)"
    with w ci show "\<exists>s'. aesd_write k f buf count s = Inr (count - r, s') \<and> dev_inv s' \<and>
      kheap s' = ?h \<and> dev_records s' = window (dev_records s @ [?old @ take (unat (count - r)) bs]) \<and>
      pending s' = null_entry \<and> (\<exists>e'. buffptr e' = p \<and> live s' = window (live s @ [e']))"
      by (auto simp: ge(2) intro!: exI [of _ ?e])
  next
    assume "scan_str NEWLINE ((?old @ bs) @ slack k ?h p) = Inr None"
    with w have "aesd_write k f buf count s = Inr (count - r, waiting s ?h ?e)" by simp
    then show "\<exists>s'. aesd_write k f buf count s = Inr (count - r, s') \<and> dev_inv s' \<and>
      kheap s' = ?h \<and> dev_records s' = dev_records s \<and> buffptr (pending s') = p \<and>
      pending_bytes s' = ?old @ take (unat (count - r)) bs"
      using wi ge(2) by (intro exI [of _ "waiting s ?h ?e"]) simp
  next
    fix x assume "scan_str NEWLINE ((?old @ bs) @ slack k ?h p) = Inl x"
    with w show "aesd_write k f buf count s = Inl x" by simp
  qed simp
qed

text \<open>The same for a complete copy behind intact pending bytes.\<close>

lemma aesd_write_full_copy:
  assumes "kernel_ok k" and "dev_inv s" and "opened f"
    and "count \<noteq> 0" and "unat count \<le> MAX_RW_COUNT"
    and "fst (entry_alloc k (kheap s) (pending s) count) \<noteq> 0"
    and "copy_from_user k buf count = (0, bs)"
    and "entry_size (pending s) = 0 \<or> buffptr (pending s) \<noteq> 0"
  obtains h' p where
    "\<And>n. scan_str NEWLINE ((pending_bytes s @ bs) @ slack k h' p) = Inr (Some n) \<Longrightarrow>
       \<exists>s'. aesd_write k f buf count s = Inr (count, s') \<and> dev_inv s' \<and> kheap s' = h' \<and>
         dev_records s' = window (dev_records s @ [pending_bytes s @ bs]) \<and> pending s' = null_entry"
    and "scan_str NEWLINE ((pending_bytes s @ bs) @ slack k h' p) = Inr None \<Longrightarrow>
       \<exists>s'. aesd_write k f buf count s = Inr (count, s') \<and> dev_inv s' \<and> kheap s' = h' \<and>
         dev_records s' = dev_records s \<and> pending_bytes s' = pending_bytes s @ bs"
    and "\<And>x. scan_str NEWLINE ((pending_bytes s @ bs) @ slack k h' p) = Inl x \<Longrightarrow>
       aesd_write k f buf count s = Inl x"
proof -
  obtain p h where alloc: "entry_alloc k (kheap s) (pending s) count = (p, h)" by force
  have p: "p \<noteq> 0" using assms(6) alloc by simp
  have c: "count \<noteq> 0 \<or> entry_size (pending s) \<noteq> 0" using assms(4) by simp
  have bs: "take (unat count) bs = bs" using copy_from_userD(2) [OF assms(1,7)] by simp
  show thesis
  proof (rule aesd_write_outcome [OF assms(1-3) c assms(5) alloc p assms(7)], goal_cases)
    case (1 old h')
    from 1(2) [OF assms(8)] have o: "old = pending_bytes s" .
    show ?case
      by (rule that [of h' p]) (use 1(4-6) o bs pending_null in \<open>fastforce+\<close>)
  qed
qed

lemma aesd_write_commit:
  assumes "kernel_ok k" and "dev_inv s" and "opened f"
    and "count \<noteq> 0" and "unat count \<le> MAX_RW_COUNT"
    and "fst (entry_alloc k (kheap s) (pending s) count) \<noteq> 0"
    and "copy_from_user k buf count = (0, bs)"
    and "entry_size (pending s) = 0 \<or> buffptr (pending s) \<noteq> 0"
    and "pending_bytes s @ bs = xs @ NEWLINE # ys" and "NEWLINE \<notin> set xs" and "0 \<notin> set xs"
  shows "\<exists>s'. aesd_write k f buf count s = Inr (count, s') \<and> dev_inv s' \<and>
           dev_records s' = window (dev_records s @ [pending_bytes s @ bs]) \<and>
           pending s' = null_entry"
proof (rule aesd_write_full_copy [OF assms(1-8)])
  fix h' p
  assume commit: "\<And>n. scan_str NEWLINE ((pending_bytes s @ bs) @ slack k h' p) = Inr (Some n) \<Longrightarrow>
       \<exists>s'. aesd_write k f buf count s = Inr (count, s') \<and> dev_inv s' \<and> kheap s' = h' \<and>
         dev_records s' = window (dev_records s @ [pending_bytes s @ bs]) \<and> pending s' = null_entry"
  have "scan_str NEWLINE ((pending_bytes s @ bs) @ slack k h' p) = Inr (Some (length xs))"
    using scan_str_found [OF assms(10,11), of "ys @ slack k h' p"]
    by (simp only: assms(9) append_assoc append_Cons)
  from commit [OF this] show ?thesis by blast
qed

text \<open>
  Without a newline or a NUL among the bytes, what comes after the block decides: the scan of
  the newline test goes on there.
\<close>

lemma aesd_write_unfinished:
  assumes "kernel_ok k" and "dev_inv s" and "opened f"
    and "count \<noteq> 0" and "unat count \<le> MAX_RW_COUNT"
    and alloc: "entry_alloc k (kheap s) (pending s) count = (p, h)" and p: "p \<noteq> 0"
    and "copy_from_user k buf count = (0, bs)"
    and "entry_size (pending s) = 0 \<or> buffptr (pending s) \<noteq> 0"
    and no_end: "NEWLINE \<notin> set (pending_bytes s @ bs)" "0 \<notin> set (pending_bytes s @ bs)"
  shows "case scan_str NEWLINE (slack k (h(p \<mapsto> pending_bytes s @ bs)) p) of
      Inr None \<Rightarrow> \<exists>s'. aesd_write k f buf count s = Inr (count, s') \<and> dev_inv s' \<and>
        dev_records s' = dev_records s \<and> pending_bytes s' = pending_bytes s @ bs \<and> buffptr (pending s') \<noteq> 0
    | Inr (Some n) \<Rightarrow> \<exists>s'. aesd_write k f buf count s = Inr (count, s') \<and> dev_inv s' \<and>
        dev_records s' = window (dev_records s @ [pending_bytes s @ bs]) \<and> pending s' = null_entry
    | Inl x \<Rightarrow> aesd_write k f buf count s = Inl OutOfBounds"
proof -
  have c: "count \<noteq> 0 \<or> entry_size (pending s) \<noteq> 0" using assms(4) by simp
  have bs: "take (unat count) bs = bs" using copy_from_userD(2) [OF assms(1,8)] by simp
  show ?thesis
  proof (rule aesd_write_outcome [OF assms(1-3) c assms(5) alloc p assms(8)], goal_cases)
    case (1 old h')
    from 1(2) [OF assms(9)] have o: "old = pending_bytes s" .
    have h': "h' = h(p \<mapsto> pending_bytes s @ bs)" using 1(7) o by simp
    have scan: "scan_str NEWLINE ((old @ bs) @ slack k h' p) = bindr (scan_str NEWLINE (slack k h' p))
        (\<lambda>r. Inr (map_option (\<lambda>n. length (old @ bs) + n) r))"
      using no_end unfolding o by (rule scan_str_append)
    show ?case
    proof (cases "scan_str NEWLINE (slack k h' p)")
      case (Inl x)
      then have "scan_str NEWLINE ((old @ bs) @ slack k h' p) = Inl x" using scan by simp
      from 1(6) [OF this] Inl scan_str_fault [OF Inl] show ?thesis by (simp add: h')
    next
      case (Inr r)
      then have "scan_str NEWLINE ((old @ bs) @ slack k h' p) = Inr (map_option (\<lambda>n. length (old @ bs) + n) r)"
        using scan by simp
      then show ?thesis
        using 1(4,5) Inr o bs p by (cases r) (auto simp: h')
    qed
  qed
qed

text \<open>In a block that a NUL follows, the bytes wait.\<close>

lemma aesd_write_waits:
  assumes "kernel_ok k" and "dev_inv s" and "opened f"
    and "count \<noteq> 0" and "unat count \<le> MAX_RW_COUNT"
    and "fst (entry_alloc k (kheap s) (pending s) count) \<noteq> 0"
    and "copy_from_user k buf count = (0, bs)"
    and "entry_size (pending s) = 0 \<or> buffptr (pending s) \<noteq> 0"
    and "NEWLINE \<notin> set (pending_bytes s @ bs)" and "0 \<notin> set (pending_bytes s @ bs)"
    and "\<And>h p. \<exists>zs. slack k h p = 0 # zs"
  shows "\<exists>s'. aesd_write k f buf count s = Inr (count, s') \<and> dev_inv s' \<and>
           dev_records s' = dev_records s \<and> pending_bytes s' = pending_bytes s @ bs \<and>
           buffptr (pending s') \<noteq> 0"
proof -
  obtain p h where alloc: "entry_alloc k (kheap s) (pending s) count = (p, h)" by force
  have p: "p \<noteq> 0" using assms(6) alloc by simp
  obtain zs where "slack k (h(p \<mapsto> pending_bytes s @ bs)) p = 0 # zs" using assms(11) by blast
  with aesd_write_unfinished [OF assms(1-5) alloc p assms(7-10)] show ?thesis by (simp add: NEWLINE_def)
qed

text \<open>A write can only leave its block when nothing it copied ends the scan.\<close>

lemma aesd_write_fault_cause:
  assumes "kernel_ok k" and "dev_inv s" and "opened f" and "unat count \<le> MAX_RW_COUNT"
    and "count \<noteq> 0 \<or> entry_size (pending s) \<noteq> 0" and "aesd_write k f buf count s = Inl x"
  shows "fst (entry_alloc k (kheap s) (pending s) count) \<noteq> 0 \<and>
    NEWLINE \<notin> set (snd (copy_from_user k buf count)) \<and> 0 \<notin> set (snd (copy_from_user k buf count))"
proof -
  obtain p h where alloc: "entry_alloc k (kheap s) (pending s) count = (p, h)" by force
  obtain r bs where cp: "copy_from_user k buf count = (r, bs)" by force
  have p: "p \<noteq> 0" using aesd_write_enomem [OF assms(2,3), of k count h buf] alloc assms(6) by auto
  show ?thesis
  proof (rule aesd_write_outcome [OF assms(1-3) assms(5,4) alloc p cp], goal_cases)
    case (1 old h')
    have "scan_str NEWLINE ((old @ bs) @ slack k h' p) = Inl x"
    proof (cases "scan_str NEWLINE ((old @ bs) @ slack k h' p)")
      case (Inl y)
      then show ?thesis using 1(6) [OF Inl] assms(6) by simp
    next
      case (Inr r)
      then show ?thesis using 1(4,5) assms(6) by (cases r) fastforce+
    qed
    from scan_str_fault_no_end [OF this] show ?case using alloc p cp by simp
  qed
qed

text \<open>A write of no bytes with nothing pending: the newline test dereferences \<open>ZERO_SIZE_PTR\<close>.\<close>

lemma aesd_write_zero:
  assumes "kernel_ok k" and "dev_inv s" and "opened f" and "entry_size (pending s) = 0"
  shows "aesd_write k f buf 0 s = Inl BadPointer"
proof -
  obtain r bs where cp: "copy_from_user k buf 0 = (r, bs)" by force
  have bs: "bs = []" using copy_from_userD(2) [OF assms(1) cp] by simp
  obtain p h where z: "kzalloc k (kheap s) 0 = (p, h)" by force
  have ph: "p = ZERO_SIZE_PTR" "h = kheap s" using kzalloc_okD [OF assms(1) z] by simp_all
  have st: "store_bytes (kheap s) ZERO_SIZE_PTR 0 [] = Inr (kheap s)" by (simp add: store_bytes_def)
  have sc: "strchr (kheap s) sl ZERO_SIZE_PTR NEWLINE = Inl BadPointer" for sl
    using assms(2) by (simp add: strchr_def dev_inv_def ZERO_SIZE_PTR_def)
  show ?thesis using assms
    by (simp add: aesd_write_def mutex_lock_inv entry_alloc_def z ph cp bs Let_def set_entry_def st sc)
      (simp add: ZERO_SIZE_PTR_def)
qed

lemma window_length: "length (window xs) \<le> AESDCHAR_MAX_WRITE_OPERATIONS_SUPPORTED"
  by (simp add: window_def)

lemma window_snoc_full:
  "length xs = AESDCHAR_MAX_WRITE_OPERATIONS_SUPPORTED \<Longrightarrow> window (xs @ [x]) = tl xs @ [x]"
  by (cases xs) (simp_all add: window_def)

text \<open>The only faults of a write are those of its newline test.\<close>

lemma aesd_write_returns:
  assumes "kernel_ok k" and "dev_inv s" and "opened f" and "unat count \<le> MAX_RW_COUNT"
  shows "(\<exists>v s'. aesd_write k f buf count s = Inr (v, s')) \<or>
         aesd_write k f buf count s = Inl OutOfBounds \<or>
         count = 0 \<and> entry_size (pending s) = 0 \<and> aesd_write k f buf count s = Inl BadPointer"
proof (cases "count = 0 \<and> entry_size (pending s) = 0")
  case True
  then show ?thesis using aesd_write_zero [OF assms(1-3)] by simp
next
  case False
  then have c: "count \<noteq> 0 \<or> entry_size (pending s) \<noteq> 0" by simp
  obtain p h where alloc: "entry_alloc k (kheap s) (pending s) count = (p, h)" by force
  obtain r bs where cp: "copy_from_user k buf count = (r, bs)" by force
  show ?thesis
  proof (cases "p = 0")
    case True
    then show ?thesis using aesd_write_enomem [OF assms(2,3), of k count h buf] alloc by blast
  next
    case p: False
    show ?thesis
    proof (rule aesd_write_outcome [OF assms(1-3) c assms(4) alloc p cp], goal_cases)
      case (1 old h')
      show ?case
      proof (cases "scan_str NEWLINE ((old @ bs) @ slack k h' p)")
        case (Inl x)
        then show ?thesis using 1(6) [OF Inl] scan_str_fault [OF Inl] by simp
      next
        case (Inr found)
        then show ?thesis using 1(4,5) by (cases found) blast+
      qed
    qed
  qed
qed

text \<open>Every result keeps the invariant and commits at most one record.\<close>

lemma aesd_write_effect:
  assumes "kernel_ok k" and "dev_inv s" and "opened f" and "unat count \<le> MAX_RW_COUNT"
    and "aesd_write k f buf count s = Inr (v, s')"
  shows "dev_inv s' \<and> (v = - ENOMEM \<or> v \<le> count) \<and>
         (dev_records s' = dev_records s \<or> (\<exists>r. dev_records s' = window (dev_records s @ [r])))"
proof -
  have c: "count \<noteq> 0 \<or> entry_size (pending s) \<noteq> 0"
    using aesd_write_zero [OF assms(1-3), of buf] assms(5) by force
  obtain p h where alloc: "entry_alloc k (kheap s) (pending s) count = (p, h)" by force
  obtain r bs where cp: "copy_from_user k buf count = (r, bs)" by force
  have le: "count - r \<le> count"
    using copy_from_userD(1) [OF assms(1) cp] by (simp add: word_le_nat_alt unat_diff_no_wrap)
  show ?thesis
  proof (cases "p = 0")
    case True
    with write_alloc [OF assms(1,2) c assms(4) alloc] have "h = kheap s" by (auto simp: grown_def)
    then have "v = - ENOMEM" "s' = waiting s (kheap s) ((pending s)\<lparr>buffptr := 0\<rparr>)"
      using aesd_write_enomem [OF assms(2,3), of k count h buf] alloc assms(5) True by simp_all
    then show ?thesis using enomem_inv [OF assms(2)] by (simp add: dev_records_def)
  next
    case False
    show ?thesis
    proof (rule aesd_write_outcome [OF assms(1-3) c assms(4) alloc False cp], goal_cases)
      case (1 old h')
      show ?case
      proof (cases "scan_str NEWLINE ((old @ bs) @ slack k h' p)")
        case (Inl x)
        with 1(6) [OF Inl] assms(5) show ?thesis by simp
      next
        case (Inr found)
        show ?thesis
        proof (cases found)
          case None
          from 1(5) [OF Inr [unfolded None]] assms(5) le show ?thesis by auto
        next
          case (Some n)
          from 1(4) [OF Inr [unfolded Some]] assms(5) le show ?thesis by auto
        qed
      qed
    qed
  qed
qed

end
