(* ===== verification/Driver_Properties.thy ===== *)
theory Driver_Properties
  imports Driver_Write
begin

section \<open>Properties of the character driver\<close>

text \<open>
  The theorems that say what the driver does, each over the abstract view of
  \<open>Driver_Correct\<close>: the records held, the pending bytes and the position of a file. They
  include the behaviours the code does not mean to have: lost and leaked memory, reads past
  a block and a position check on the wrong record.
\<close>

subsection \<open>read\<close>

text \<open>
  Claim C12: \<open>aesd_read\<close> returns a slice of the device's contents. Past the end it returns 0
  and changes nothing. Otherwise it copies the bytes from the file position up to the end of
  the record that holds it, at most \<open>count\<close> of them, and advances the position by the number
  returned; if the copy to user space fails it returns \<open>-EFAULT\<close> and the position stays. The
  device is unchanged and the mutex free again in every case.
\<close>

theorem aesd_read_correct:
  assumes "dev_inv s" and "opened f"
  shows "case locate (map length (dev_records s)) (unat pos) of
      None \<Rightarrow> aesd_read K f buf count pos s = Inr (0, pos, [], s)
    | Some (k, j) \<Rightarrow>
        (let bs = take (min (unat count) (length (dev_records s ! k) - j))
                       (drop (unat pos) (dev_contents s));
             uncopied = copy_to_user K buf bs
         in aesd_read K f buf count pos s =
              (if uncopied \<noteq> 0 then Inr (- EFAULT, pos, take (length bs - unat uncopied) bs, s)
               else Inr (of_nat (length bs), pos + of_nat (length bs), bs, s)))"
proof (cases "locate (map length (dev_records s)) (unat pos)")
  case None
  then have "length (dev_contents s) \<le> unat pos"
    by (simp add: locate_None_iff dev_contents_def length_concat)
  with assms None show ?thesis by (simp add: aesd_read_end)
next
  case (Some kj)
  obtain k j where kj: "kj = (k, j)" by force
  with Some have "locate (map length (dev_records s)) (unat pos) = Some (k, j)" by simp
  from aesd_read_inside(1) [OF assms this, where K = K and buf = buf and count = count]
    aesd_read_inside(2) [OF assms this, where count = count] Some kj
  show ?thesis by (simp add: Let_def del: length_take)
qed

theorem aesd_read_correct_witness:
  "aesd_read (sample_kernel [] []) fresh_file 0 100 1 loaded_state =
     Inr (2, 3, [98, 10], loaded_state)"
  using aesd_read_correct [OF loaded_inv(1) fresh_sel(1), where K = "sample_kernel [] []" and
      buf = 0 and count = 100 and pos = 1]
  by (simp add: sample_kernel_def)

subsection \<open>llseek\<close>

text \<open>
  Claim C17: \<open>aesd_llseek\<close> moves the file to \<open>offset\<close>, \<open>f_pos + offset\<close> or (end of contents) +
  \<open>offset\<close> exactly when that signed position lies between 0 and the number of bytes held,
  and returns it; every other target and every unknown \<open>whence\<close> gives \<open>-EINVAL\<close> and leaves the
  file where it was. The device is unchanged.
\<close>

theorem aesd_llseek_correct:
  assumes "dev_inv s" and "opened f"
  shows "aesd_llseek f offset wh s =
           (case seek_target s f offset wh of
              None \<Rightarrow> Inr (- EINVAL, f, s)
            | Some p \<Rightarrow>
                if 0 \<le> sint p \<and> sint p \<le> int (length (dev_contents s))
                then Inr (p, f\<lparr>f_pos := p\<rparr>, s) else Inr (- EINVAL, f, s))"
proof -
  have "length (dev_contents s) < 2 ^ 63"
    using dev_total_bound [OF assms(1)] by (simp add: length_contents [OF assms(1)])
  note range = word_in_range_iff [OF this]
  show ?thesis
    unfolding aesd_llseek_ok [OF assms] by (simp add: range [symmetric] split: option.split)
qed

theorem aesd_llseek_correct_witness:
  "aesd_llseek fresh_file (- 2) SEEK_END loaded_state = Inr (3, fresh_file\<lparr>f_pos := 3\<rparr>, loaded_state) \<and>
   aesd_llseek fresh_file 6 SEEK_SET loaded_state = Inr (- EINVAL, fresh_file, loaded_state)"
  using aesd_llseek_correct [OF loaded_inv(1) fresh_sel(1), of "- 2" SEEK_END]
    aesd_llseek_correct [OF loaded_inv(1) fresh_sel(1), of 6 SEEK_SET]
  by (simp add: seek_target_def)

subsection \<open>ioctl\<close>

lemma aesd_ioctl_locates:
  assumes "dev_inv s" and "opened f" and "out_offs (circular_buffer (aesd_device s)) = 0"
    and "copy_from_user k arg 8 = (0, seekto_bytes t)"
  shows "if unat (write_cmd t) < length (dev_records s) \<and>
            unat (write_cmd_offset t) < length (dev_records s ! unat (write_cmd t))
         then \<exists>p. aesd_ioctl k f AESDCHAR_IOCSEEKTO arg s = Inr (0, f\<lparr>f_pos := p\<rparr>, s) \<and>
                locate (map length (dev_records s)) (unat p) =
                  Some (unat (write_cmd t), unat (write_cmd_offset t))
         else aesd_ioctl k f AESDCHAR_IOCSEEKTO arg s = Inr (- EINVAL, f, s)"
proof -
  let ?w = "unat (write_cmd t)" and ?o = "unat (write_cmd_offset t)"
  let ?cb = "circular_buffer (aesd_device s)"
  note run = aesd_ioctl_seekto [OF assms(1,2,4)]
  have len: "length (dev_records s) = length (live s)" by (simp add: dev_records_def)
  have sz: "length (dev_records s ! ?w) = esz (live s ! ?w)" if "?w < length (live s)"
    using that arg_cong [OF map_length_records [OF assms(1)], of "\<lambda>xs. xs ! ?w"] len by simp
  have slot: "entry ?cb ! ?w = live s ! ?w" if "?w < length (live s)"
    using entry_slot [OF dev_inv_wf [OF assms(1)] that] that assms(3)
      length_cb_list_le [OF dev_inv_wf [OF assms(1)]] by (simp add: cb_slot_def)
  show ?thesis
  proof (cases "?w < length (live s) \<and> ?o < esz (live s ! ?w)")
    case True
    let ?p = "sum_list (take ?w (map esz (live s))) + ?o"
    from True have loc: "locate (map esz (live s)) ?p = Some (?w, ?o)"
      by (intro locate_prefix) simp_all
    have "?p < cb_total ?cb" using locate_less_total [OF loc] by (simp add: cb_total_def)
    then have "?p < 2 ^ 64" using dev_total_bound [OF assms(1)] by simp
    then have "unat (of_nat ?p :: loff_t) = ?p" by (rule unat_of_nat_64)
    then have "aesd_ioctl k f AESDCHAR_IOCSEEKTO arg s = Inr (0, f\<lparr>f_pos := of_nat ?p\<rparr>, s) \<and>
        locate (map length (dev_records s)) (unat (of_nat ?p :: loff_t)) = Some (?w, ?o)"
      using True run loc slot
      by (simp add: map_length_records [OF assms(1)] not_le del: of_nat_add)
    with True len sz show ?thesis by (auto simp del: of_nat_add)
  next
    case False
    with run len sz slot show ?thesis by (auto simp: not_less)
  qed
qed

text \<open>
  Claim C18: While no record has been dropped (the read cursor is at slot 0), the seek command
  of \<open>aesd_ioctl\<close> positions the file at byte \<open>write_cmd_offset\<close> of record \<open>write_cmd\<close>, and
  returns \<open>-EINVAL\<close> without moving it exactly when there is no such byte.
\<close>

theorem aesd_ioctl_seeks:
  assumes "dev_inv s" and "opened f" and "out_offs (circular_buffer (aesd_device s)) = 0"
    and "copy_from_user k arg 8 = (0, seekto_bytes t)"
  shows "if unat (write_cmd t) < length (dev_records s) \<and>
            unat (write_cmd_offset t) < length (dev_records s ! unat (write_cmd t))
         then \<exists>p. aesd_ioctl k f AESDCHAR_IOCSEEKTO arg s = Inr (0, f\<lparr>f_pos := p\<rparr>, s) \<and>
                locate (map length (dev_records s)) (unat p) =
                  Some (unat (write_cmd t), unat (write_cmd_offset t))
         else aesd_ioctl k f AESDCHAR_IOCSEEKTO arg s = Inr (- EINVAL, f, s)"
  using assms by (rule aesd_ioctl_locates)

lemma sample_seekto:
  "copy_from_user (sample_kernel (seekto_bytes t) sl) arg 8 = (0, seekto_bytes t)"
  by (simp add: sample_kernel_def seekto_bytes_def)

theorem aesd_ioctl_seeks_witness:
  "\<exists>p. aesd_ioctl (sample_kernel (seekto_bytes \<lparr>write_cmd = 1, write_cmd_offset = 1\<rparr>) []) fresh_file
        AESDCHAR_IOCSEEKTO 0 loaded_state = Inr (0, fresh_file\<lparr>f_pos := p\<rparr>, loaded_state) \<and>
      locate (map length (dev_records loaded_state)) (unat p) = Some (1, 1)"
  using aesd_ioctl_seeks [OF loaded_inv(1) fresh_sel(1) loaded_sel(5)
      sample_seekto [where t = "\<lparr>write_cmd = 1, write_cmd_offset = 1\<rparr>" and sl = "[]" and arg = 0]]
  by (simp del: locate.simps)

text \<open>
  Every other request to \<open>aesd_ioctl\<close> is refused without touching the file, the
  device or the mutex: a command word of another type, another number or another size or
  direction gives \<open>-ENOTTY\<close>, and an unreadable argument gives \<open>-EFAULT\<close>.
\<close>

theorem aesd_ioctl_refuses:
  assumes "cmd \<noteq> AESDCHAR_IOCSEEKTO \<or> fst (copy_from_user k arg 8) \<noteq> 0"
  shows "aesd_ioctl k f cmd arg s =
           Inr (if cmd \<noteq> AESDCHAR_IOCSEEKTO then - ENOTTY else - EFAULT, f, s)"
  using assms by (rule aesd_ioctl_refused)

theorem aesd_ioctl_refuses_witness:
  "aesd_ioctl (sample_kernel [] []) fresh_file 0xC0081602 0 loaded_state =
     Inr (- ENOTTY, fresh_file, loaded_state)"
  using aesd_ioctl_refuses [where cmd = "0xC0081602" and k = "sample_kernel [] []" and arg = 0 and
      f = fresh_file and s = loaded_state]
  by (simp add: seekto_cmd_accepted(3))

text \<open>
  A full device whose oldest record sits in slot 1: nine records \<^verbatim>\<open>x\<close> and, newest, the
  record \<^verbatim>\<open>abcd\<close> in slot 0.
\<close>

definition wrapped_state :: kstate where
  "wrapped_state =
     \<lparr>aesd_device = \<lparr>circular_buffer =
         \<lparr>entry = \<lparr>buffptr = 100, entry_size = 5\<rparr> #
                   map (\<lambda>i. \<lparr>buffptr = 200 + i, entry_size = 2\<rparr>) [1..<10],
          in_offs = 1, out_offs = 1, full = True\<rparr>,
        dev_entry = null_entry, mtx = Unlocked\<rparr>,
      kheap = (\<lambda>p. if p = 100 then Some [97, 98, 99, 100, 10]
                   else if 201 \<le> p \<and> p \<le> 209 then Some [120, 10] else None)\<rparr>"

lemma wrapped_live: "live wrapped_state =
    map (\<lambda>i. \<lparr>buffptr = 200 + i, entry_size = 2\<rparr>) [1..<10] @ [\<lparr>buffptr = 100, entry_size = 5\<rparr>]"
  by (simp add: wrapped_state_def cb_list_def rotate_less)

lemma wrapped_sel:
  "kheap wrapped_state = (\<lambda>p. if p = 100 then Some [97, 98, 99, 100, 10]
                   else if 201 \<le> p \<and> p \<le> 209 then Some [120, 10] else None)"
  "mtx (aesd_device wrapped_state) = Unlocked" "pending wrapped_state = null_entry"
  "cb_wf (circular_buffer (aesd_device wrapped_state))"
  by (simp_all add: wrapped_state_def cb_wf_def)

lemma wrapped_inv: "dev_inv wrapped_state"
  "dev_records wrapped_state = replicate 9 [120, 10] @ [[97, 98, 99, 100, 10]]"
proof -
  show "dev_inv wrapped_state" using wrapped_sel(4)
    by (auto simp: dev_inv_def pending_ok_def wrapped_sel wrapped_live entry_ok_def ZERO_SIZE_PTR_def)
  have "map (\<lambda>i. [120, 10] :: u8 list) [1..<10] = replicate 9 [120, 10]"
    by (simp add: map_replicate_const)
  moreover have "map (entry_bytes (kheap wrapped_state)) (live wrapped_state) =
      map (\<lambda>i. [120, 10]) [1..<10] @ [[97, 98, 99, 100, 10]]"
    by (simp add: wrapped_sel wrapped_live entry_bytes_def)
  ultimately show "dev_records wrapped_state = replicate 9 [120, 10] @ [[97, 98, 99, 100, 10]]"
    by (simp only: dev_records_def)
qed

lemma full_slot:
  assumes "cb_wf b" and "full b" and "w < 10"
  shows "entry b ! w = cb_list b ! ((w + 10 - unat (out_offs b)) mod 10)"
proof -
  have o: "unat (out_offs b) < 10" and len: "length (cb_list b) = 10"
    using assms(1,2) length_cb_list [OF assms(1)] by (simp_all add: cb_wf_def)
  have "cb_slot b ((w + 10 - unat (out_offs b)) mod 10) = (unat (out_offs b) + (w + 10 - unat (out_offs b))) mod 10"
    by (simp add: cb_slot_def mod_add_right_eq)
  also have "\<dots> = w" using o assms(3) by simp
  finally show ?thesis
    using entry_slot [OF assms(1), of "(w + 10 - unat (out_offs b)) mod 10"] len by simp
qed

text \<open>
  Claim C38: On a full device the seek command tests the offset against the wrong record. For
  any full device, with its oldest record in array slot \<open>oldest\<close>, a seek to byte \<open>off\<close> of record
  \<open>w\<close> is accepted exactly when \<open>off\<close> lies within record \<open>(w + 10 - oldest) mod 10\<close>, which is
  another one than \<open>w\<close> unless the oldest record is in slot 0; the position is then the start of
  record \<open>w\<close> plus \<open>off\<close>. So bytes that exist are refused when the other record is shorter, and
  positions beyond the record are accepted when it is longer.
\<close>

theorem aesd_ioctl_wrong_record:
  assumes "dev_inv s" and "opened f" and "full (circular_buffer (aesd_device s))"
    and "copy_from_user k arg 8 = (0, seekto_bytes t)"
    and "oldest = unat (out_offs (circular_buffer (aesd_device s)))"
    and "w = unat (write_cmd t)" and "off = unat (write_cmd_offset t)"
  shows "aesd_ioctl k f AESDCHAR_IOCSEEKTO arg s =
      (if w < 10 \<and> off < length (dev_records s ! ((w + 10 - oldest) mod 10))
       then Inr (0, f\<lparr>f_pos := of_nat (sum_list (take w (map length (dev_records s))) + off)\<rparr>, s)
       else Inr (- EINVAL, f, s)) \<and>
    (w < 10 \<and> oldest \<noteq> 0 \<longrightarrow> (w + 10 - oldest) mod 10 \<noteq> w)"
proof -
  let ?cb = "circular_buffer (aesd_device s)"
  note wf = dev_inv_wf [OF assms(1)]
  have len: "length (live s) = 10" and o: "oldest < 10"
    using wf assms(3,5) length_cb_list [OF wf] by (simp_all add: cb_wf_def)
  have sz: "map length (dev_records s) = map esz (live s)" by (rule map_length_records [OF assms(1)])
  have tested: "esz (entry ?cb ! w) = length (dev_records s ! ((w + 10 - oldest) mod 10))" if "w < 10"
    using full_slot [OF wf assms(3) that] arg_cong [OF sz, of "\<lambda>xs. xs ! ((w + 10 - oldest) mod 10)"] len
    by (simp add: assms(5) dev_records_def)
  have "(w + 10 - oldest) mod 10 \<noteq> w" if "w < 10" "oldest \<noteq> 0"
  proof (cases "oldest \<le> w")
    case True
    then have "(w + 10 - oldest) mod 10 = w - oldest" using that o by (simp add: mod_if)
    then show ?thesis using that True by simp
  next
    case False
    then have "(w + 10 - oldest) mod 10 = w + 10 - oldest" by simp
    then show ?thesis using o by simp
  qed
  then show ?thesis
    using aesd_ioctl_seekto [OF assms(1,2,4)] tested len unfolding assms(6,7) [symmetric] sz
    by (auto simp: not_less simp del: of_nat_add)
qed

theorem aesd_ioctl_wrong_record_witness:
  "length (dev_records wrapped_state ! 9) = 5 \<and>
   aesd_ioctl (sample_kernel (seekto_bytes \<lparr>write_cmd = 9, write_cmd_offset = 3\<rparr>) []) fresh_file
     AESDCHAR_IOCSEEKTO 0 wrapped_state = Inr (- EINVAL, fresh_file, wrapped_state) \<and>
   length (dev_records wrapped_state ! 0) = 2 \<and>
   aesd_ioctl (sample_kernel (seekto_bytes \<lparr>write_cmd = 0, write_cmd_offset = 3\<rparr>) []) fresh_file
     AESDCHAR_IOCSEEKTO 0 wrapped_state = Inr (0, fresh_file\<lparr>f_pos := 3\<rparr>, wrapped_state) \<and>
   locate (map length (dev_records wrapped_state)) 3 = Some (1, 1)"
proof -
  have cb: "full (circular_buffer (aesd_device wrapped_state))"
    "1 = unat (out_offs (circular_buffer (aesd_device wrapped_state)))"
    by (simp_all add: wrapped_state_def)
  note run = aesd_ioctl_wrong_record [OF wrapped_inv(1) fresh_sel(1) cb(1)
      sample_seekto [where arg = 0 and sl = "[]"] cb(2) refl refl]
  have "aesd_ioctl (sample_kernel (seekto_bytes \<lparr>write_cmd = 9, write_cmd_offset = 3\<rparr>) []) fresh_file
     AESDCHAR_IOCSEEKTO 0 wrapped_state = Inr (- EINVAL, fresh_file, wrapped_state)"
    using run [of "\<lparr>write_cmd = 9, write_cmd_offset = 3\<rparr>"] by (simp add: wrapped_inv(2) nth_append)
  moreover have "aesd_ioctl (sample_kernel (seekto_bytes \<lparr>write_cmd = 0, write_cmd_offset = 3\<rparr>) [])
     fresh_file AESDCHAR_IOCSEEKTO 0 wrapped_state = Inr (0, fresh_file\<lparr>f_pos := 3\<rparr>, wrapped_state)"
    using run [of "\<lparr>write_cmd = 0, write_cmd_offset = 3\<rparr>"] by (simp add: wrapped_inv(2) nth_append)
  moreover have "locate (map length (dev_records wrapped_state)) 3 = Some (1, 1)"
    by (simp add: wrapped_inv numeral_eq_Suc)
  ultimately show ?thesis using wrapped_inv by (simp add: nth_append)
qed

subsection \<open>write\<close>

text \<open>
  Claim C11: A write whose bytes complete a line commits it. If memory is available, all
  \<open>count\<close> bytes can be copied and the pending bytes followed by the new ones hold a newline
  with no NUL before it, then \<open>aesd_write\<close> returns \<open>count\<close>, the device holds the last ten of
  its records followed by the new record (the pending bytes and all new bytes, what follows
  the newline included), nothing is pending any more, and the invariant is kept.
\<close>

theorem aesd_write_commits:
  assumes "kernel_ok k" and "dev_inv s" and "opened f"
    and "count \<noteq> 0" and "unat count \<le> MAX_RW_COUNT"
    and "fst (entry_alloc k (kheap s) (pending s) count) \<noteq> 0"
    and "copy_from_user k buf count = (0, bs)"
    and "entry_size (pending s) = 0 \<or> buffptr (pending s) \<noteq> 0"
    and "pending_bytes s @ bs = xs @ NEWLINE # ys" and "NEWLINE \<notin> set xs" and "0 \<notin> set xs"
  shows "\<exists>s'. aesd_write k f buf count s = Inr (count, s') \<and> dev_inv s' \<and>
           dev_records s' = window (dev_records s @ [pending_bytes s @ bs]) \<and>
           pending_bytes s' = []"
  using aesd_write_commit [OF assms] pending_null by blast

lemma sample_copy: "length bs = unat n \<Longrightarrow> copy_from_user (sample_kernel bs sl) u n = (0, bs)"
  by (simp add: sample_kernel_def)

lemma sample_alloc_fresh:
  "entry_alloc (sample_kernel bs sl) Map.empty null_entry 3 = (100, [100 \<mapsto> replicate 3 0])"
  by (simp add: entry_alloc_def sample_kernel_def sample_kzalloc_def sample_addrs_def sample_max_def)

theorem aesd_write_commits_witness:
  "\<exists>s'. aesd_write (sample_kernel [104, 105, 10] []) fresh_file 0 3 fresh_state = Inr (3, s') \<and>
        dev_inv s' \<and> dev_records s' = [[104, 105, 10]] \<and> pending_bytes s' = []"
  using aesd_write_commits [OF sample_kernel_ok [where bs = "[104, 105, 10]" and sl = "[]"] fresh_inv(1)
      fresh_sel(1), where count = 3 and buf = 0 and bs = "[104, 105, 10]" and xs = "[104, 105]" and ys = "[]"]
  by (simp add: MAX_RW_COUNT_def sample_alloc_fresh sample_copy NEWLINE_def window_def)

text \<open>
  Claim C28: What happens to a write without a newline depends on the memory behind its block.
  If the pending bytes and the new ones hold neither a newline nor a NUL, memory is available
  and all bytes can be copied, then: when a NUL comes first behind the block, \<open>aesd_write\<close> returns
  \<open>count\<close>, keeps the records and appends the new bytes to the pending ones; when a newline comes
  first, it commits the unfinished line as a record; when neither comes, it reads out of bounds.
\<close>

theorem aesd_write_accumulates:
  assumes "kernel_ok k" and "dev_inv s" and "opened f"
    and "count \<noteq> 0" and "unat count \<le> MAX_RW_COUNT"
    and "entry_alloc k (kheap s) (pending s) count = (p, h)" and "p \<noteq> 0"
    and "copy_from_user k buf count = (0, bs)"
    and "entry_size (pending s) = 0 \<or> buffptr (pending s) \<noteq> 0"
    and "NEWLINE \<notin> set (pending_bytes s @ bs)" and "0 \<notin> set (pending_bytes s @ bs)"
  shows "case scan_str NEWLINE (slack k (h(p \<mapsto> pending_bytes s @ bs)) p) of
      Inr None \<Rightarrow> \<exists>s'. aesd_write k f buf count s = Inr (count, s') \<and> dev_inv s' \<and>
        dev_records s' = dev_records s \<and> pending_bytes s' = pending_bytes s @ bs \<and> buffptr (pending s') \<noteq> 0
    | Inr (Some n) \<Rightarrow> \<exists>s'. aesd_write k f buf count s = Inr (count, s') \<and> dev_inv s' \<and>
        dev_records s' = window (dev_records s @ [pending_bytes s @ bs]) \<and> pending s' = null_entry
    | Inl x \<Rightarrow> aesd_write k f buf count s = Inl OutOfBounds"
  using assms by (rule aesd_write_unfinished)

theorem aesd_write_accumulates_witness:
  "(\<exists>s'. aesd_write (sample_kernel [104, 105, 33] [0]) fresh_file 0 3 fresh_state = Inr (3, s') \<and>
        dev_inv s' \<and> dev_records s' = [] \<and> pending_bytes s' = [104, 105, 33]) \<and>
   (\<exists>s'. aesd_write (sample_kernel [104, 105, 33] [10]) fresh_file 0 3 fresh_state = Inr (3, s') \<and>
        dev_records s' = [[104, 105, 33]])"
proof -
  let ?k = "\<lambda>sl. sample_kernel [104, 105, 33] sl"
  have sl: "slack (?k sl) h p = sl" for sl h p by (simp add: sample_kernel_def)
  have run: "entry_alloc (?k sl) (kheap fresh_state) (pending fresh_state) 3 = (100, [100 \<mapsto> replicate 3 0])" for sl
    using sample_alloc_fresh by simp
  show ?thesis
    using aesd_write_accumulates [OF sample_kernel_ok [where bs = "[104, 105, 33]" and sl = "[0]"]
        fresh_inv(1) fresh_sel(1) _ _ run, where buf = 0 and bs = "[104, 105, 33]"]
      aesd_write_accumulates [OF sample_kernel_ok [where bs = "[104, 105, 33]" and sl = "[10]"]
        fresh_inv(1) fresh_sel(1) _ _ run, where buf = 0 and bs = "[104, 105, 33]"]
    by (simp add: MAX_RW_COUNT_def sample_copy NEWLINE_def sl window_def) blast
qed



text \<open>
  A NUL byte hides the newlines behind it. If the pending bytes and the new ones
  reach a NUL before any newline, the line is not committed, whatever follows the NUL.
\<close>

theorem aesd_write_nul_hides_newline:
  assumes "kernel_ok k" and "dev_inv s" and "opened f"
    and "count \<noteq> 0" and "unat count \<le> MAX_RW_COUNT"
    and "fst (entry_alloc k (kheap s) (pending s) count) \<noteq> 0"
    and "copy_from_user k buf count = (0, bs)"
    and "entry_size (pending s) = 0 \<or> buffptr (pending s) \<noteq> 0"
    and "pending_bytes s @ bs = xs @ 0 # ys" and "NEWLINE \<notin> set xs" and "0 \<notin> set xs"
  shows "\<exists>s'. aesd_write k f buf count s = Inr (count, s') \<and> dev_inv s' \<and>
           dev_records s' = dev_records s \<and> pending_bytes s' = pending_bytes s @ bs"
proof (rule aesd_write_full_copy [OF assms(1-8)])
  fix h' p
  assume wait: "scan_str NEWLINE ((pending_bytes s @ bs) @ slack k h' p) = Inr None \<Longrightarrow>
       \<exists>s'. aesd_write k f buf count s = Inr (count, s') \<and> dev_inv s' \<and> kheap s' = h' \<and>
         dev_records s' = dev_records s \<and> pending_bytes s' = pending_bytes s @ bs"
  have "scan_str NEWLINE (xs @ 0 # ys @ slack k h' p) = Inr None"
    using assms(10,11) by (intro scan_str_terminated) (simp_all add: NEWLINE_def)
  then have "scan_str NEWLINE ((pending_bytes s @ bs) @ slack k h' p) = Inr None"
    by (simp only: assms(9) append_assoc append_Cons)
  from wait [OF this] show ?thesis by blast
qed

theorem aesd_write_nul_hides_newline_witness:
  "\<exists>s'. aesd_write (sample_kernel [104, 0, 10] []) fresh_file 0 3 fresh_state = Inr (3, s') \<and>
        dev_inv s' \<and> dev_records s' = [] \<and> pending_bytes s' = [104, 0, 10]"
  using aesd_write_nul_hides_newline [OF sample_kernel_ok [where bs = "[104, 0, 10]" and sl = "[]"]
      fresh_inv(1) fresh_sel(1), where count = 3 and buf = 0 and bs = "[104, 0, 10]" and
      xs = "[104]" and ys = "[10]"]
  by (simp add: MAX_RW_COUNT_def sample_alloc_fresh sample_copy NEWLINE_def)

text \<open>
  Claim C35: A write that finds no memory returns \<open>-ENOMEM\<close> and keeps every record, but loses
  what was pending: the entry keeps its size and its pointer becomes null, while the old
  block stays allocated with no pointer to it left.
\<close>

theorem aesd_write_enomem_loses_pending:
  assumes "kernel_ok k" and "dev_inv s" and "opened f" and "unat count \<le> MAX_RW_COUNT"
    and "entry_size (pending s) \<noteq> 0" and "buffptr (pending s) \<noteq> 0"
    and "fst (entry_alloc k (kheap s) (pending s) count) = 0"
  shows "\<exists>s'. aesd_write k f buf count s = Inr (- ENOMEM, s') \<and> dev_inv s' \<and>
           dev_records s' = dev_records s \<and> pending s' = (pending s)\<lparr>buffptr := 0\<rparr> \<and>
           kheap s' (buffptr (pending s)) \<noteq> None \<and>
           buffptr (pending s) \<notin> insert (buffptr (pending s')) (buffptr ` set (live s'))"
proof -
  obtain h where alloc: "entry_alloc k (kheap s) (pending s) count = (0, h)"
    using assms(7) by (metis prod.collapse)
  from write_alloc [OF assms(1,2) _ assms(4) alloc] assms(5) have h: "h = kheap s"
    by (auto simp: grown_def)
  have po: "kheap s (buffptr (pending s)) \<noteq> None" "buffptr (pending s) \<notin> buffptr ` set (live s)"
    using assms(2,5,6) by (auto simp: dev_inv_def pending_ok_def entry_ok_def split: option.splits)
  let ?s = "waiting s (kheap s) ((pending s)\<lparr>buffptr := 0\<rparr>)"
  have "aesd_write k f buf count s = Inr (- ENOMEM, ?s)"
    using aesd_write_enomem [OF assms(2,3) alloc] h by simp
  moreover have "dev_inv ?s" by (rule enomem_inv [OF assms(2)])
  moreover have "dev_records ?s = dev_records s" by (simp add: dev_records_def)
  ultimately show ?thesis using po assms(6) by (intro exI [of _ ?s]) simp
qed

theorem aesd_write_enomem_loses_pending_witness:
  "\<exists>s'. aesd_write (sample_kernel [] []) fresh_file 0 2000 partial_state = Inr (- ENOMEM, s') \<and>
        dev_inv s' \<and> pending s' = \<lparr>buffptr = 0, entry_size = 2\<rparr> \<and> kheap s' 100 \<noteq> None"
proof -
  have "entry_alloc (sample_kernel [] []) (kheap partial_state) (pending partial_state) 2000 =
      (0, kheap partial_state)"
    by (simp add: entry_alloc_def sample_kernel_def sample_krealloc_def sample_max_def)
  then show ?thesis
    using aesd_write_enomem_loses_pending [OF sample_kernel_ok [where bs = "[]" and sl = "[]"]
        partial_inv(1) fresh_sel(1), where count = 2000 and buf = 0]
    by (auto simp: MAX_RW_COUNT_def)
qed

text \<open>
  Claim C13: The driver's invariant is kept by every write the VFS can issue, with any outcome
  of the allocation and any short copy: the buffer stays well-formed, every entry keeps a
  live block of its size and the mutex is released. A successful call changes the records
  only by committing one more, and reports \<open>-ENOMEM\<close> or at most \<open>count\<close> bytes.
\<close>

theorem aesd_write_invariant:
  assumes "kernel_ok k" and "dev_inv s" and "opened f" and "unat count \<le> MAX_RW_COUNT"
    and "aesd_write k f buf count s = Inr (v, s')"
  shows "dev_inv s' \<and> (v = - ENOMEM \<or> v \<le> count) \<and>
         (dev_records s' = dev_records s \<or> (\<exists>r. dev_records s' = window (dev_records s @ [r])))"
  using assms by (rule aesd_write_effect)

theorem aesd_write_invariant_witness:
  "\<exists>s'. aesd_write (sample_kernel [104, 105, 10] []) fresh_file 0 3 fresh_state = Inr (3, s') \<and>
        dev_inv s'"
proof -
  let ?k = "sample_kernel [104, 105, 10] []"
  have "\<exists>s'. aesd_write ?k fresh_file 0 3 fresh_state = Inr (3, s')"
    by (rule aesd_write_full_copy [OF sample_kernel_ok [where bs = "[104, 105, 10]" and sl = "[]"]
          fresh_inv(1) fresh_sel(1), where count = 3 and buf = 0 and bs = "[104, 105, 10]"])
      (simp_all add: MAX_RW_COUNT_def sample_alloc_fresh sample_copy NEWLINE_def, auto)
  then obtain s' where s': "aesd_write ?k fresh_file 0 3 fresh_state = Inr (3, s')" ..
  with aesd_write_invariant [OF sample_kernel_ok fresh_inv(1) fresh_sel(1) _ s'] show ?thesis
    by (simp add: MAX_RW_COUNT_def)
qed

text \<open>
  Claim C37: Dropped records are never freed. When ten records are held and a write commits
  another, the oldest record leaves the buffer but its block stays allocated as it was,
  although no entry of the device points to it any more (the entries having blocks of their
  own).
\<close>

theorem aesd_write_leaks_evicted:
  assumes "kernel_ok k" and "dev_inv s" and "opened f" and "unat count \<le> MAX_RW_COUNT"
    and "length (live s) = AESDCHAR_MAX_WRITE_OPERATIONS_SUPPORTED"
    and "distinct (map buffptr (live s))"
    and "aesd_write k f buf count s = Inr (v, s')" and "pending s' = null_entry"
    and "v \<noteq> - ENOMEM"
  shows "kheap s' (buffptr (hd (live s))) = kheap s (buffptr (hd (live s))) \<and>
         kheap s' (buffptr (hd (live s))) \<noteq> None \<and>
         buffptr (hd (live s)) \<notin> insert (buffptr (pending s')) (buffptr ` set (live s'))"
proof -
  let ?q = "hd (live s)"
  have c: "count \<noteq> 0 \<or> entry_size (pending s) \<noteq> 0"
    using aesd_write_zero [OF assms(1-3), of buf] assms(7) by force
  obtain p h where alloc: "entry_alloc k (kheap s) (pending s) count = (p, h)" by force
  obtain r bs where cp: "copy_from_user k buf count = (r, bs)" by force
  have q: "?q \<in> set (live s)" "live s = ?q # tl (live s)" using assms(5) by (cases "live s"; simp)+
  then have qo: "kheap s (buffptr ?q) \<noteq> None" "buffptr ?q \<noteq> 0"
    using assms(2) by (auto simp: dev_inv_def entry_ok_def split: option.splits)
  have nt: "buffptr ?q \<notin> buffptr ` set (tl (live s))"
    using assms(6) q(2) by (metis distinct.simps(2) list.set_map list.simps(9))
  have p: "p \<noteq> 0" using aesd_write_enomem [OF assms(2,3), of k count h buf] alloc assms(7,9) by auto
  show ?thesis
  proof (rule aesd_write_outcome [OF assms(1-3) c assms(4) alloc p cp], goal_cases)
    case (1 old h')
    show ?case
    proof (cases "scan_str NEWLINE ((old @ bs) @ slack k h' p)")
      case (Inl x)
      with 1(6) [OF Inl] assms(7) show ?thesis by simp
    next
      case (Inr found)
      show ?thesis
      proof (cases found)
        case None
        from 1(5) [OF Inr [unfolded None]] assms(7) have "buffptr (pending s') = p" by auto
        with assms(8) p show ?thesis by simp
      next
        case (Some n)
        from 1(4) [OF Inr [unfolded Some]] assms(7) obtain e' where
          e': "buffptr e' = p" "live s' = window (live s @ [e'])" and h': "kheap s' = h'" by auto
        have "live s' = tl (live s) @ [e']" using e'(2) window_snoc_full [OF assms(5)] by simp
        with 1(3) [OF q(1)] e'(1) h' nt qo assms(8) show ?thesis by auto
      qed
    qed
  qed
qed

theorem aesd_write_leaks_evicted_witness:
  "\<exists>s'. aesd_write (sample_kernel [104, 105, 10] []) fresh_file 0 3 wrapped_state = Inr (3, s') \<and>
        kheap s' 201 = Some [120, 10] \<and>
        201 \<notin> insert (buffptr (pending s')) (buffptr ` set (live s'))"
proof -
  let ?k = "sample_kernel [104, 105, 10] []"
  have hd: "buffptr (hd (live wrapped_state)) = 201" and len: "length (live wrapped_state) = 10"
    and dist: "distinct (map buffptr (live wrapped_state))"
    by (auto simp: wrapped_live upt_rec)
  have alloc: "fst (entry_alloc ?k (kheap wrapped_state) (pending wrapped_state) 3) \<noteq> 0"
    by (simp add: entry_alloc_def sample_kernel_def sample_kzalloc_def sample_addrs_def sample_max_def
        wrapped_sel)
  obtain s' where w: "aesd_write ?k fresh_file 0 3 wrapped_state = Inr (3, s')" "pending s' = null_entry"
    by (rule aesd_write_full_copy [OF sample_kernel_ok [where bs = "[104, 105, 10]" and sl = "[]"]
          wrapped_inv(1) fresh_sel(1), where count = 3 and buf = 0 and bs = "[104, 105, 10]"])
      (use alloc in \<open>simp_all add: MAX_RW_COUNT_def sample_copy NEWLINE_def wrapped_sel pending_null\<close>,
        auto)
  have "(3 :: 64 word) \<noteq> - ENOMEM" by (simp add: ENOMEM_def)
  with aesd_write_leaks_evicted [OF sample_kernel_ok wrapped_inv(1) fresh_sel(1) _ _ dist w]
  show ?thesis using w(1) hd len by (auto simp: MAX_RW_COUNT_def wrapped_sel)
qed

text \<open>
  Writing zero bytes to a device with nothing pending faults: the allocation of no
  bytes succeeds with a pointer that may not be dereferenced, and the newline test
  dereferences it.
\<close>

theorem aesd_write_zero_faults:
  assumes "kernel_ok k" and "dev_inv s" and "opened f" and "entry_size (pending s) = 0"
  shows "aesd_write k f buf 0 s = Inl BadPointer"
  using assms by (rule aesd_write_zero)

theorem aesd_write_zero_faults_witness:
  "aesd_write (sample_kernel [] []) fresh_file 0 0 fresh_state = Inl BadPointer"
  by (rule aesd_write_zero_faults [OF sample_kernel_ok fresh_inv(1) fresh_sel(1)]) simp

subsection \<open>Locking\<close>

text \<open>
  Claim C25: Every handler releases the device mutex on every path that returns, early returns
  and error codes included, whatever the state of the buffer and the answers of the kernel.
\<close>

theorem handlers_release_mutex:
  assumes "mtx (aesd_device s) = Unlocked"
  shows "(aesd_read k f buf count pos s = Inr (v, pos', bs, s1) \<longrightarrow> mtx (aesd_device s1) = Unlocked) \<and>
         (aesd_write k f buf count s = Inr (w, s2) \<longrightarrow> mtx (aesd_device s2) = Unlocked) \<and>
         (aesd_llseek f offset wh s = Inr (p, f3, s3) \<longrightarrow> mtx (aesd_device s3) = Unlocked) \<and>
         (aesd_ioctl k f cmd arg s = Inr (r, f4, s4) \<longrightarrow> mtx (aesd_device s4) = Unlocked)"
proof -
  have u: "mtx (aesd_device (mutex_unlock t)) = Unlocked" for t by (simp add: mutex_unlock_def)
  have "aesd_read k f buf count pos s = Inr (v, pos', bs, s1) \<Longrightarrow> mtx (aesd_device s1) = Unlocked"
    by (auto simp: aesd_read_def Let_def u split: option.splits prod.splits if_splits)
  moreover have "aesd_write k f buf count s = Inr (w, s2) \<Longrightarrow> mtx (aesd_device s2) = Unlocked"
    by (auto simp: aesd_write_def Let_def u split: option.splits prod.splits if_splits)
  moreover have "aesd_llseek f offset wh s = Inr (p, f3, s3) \<Longrightarrow> mtx (aesd_device s3) = Unlocked"
    by (auto simp: aesd_llseek_def Let_def u split: option.splits if_splits)
  moreover have "aesd_ioctl k f cmd arg s = Inr (r, f4, s4) \<Longrightarrow> mtx (aesd_device s4) = Unlocked"
    using assms by (auto simp: aesd_ioctl_def Let_def u split: prod.splits if_splits)
  ultimately show ?thesis by blast
qed

theorem handlers_release_mutex_witness:
  "\<exists>s'. aesd_read (sample_kernel [] []) fresh_file 0 1 0 fresh_state = Inr (0, 0, [], s') \<and>
        mtx (aesd_device s') = Unlocked"
proof -
  have "aesd_read (sample_kernel [] []) fresh_file 0 1 0 fresh_state = Inr (0, 0, [], fresh_state)"
    by (rule aesd_read_end) (simp_all add: dev_contents_def)
  with handlers_release_mutex [OF fresh_sel(5), of "sample_kernel [] []" fresh_file 0 1 0]
  show ?thesis by blast
qed

text \<open>
  Claim C16: Transfers stay within the request. In any state, whatever the kernel's allocator
  does, a read either fails with \<open>-EFAULT\<close> and leaves the position, or returns at most
  \<open>count\<close>, has stored exactly that many bytes and has advanced the position by them; a write
  returns \<open>-ENOMEM\<close> or at most \<open>count\<close>.
\<close>

theorem transfer_bounds:
  assumes "copy_ok k"
  shows "(aesd_read k f buf count pos s = Inr (r, pos', bs, s1) \<longrightarrow>
           r = - EFAULT \<and> pos' = pos \<or> r \<le> count \<and> pos' = pos + r \<and> length bs = unat r) \<and>
         (aesd_write k f buf count s = Inr (w, s2) \<longrightarrow> w = - ENOMEM \<or> w \<le> count)"
proof -
  have "r = - EFAULT \<and> pos' = pos \<or> r \<le> count \<and> pos' = pos + r \<and> length bs = unat r"
    if "aesd_read k f buf count pos s = Inr (r, pos', bs, s1)"
    using that
    by (auto simp: aesd_read_def load_bytes_def Let_def not_less split: option.splits prod.splits if_splits)
  moreover have "fst (copy_from_user k buf count) \<le> count"
    using assms by (simp add: copy_ok_def split: prod.splits) (metis prod.collapse)
  then have "w = - ENOMEM \<or> w \<le> count" if "aesd_write k f buf count s = Inr (w, s2)"
    using that word_sub_le [of "fst (copy_from_user k buf count)" count]
    by (auto simp: aesd_write_def Let_def split: option.splits prod.splits if_splits)
  ultimately show ?thesis by blast
qed

theorem transfer_bounds_witness:
  "\<exists>r pos' bs s'. aesd_read (sample_kernel [] []) fresh_file 0 2 1 loaded_state = Inr (r, pos', bs, s') \<and>
     r \<le> 2 \<and> pos' = 1 + r \<and> length bs = unat r"
proof -
  have "copy_ok (sample_kernel [] [])" using sample_kernel_ok by (simp add: kernel_ok_def)
  moreover have "isl (aesd_read (sample_kernel [] []) fresh_file 0 2 1 loaded_state) = False"
    "fst (projr (aesd_read (sample_kernel [] []) fresh_file 0 2 1 loaded_state)) \<noteq> - EFAULT"
    by code_simp+
  moreover obtain r pos' bs s' where
    "aesd_read (sample_kernel [] []) fresh_file 0 2 1 loaded_state = Inr (r, pos', bs, s')"
    using calculation(2) by (metis isl_def old.sum.exhaust prod.exhaust)
  ultimately show ?thesis
    using transfer_bounds [of "sample_kernel [] []" fresh_file 0 2 1 loaded_state r pos' bs s'] by auto
qed

end
