(* ===== verification/Device_Runs.thy ===== *)
theory Device_Runs
  imports Driver_Properties
begin

section \<open>Many files, many calls\<close>

text \<open>
  The driver under the calls of any number of open files, in any order. Each handler holds
  the device mutex for all it does to the device, so one call is one step of the relation
  \<open>sys_step\<close>, through the driver's table of file operations; the kernel's answers may differ from call to call. The VFS passes the file's own
  position to \<open>read\<close> and stores the new one back. The theory shows what holds in every
  reachable state and that lines written are read back in order.
\<close>

subsection \<open>Steps\<close>

record system =
  sys_state :: kstate
  files :: "nat \<rightharpoonup> open_file"

definition new_file :: open_file where
  "new_file = \<lparr>private_data = None, f_pos = 0\<rparr>"

definition sys_init :: system where
  "sys_init = \<lparr>sys_state = fresh_state, files = Map.empty\<rparr>"

inductive sys_step :: "system \<Rightarrow> system \<Rightarrow> bool" where
  step_open: "files S fd = None \<Longrightarrow> fop_open aesd_fops ino new_file = (r, f) \<Longrightarrow>
     sys_step S (S\<lparr>files := (files S)(fd \<mapsto> f)\<rparr>)"
| step_release: "files S fd = Some f \<Longrightarrow> fop_release aesd_fops ino f = (r, f') \<Longrightarrow>
     sys_step S (S\<lparr>files := (files S)(fd := None)\<rparr>)"
| step_read: "files S fd = Some f \<Longrightarrow> kernel_ok k \<Longrightarrow> unat count \<le> MAX_RW_COUNT \<Longrightarrow>
     fop_read aesd_fops k f buf count (f_pos f) (sys_state S) = Inr (v, pos, bs, s) \<Longrightarrow>
     sys_step S (S\<lparr>sys_state := s, files := (files S)(fd \<mapsto> f\<lparr>f_pos := pos\<rparr>)\<rparr>)"
| step_write: "files S fd = Some f \<Longrightarrow> kernel_ok k \<Longrightarrow> unat count \<le> MAX_RW_COUNT \<Longrightarrow>
     fop_write aesd_fops k f buf count (sys_state S) = Inr (v, s) \<Longrightarrow>
     sys_step S (S\<lparr>sys_state := s\<rparr>)"
| step_llseek: "files S fd = Some f \<Longrightarrow>
     fop_llseek aesd_fops f offset wh (sys_state S) = Inr (v, f', s) \<Longrightarrow>
     sys_step S (S\<lparr>sys_state := s, files := (files S)(fd \<mapsto> f')\<rparr>)"
| step_ioctl: "files S fd = Some f \<Longrightarrow> kernel_ok k \<Longrightarrow>
     fop_unlocked_ioctl aesd_fops k f cmd arg (sys_state S) = Inr (v, f', s) \<Longrightarrow>
     sys_step S (S\<lparr>sys_state := s, files := (files S)(fd \<mapsto> f')\<rparr>)"

text \<open>The rules with the handlers the table names.\<close>

lemmas sys_step_handlers [consumes 1, case_names step_open step_release step_read step_write step_llseek step_ioctl] =
  sys_step.induct [unfolded aesd_fops_sel]

inductive reachable :: "system \<Rightarrow> bool" where
  reach_init: "reachable sys_init"
| reach_step: "reachable S \<Longrightarrow> sys_step S T \<Longrightarrow> reachable T"

definition sys_inv :: "system \<Rightarrow> bool" where
  "sys_inv S \<longleftrightarrow> dev_inv (sys_state S) \<and> (\<forall>fd f. files S fd = Some f \<longrightarrow> opened f)"

subsection \<open>The handlers under the invariant\<close>

lemma aesd_read_returns:
  assumes "dev_inv s" and "opened f"
  shows "\<exists>v pos' bs. aesd_read k f buf count pos s = Inr (v, pos', bs, s)"
proof (cases "locate (map length (dev_records s)) (unat pos)")
  case None
  then have "length (dev_contents s) \<le> unat pos"
    by (simp add: locate_None_iff dev_contents_def length_concat)
  with aesd_read_end [OF assms] show ?thesis by blast
next
  case (Some kj)
  then obtain i j where "locate (map length (dev_records s)) (unat pos) = Some (i, j)" by force
  from aesd_read_inside(1) [OF assms this] show ?thesis by (metis (full_types))
qed

lemma aesd_llseek_returns:
  assumes "dev_inv s" and "opened f"
  shows "\<exists>v p. aesd_llseek f offset wh s = Inr (v, f, s) \<or> aesd_llseek f offset wh s = Inr (v, f\<lparr>f_pos := p\<rparr>, s)"
  unfolding aesd_llseek_ok [OF assms] by (auto split: option.split)

lemma aesd_ioctl_returns:
  assumes "dev_inv s" and "opened f"
  shows "\<exists>v p. aesd_ioctl k f cmd arg s = Inr (v, f, s) \<or> aesd_ioctl k f cmd arg s = Inr (v, f\<lparr>f_pos := p\<rparr>, s)"
proof (cases "cmd \<noteq> AESDCHAR_IOCSEEKTO \<or> fst (copy_from_user k arg 8) \<noteq> 0")
  case True
  then show ?thesis using aesd_ioctl_refused by blast
next
  case False
  then obtain bs where cmd: "cmd = AESDCHAR_IOCSEEKTO" and cp: "copy_from_user k arg 8 = (0, bs)"
    by (metis prod.collapse)
  show ?thesis unfolding cmd aesd_ioctl_seekto_raw [OF assms cp] by (auto split: if_split)
qed

subsection \<open>Every reachable state\<close>

lemma sys_step_inv: "sys_step S T \<Longrightarrow> sys_inv S \<Longrightarrow> sys_inv T"
proof (induction rule: sys_step_handlers)
  case (step_open S fd ino r f)
  then have "opened f" by (cases "i_cdev ino") (auto simp: aesd_open_def)
  then show ?case using step_open by (simp add: sys_inv_def)
next
  case (step_release S fd f ino r f')
  then show ?case by (simp add: sys_inv_def)
next
  case (step_read S fd f k count buf v pos bs s)
  then have "dev_inv (sys_state S)" "opened f" by (auto simp: sys_inv_def)
  with aesd_read_returns [OF this, of k buf count "f_pos f"] step_read
  show ?case by (auto simp: sys_inv_def)
next
  case (step_write S fd f k count buf v s)
  then have "dev_inv (sys_state S)" "opened f" by (auto simp: sys_inv_def)
  with aesd_write_effect [OF step_write(2) this step_write(3,4)] step_write
  show ?case by (simp add: sys_inv_def)
next
  case (step_llseek S fd f offset wh v f' s)
  then have "dev_inv (sys_state S)" "opened f" by (auto simp: sys_inv_def)
  with aesd_llseek_returns [OF this, of offset wh] step_llseek show ?case by (auto simp: sys_inv_def)
next
  case (step_ioctl S fd f k cmd arg v f' s)
  then have "dev_inv (sys_state S)" "opened f" by (auto simp: sys_inv_def)
  with aesd_ioctl_returns [OF this, of k cmd arg] step_ioctl show ?case by (auto simp: sys_inv_def)
qed

lemma reachable_sys_inv: "reachable S \<Longrightarrow> sys_inv S"
proof (induction rule: reachable.induct)
  case reach_init
  show ?case by (simp add: sys_init_def sys_inv_def)
next
  case (reach_step S T)
  then show ?case by (blast intro: sys_step_inv)
qed

text \<open>
  Claim C5: In every state the driver can reach, through any interleaving of calls on any
  number of files and with any answers of the kernel, the circular buffer is well-formed, it
  holds at most ten records, each with a live block of its size, and the mutex is free.
\<close>

theorem reachable_invariant:
  assumes "reachable S"
  shows "dev_inv (sys_state S) \<and> length (dev_records (sys_state S)) \<le> 10 \<and>
         mtx (aesd_device (sys_state S)) = Unlocked"
  using reachable_sys_inv [OF assms] length_cb_list_le [OF dev_inv_wf]
  by (auto simp: sys_inv_def dev_records_def dev_inv_def)

definition one_file :: system where
  "one_file = \<lparr>sys_state = fresh_state, files = [7 \<mapsto> fresh_file]\<rparr>"

lemma one_file_reachable: "reachable one_file"
proof -
  have "sys_step sys_init (sys_init\<lparr>files := (files sys_init)(7 \<mapsto> fresh_file)\<rparr>)"
    by (rule step_open [where ino = "\<lparr>i_cdev = Aesd_device\<rparr>" and r = 0])
      (simp_all add: sys_init_def aesd_open_def new_file_def fresh_file_def)
  then show ?thesis
    using reach_step [OF reach_init] by (simp add: sys_init_def one_file_def)
qed

theorem reachable_invariant_witness:
  "dev_inv (sys_state one_file) \<and> length (dev_records (sys_state one_file)) \<le> 10 \<and>
   mtx (aesd_device (sys_state one_file)) = Unlocked"
  by (rule reachable_invariant [OF one_file_reachable])

text \<open>
  Claim C20: In every reachable state, a read, a seek and an ioctl on an open file return (no
  fault, no deadlock) and leave the device unchanged, and a write returns or faults only in
  its newline test: past the end of the block, after it got memory and copied bytes with neither
  a newline nor a NUL among them, or on a zero-byte write with nothing pending.
\<close>

theorem reachable_calls_return:
  assumes "reachable S" and "files S fd = Some f" and "kernel_ok k" and "unat count \<le> MAX_RW_COUNT"
  shows "(\<exists>v pos' bs. aesd_read k f buf count pos (sys_state S) = Inr (v, pos', bs, sys_state S)) \<and>
         (\<exists>v f'. aesd_llseek f offset wh (sys_state S) = Inr (v, f', sys_state S)) \<and>
         (\<exists>v f'. aesd_ioctl k f cmd arg (sys_state S) = Inr (v, f', sys_state S)) \<and>
         ((\<exists>v s'. aesd_write k f buf count (sys_state S) = Inr (v, s')) \<or>
          aesd_write k f buf count (sys_state S) = Inl OutOfBounds \<and>
            fst (entry_alloc k (kheap (sys_state S)) (pending (sys_state S)) count) \<noteq> 0 \<and>
            NEWLINE \<notin> set (snd (copy_from_user k buf count)) \<and> 0 \<notin> set (snd (copy_from_user k buf count)) \<or>
          count = 0 \<and> entry_size (pending (sys_state S)) = 0 \<and>
          aesd_write k f buf count (sys_state S) = Inl BadPointer)"
proof -
  have i: "dev_inv (sys_state S)" "opened f"
    using reachable_sys_inv [OF assms(1)] assms(2) by (auto simp: sys_inv_def)
  have "(\<exists>v s'. aesd_write k f buf count (sys_state S) = Inr (v, s')) \<or>
          aesd_write k f buf count (sys_state S) = Inl OutOfBounds \<and>
            fst (entry_alloc k (kheap (sys_state S)) (pending (sys_state S)) count) \<noteq> 0 \<and>
            NEWLINE \<notin> set (snd (copy_from_user k buf count)) \<and> 0 \<notin> set (snd (copy_from_user k buf count)) \<or>
          count = 0 \<and> entry_size (pending (sys_state S)) = 0 \<and>
          aesd_write k f buf count (sys_state S) = Inl BadPointer"
  proof (cases "aesd_write k f buf count (sys_state S) = Inl OutOfBounds")
    case True
    then have "count \<noteq> 0 \<or> entry_size (pending (sys_state S)) \<noteq> 0"
      using aesd_write_zero [OF assms(3) i, of buf] by auto
    from aesd_write_fault_cause [OF assms(3) i assms(4) this True] True show ?thesis by blast
  next
    case False
    then show ?thesis using aesd_write_returns [OF assms(3) i assms(4), of buf] by blast
  qed
  then show ?thesis
    using aesd_read_returns [OF i, of k buf count pos] aesd_llseek_returns [OF i, of offset wh]
      aesd_ioctl_returns [OF i, of k cmd arg]
    by blast
qed

theorem reachable_calls_return_witness:
  "\<exists>v pos' bs. aesd_read (sample_kernel [] []) fresh_file 0 1 0 fresh_state = Inr (v, pos', bs, fresh_state)"
  using reachable_calls_return [OF one_file_reachable _ sample_kernel_ok, of 7 fresh_file 1 "[]" "[]" 0 0]
  by (simp add: one_file_def MAX_RW_COUNT_def)

subsection \<open>Positions and results\<close>

text \<open>No position of an open file exceeds the size of a full device and one more record.\<close>

definition positions_ok :: "system \<Rightarrow> bool" where
  "positions_ok S \<longleftrightarrow> (\<forall>fd f. files S fd = Some f \<longrightarrow> unat (f_pos f) \<le> 11 * 2 ^ 32)"

lemma contents_bound: "dev_inv s \<Longrightarrow> length (dev_contents s) \<le> 10 * 2 ^ 32"
  using dev_total_bound by (simp add: length_contents)

lemma aesd_read_position:
  assumes "dev_inv s" and "opened f" and "aesd_read k f buf count pos s = Inr (v, pos', bs, s')"
  shows "pos' = pos \<or> unat pos' \<le> length (dev_contents s)"
proof (cases "locate (map length (dev_records s)) (unat pos)")
  case None
  then have "length (dev_contents s) \<le> unat pos"
    by (simp add: locate_None_iff dev_contents_def length_concat)
  with aesd_read_end [OF assms(1,2)] assms(3) show ?thesis by simp
next
  case (Some kj)
  then obtain i j where loc: "locate (map length (dev_records s)) (unat pos) = Some (i, j)" by force
  define n where "n = min (unat count) (length (dev_records s ! i) - j)"
  note r = aesd_read_inside(1) [OF assms(1,2) loc, where K = k and buf = buf and count = count, folded n_def]
    aesd_read_inside(2) [OF assms(1,2) loc, where count = count, folded n_def]
  have le: "n \<le> length (dev_contents s) - unat pos" using r(2) by simp
  have "unat pos < length (dev_contents s)"
    using loc locate_None_iff [of "map length (dev_records s)" "unat pos"]
    by (simp add: dev_contents_def length_concat)
  with le have "unat pos + n \<le> length (dev_contents s)" by simp
  with contents_bound [OF assms(1)] have "unat (pos + of_nat n) = unat pos + n"
    by (simp add: unat_add_no_wrap unat_of_nat_64)
  then show ?thesis
    using r(1) assms(3) \<open>unat pos + n \<le> length (dev_contents s)\<close> by (auto split: if_splits)
qed

text \<open>The results of the two calls that move the position without reading.\<close>

lemma aesd_llseek_result:
  assumes "dev_inv s" and "opened f"
  shows "\<exists>v f'. aesd_llseek f offset wh s = Inr (v, f', s) \<and>
    (v = - EINVAL \<and> f' = f \<or> f' = f\<lparr>f_pos := v\<rparr> \<and> unat v \<le> length (dev_contents s))"
proof (cases "seek_target s f offset wh")
  case None
  then show ?thesis unfolding aesd_llseek_ok [OF assms] by simp
next
  case (Some p)
  show ?thesis
  proof (cases "sint p < 0 \<or> of_nat (length (dev_contents s)) < p")
    case True
    then show ?thesis unfolding aesd_llseek_ok [OF assms] Some by simp
  next
    case False
    then have "unat p \<le> length (dev_contents s)"
      using unat_total [OF assms(1)] by (simp add: word_less_nat_alt)
    then show ?thesis using False unfolding aesd_llseek_ok [OF assms] Some by simp
  qed
qed

lemma aesd_ioctl_result:
  assumes "dev_inv s" and "opened f"
  shows "\<exists>v f'. aesd_ioctl k f cmd arg s = Inr (v, f', s) \<and> v \<in> {0, - ENOTTY, - EFAULT, - EINVAL} \<and>
    (v \<noteq> 0 \<longrightarrow> f' = f) \<and> (f' = f \<or> (\<exists>p. f' = f\<lparr>f_pos := p\<rparr> \<and> unat p \<le> 11 * 2 ^ 32))"
proof (cases "cmd \<noteq> AESDCHAR_IOCSEEKTO \<or> fst (copy_from_user k arg 8) \<noteq> 0")
  case True
  show ?thesis unfolding aesd_ioctl_refused [OF True] by simp
next
  case False
  then obtain bs where cmd: "cmd = AESDCHAR_IOCSEEKTO" and cp: "copy_from_user k arg 8 = (0, bs)"
    by (metis prod.collapse)
  let ?w = "unat (write_cmd (seekto_of_bytes bs))" and ?o = "unat (write_cmd_offset (seekto_of_bytes bs))"
  have "sum_list (take ?w (map esz (live s))) \<le> cb_total (circular_buffer (aesd_device s))"
    unfolding cb_total_def by (metis append_take_drop_id le_add1 sum_list_append)
  then have "sum_list (take ?w (map esz (live s))) + ?o \<le> 11 * 2 ^ 32"
    using dev_total_bound [OF assms(1)] unsigned_less [of "write_cmd_offset (seekto_of_bytes bs)", where ?'a = nat]
    by simp
  then have "unat (of_nat (sum_list (take ?w (map esz (live s))) + ?o) :: 64 word) \<le> 11 * 2 ^ 32"
    by (subst unat_of_nat_64) simp_all
  then show ?thesis
    unfolding cmd aesd_ioctl_seekto_raw [OF assms cp] by (auto split: if_split)
qed

lemma sys_step_positions: "sys_step S T \<Longrightarrow> sys_inv S \<Longrightarrow> positions_ok S \<Longrightarrow> positions_ok T"
proof (induction rule: sys_step_handlers)
  case (step_open S fd ino r f)
  then have "f_pos f = 0" by (auto simp: aesd_open_def new_file_def split: prod.splits)
  then show ?case using step_open by (simp add: positions_ok_def)
next
  case (step_read S fd f k count buf v pos bs s)
  then have i: "dev_inv (sys_state S)" "opened f" by (auto simp: sys_inv_def)
  have "unat (f_pos f) \<le> 11 * 2 ^ 32" using step_read by (simp add: positions_ok_def)
  with aesd_read_position [OF i step_read(4)] contents_bound [OF i(1)] have "unat pos \<le> 11 * 2 ^ 32" by auto
  then show ?case using step_read by (simp add: positions_ok_def)
next
  case (step_llseek S fd f offset wh v f' s)
  then have i: "dev_inv (sys_state S)" "opened f" by (auto simp: sys_inv_def)
  have "unat (f_pos f') \<le> 11 * 2 ^ 32"
    using aesd_llseek_result [OF i, of offset wh] contents_bound [OF i(1)] step_llseek
    by (auto simp: positions_ok_def)
  then show ?case using step_llseek by (simp add: positions_ok_def)
next
  case (step_ioctl S fd f k cmd arg v f' s)
  then have i: "dev_inv (sys_state S)" "opened f" by (auto simp: sys_inv_def)
  have "unat (f_pos f') \<le> 11 * 2 ^ 32"
    using aesd_ioctl_result [OF i, of k cmd arg] step_ioctl by (auto simp: positions_ok_def)
  then show ?case using step_ioctl by (simp add: positions_ok_def)
qed (auto simp: positions_ok_def)

lemma reachable_positions: "reachable S \<Longrightarrow> positions_ok S"
proof (induction rule: reachable.induct)
  case reach_init
  show ?case by (simp add: sys_init_def positions_ok_def)
next
  case (reach_step S T)
  then show ?case using sys_step_positions reachable_sys_inv by blast
qed

lemma sint_of_bounded: "unat (p :: 64 word) \<le> n \<Longrightarrow> n < 2 ^ 63 \<Longrightarrow> 0 \<le> sint p \<and> sint p \<le> int n"
  using sint_small [of p] by linarith

text \<open>
  Claim C19: Positions and results have the types the interface gives them. In every reachable
  state an open file belongs to the device and its position is a non-negative \<open>loff_t\<close> of at most
  11 * 2^32, so that no arithmetic on positions overflows. Whatever the arguments, a seek returns
  -EINVAL and leaves the position, or returns the new position, at most the size of the device's
  contents; an ioctl
  returns 0 or one of the three error numbers it documents, and moves the position only if it
  returns 0.
\<close>

theorem reachable_types:
  assumes "reachable S" and "files S fd = Some f"
  shows "opened f \<and> 0 \<le> sint (f_pos f) \<and> sint (f_pos f) \<le> 11 * 2 ^ 32 \<and>
    (\<exists>v f'. aesd_llseek f offset wh (sys_state S) = Inr (v, f', sys_state S) \<and>
       (v = - EINVAL \<and> f' = f \<or> f' = f\<lparr>f_pos := v\<rparr> \<and> 0 \<le> sint v \<and> sint v \<le> int (length (dev_contents (sys_state S))))) \<and>
    (\<exists>v f'. aesd_ioctl k f cmd arg (sys_state S) = Inr (v, f', sys_state S) \<and>
       v \<in> {0, - ENOTTY, - EFAULT, - EINVAL} \<and> (v \<noteq> 0 \<longrightarrow> f' = f))"
proof -
  have i: "dev_inv (sys_state S)" "opened f"
    using reachable_sys_inv [OF assms(1)] assms(2) by (auto simp: sys_inv_def)
  have "unat (f_pos f) \<le> 11 * 2 ^ 32"
    using reachable_positions [OF assms(1)] assms(2) by (simp add: positions_ok_def)
  then have pos: "0 \<le> sint (f_pos f) \<and> sint (f_pos f) \<le> 11 * 2 ^ 32"
    using sint_of_bounded by fastforce
  have "unat v \<le> length (dev_contents (sys_state S)) \<Longrightarrow> 0 \<le> sint v \<and>
      sint v \<le> int (length (dev_contents (sys_state S)))" for v :: "64 word"
    using sint_of_bounded [of v "length (dev_contents (sys_state S))"] contents_bound [OF i(1)] by simp
  then have "\<exists>v f'. aesd_llseek f offset wh (sys_state S) = Inr (v, f', sys_state S) \<and>
       (v = - EINVAL \<and> f' = f \<or> f' = f\<lparr>f_pos := v\<rparr> \<and> 0 \<le> sint v \<and> sint v \<le> int (length (dev_contents (sys_state S))))"
    using aesd_llseek_result [OF i, of offset wh] by blast
  then show ?thesis
    using i(2) pos aesd_ioctl_result [OF i, of k cmd arg] by blast
qed

theorem reachable_types_witness:
  "opened fresh_file \<and> (\<exists>v f'. aesd_llseek fresh_file 5 SEEK_SET fresh_state = Inr (v, f', fresh_state) \<and>
       (v = - EINVAL \<and> f' = fresh_file \<or>
        f' = fresh_file\<lparr>f_pos := v\<rparr> \<and> 0 \<le> sint v \<and> sint v \<le> int (length (dev_contents fresh_state))))"
  using reachable_types [OF one_file_reachable, of 7 fresh_file 5 SEEK_SET] by (simp add: one_file_def)

subsection \<open>Reading everything\<close>

text \<open>
  One read of a client: the bytes obtained and the new position; an error is no bytes, as
  for a loop that stops at a return value that is not positive.
\<close>

definition dev_rd ::
  "kernel \<Rightarrow> open_file \<Rightarrow> uaddr \<Rightarrow> size_t \<Rightarrow> loff_t \<times> kstate \<Rightarrow> u8 list \<times> loff_t \<times> kstate" where
  "dev_rd k f buf count x =
     (case aesd_read k f buf count (fst x) (snd x) of
        Inl _ \<Rightarrow> ([], x)
      | Inr (v, pos, bs, s) \<Rightarrow> (if 0 < sint v then bs else [], pos, s))"

definition rd_ready :: "kernel \<Rightarrow> open_file \<Rightarrow> uaddr \<Rightarrow> size_t \<Rightarrow> loff_t \<times> kstate \<Rightarrow> bool" where
  "rd_ready k f buf count x \<longleftrightarrow> dev_inv (snd x) \<and> opened f \<and> 0 < count \<and> unat count \<le> MAX_RW_COUNT \<and>
     (\<forall>bs. copy_to_user k buf bs = 0)"

lemma dev_rd_step:
  assumes ready: "rd_ready k f buf count (pos, s)" and rd: "dev_rd k f buf count (pos, s) = (bs, pos', s')"
  shows "s' = s \<and> length bs \<le> unat count \<and> unat pos' = unat pos + length bs \<and>
         bs = take (length bs) (drop (unat pos) (dev_contents s)) \<and>
         (bs = [] \<longrightarrow> length (dev_contents s) \<le> unat pos)"
proof -
  have inv: "dev_inv s" and op: "opened f" and c: "0 < count" "unat count \<le> MAX_RW_COUNT"
    and cp: "\<And>bs. copy_to_user k buf bs = 0" using ready by (auto simp: rd_ready_def)
  show ?thesis
  proof (cases "locate (map length (dev_records s)) (unat pos)")
    case None
    then have e: "length (dev_contents s) \<le> unat pos"
      by (simp add: locate_None_iff dev_contents_def length_concat)
    then show ?thesis using rd aesd_read_end [OF inv op e] by (simp add: dev_rd_def)
  next
    case (Some ij)
    then obtain i j where loc: "locate (map length (dev_records s)) (unat pos) = Some (i, j)" by force
    let ?n = "min (unat count) (length (dev_records s ! i) - j)"
    let ?bs = "take ?n (drop (unat pos) (dev_contents s))"
    note r = aesd_read_inside [OF inv op loc, where count = count]
    have n: "0 < ?n" "?n \<le> MAX_RW_COUNT"
      using locate_SomeD [OF loc] c by (auto simp: word_less_nat_alt)
    then have un: "unat (of_nat ?n :: 64 word) = ?n" by (intro unat_of_nat_64) (simp add: MAX_RW_COUNT_def)
    then have "sint (of_nat ?n :: 64 word) = int ?n"
      using n by (subst sint_small) (simp_all add: MAX_RW_COUNT_def)
    then have "0 < sint (of_nat ?n :: 64 word)" using n(1) by simp
    then have "dev_rd k f buf count (pos, s) = (?bs, pos + of_nat ?n, s)"
      using r(1) [where K = k and buf = buf] cp by (simp add: dev_rd_def del: of_nat_min)
    then have res: "bs = ?bs" "pos' = pos + of_nat ?n" "s' = s"
      using rd by (simp_all del: of_nat_min)
    have "unat pos + ?n \<le> length (dev_contents s)"
      by (rule length_take_drop_bound [OF r(2) n(1)])
    moreover have "length (dev_contents s) < 2 ^ 64"
      using dev_total_bound [OF inv] by (simp add: length_contents [OF inv])
    ultimately have "unat (pos + of_nat ?n) = unat pos + ?n"
      using un by (subst unat_add_no_wrap) simp_all
    moreover have "length bs = ?n" using res(1) r(2) by (simp only:)
    moreover have "bs \<noteq> []" using calculation(2) n(1) by (metis list.size(3) less_numeral_extra(3))
    ultimately show ?thesis
      using res r(3) by (simp only: simp_thms)
  qed
qed

lemma dev_rd_ok:
  assumes "rd_ready k f buf count x" and "dev_rd k f buf count x = (bs, x')"
  shows "rd_ready k f buf count x' \<and>
         drop (unat (fst x)) (dev_contents (snd x)) = bs @ drop (unat (fst x')) (dev_contents (snd x')) \<and>
         (bs = [] \<longrightarrow> drop (unat (fst x)) (dev_contents (snd x)) = [])"
proof -
  obtain pos s pos' s' where x: "x = (pos, s)" "x' = (pos', s')" by (metis prod.exhaust)
  have st: "s' = s" "unat pos' = unat pos + length bs"
    "bs = take (length bs) (drop (unat pos) (dev_contents s))"
    "bs = [] \<longrightarrow> length (dev_contents s) \<le> unat pos"
    using dev_rd_step [of k f buf count pos s bs pos' s'] assms unfolding x by blast+
  have "drop (unat pos) (dev_contents s) = bs @ drop (unat pos') (dev_contents s)"
    by (metis append_take_drop_id drop_drop st(2,3) add.commute)
  moreover have "rd_ready k f buf count x'" using assms(1) st(1) by (simp add: x rd_ready_def)
  ultimately show ?thesis
    unfolding x fst_conv snd_conv st(1) using st(4) by (metis drop_all)
qed

interpretation dev_source: byte_source "dev_rd k f buf count"
  "\<lambda>x. drop (unat (fst x)) (dev_contents (snd x))" "rd_ready k f buf count"
  by unfold_locales (rule dev_rd_ok)

text \<open>
  Claim C15: Reading the device to its end returns its contents. A client that reads with any
  positive buffer size from position \<open>p\<close> until it gets no bytes receives exactly the contents
  from \<open>p\<close> on, in order and each byte once, after at most as many reads as there are bytes
  and one more; the loop ends.
\<close>

theorem read_to_end:
  assumes "rd_ready k f buf count (p, s)" and "length (drop (unat p) (dev_contents s)) < n"
  shows "\<exists>p' s'. drain (dev_rd k f buf count) n (p, s) = Some (drop (unat p) (dev_contents s), p', s') \<and>
           dev_inv s'"
  using dev_source.drain_all [of k f buf count "(p, s)" n] assms by (auto simp: rd_ready_def)

lemma loaded_ready: "rd_ready (sample_kernel [] []) fresh_file 0 2 (0, loaded_state)"
  by (simp add: rd_ready_def MAX_RW_COUNT_def sample_kernel_def)

theorem read_to_end_witness:
  "\<exists>p' s'. drain (dev_rd (sample_kernel [] []) fresh_file 0 2) 6 (0, loaded_state) =
     Some ([97, 98, 10, 99, 10], p', s') \<and> dev_inv s'"
  using read_to_end [OF loaded_ready, of 6] by simp

subsection \<open>Lines written are lines read\<close>

definition is_line :: "u8 list \<Rightarrow> bool" where
  "is_line l \<longleftrightarrow> l \<noteq> [] \<and> last l = NEWLINE \<and> NEWLINE \<notin> set (butlast l) \<and> 0 \<notin> set (butlast l)"

text \<open>A sequence of complete line writes, each reported in full, by any files.\<close>

inductive line_writes :: "kstate \<Rightarrow> u8 list list \<Rightarrow> kstate \<Rightarrow> bool" where
  lw_none: "line_writes s [] s"
| lw_line: "line_writes s ls s1 \<Longrightarrow> kernel_ok k \<Longrightarrow> opened f \<Longrightarrow> unat count \<le> MAX_RW_COUNT \<Longrightarrow>
     copy_from_user k buf count = (0, l) \<Longrightarrow> is_line l \<Longrightarrow>
     aesd_write k f buf count s1 = Inr (count, s2) \<Longrightarrow> line_writes s (ls @ [l]) s2"

lemma window_window: "window (window xs @ ys) = window (xs @ ys)"
  by (simp add: window_def) (cases "length xs \<le> 10"; simp add: add.commute)

lemma is_lineE:
  assumes "is_line l"
  obtains xs where "l = xs @ [NEWLINE]" and "NEWLINE \<notin> set xs" and "0 \<notin> set xs"
  using assms append_butlast_last_id [of l] unfolding is_line_def by metis

lemma line_write_step:
  assumes "kernel_ok k" and "dev_inv s" and "opened f" and "unat count \<le> MAX_RW_COUNT"
    and "copy_from_user k buf count = (0, l)" and "is_line l" and "pending s = null_entry"
    and "aesd_write k f buf count s = Inr (count, s')"
  shows "dev_inv s' \<and> dev_records s' = window (dev_records s @ [l]) \<and> pending s' = null_entry"
proof -
  from copy_from_userD(2) [OF assms(1,5)] assms(6) have c: "count \<noteq> 0" by (auto simp: is_line_def)
  have ne: "count \<noteq> - ENOMEM" using assms(4) by (auto simp: ENOMEM_def MAX_RW_COUNT_def)
  have alloc: "fst (entry_alloc k (kheap s) (pending s) count) \<noteq> 0"
  proof
    assume "fst (entry_alloc k (kheap s) (pending s) count) = 0"
    then obtain h where "entry_alloc k (kheap s) (pending s) count = (0, h)" by (metis prod.collapse)
    from aesd_write_enomem [OF assms(2,3) this] assms(8) ne show False by simp
  qed
  obtain xs where l: "l = xs @ [NEWLINE]" "NEWLINE \<notin> set xs" "0 \<notin> set xs"
    using assms(6) by (rule is_lineE)
  show ?thesis
    using aesd_write_commit [OF assms(1-3) c assms(4) alloc assms(5) _ _ l(2,3), of "[]"] assms(7,8)
      pending_null [OF assms(7)] l(1) by auto
qed

lemma dev_records_window: "dev_inv s \<Longrightarrow> window (dev_records s) = dev_records s"
  using length_cb_list_le [OF dev_inv_wf] by (simp add: dev_records_def window_def)

lemma line_writes_records:
  assumes "line_writes s ls s'" and "dev_inv s" and "pending s = null_entry"
  shows "dev_inv s' \<and> dev_records s' = window (dev_records s @ ls) \<and> pending s' = null_entry"
  using assms
proof (induction rule: line_writes.induct)
  case (lw_none s)
  then show ?case by (simp add: dev_records_window)
next
  case (lw_line s ls s1 k f count buf l s2)
  then have i: "dev_inv s1" "dev_records s1 = window (dev_records s @ ls)" "pending s1 = null_entry"
    by simp_all
  from line_write_step [OF lw_line(2) i(1) lw_line(3-6) i(3) lw_line(7)] i(2)
  show ?case by (simp add: window_window)
qed

text \<open>
  Claim C2: Round trip. After any sequence of complete line writes to a fresh device, by any
  files and with any kernel, reading from position 0 to the end returns exactly the last ten
  lines written, in the order of writing.
\<close>

theorem lines_read_back:
  assumes "line_writes fresh_state ls s" and "rd_ready k f buf count (0, s)"
    and "length (concat (window ls)) < n"
  shows "\<exists>p' s'. drain (dev_rd k f buf count) n (0, s) = Some (concat (window ls), p', s')"
proof -
  have "dev_contents s = concat (window ls)"
    using line_writes_records [OF assms(1)] by (simp add: dev_contents_def)
  then show ?thesis
    using dev_source.drain_all [OF assms(2), of n] assms(3) by auto
qed

theorem lines_read_back_witness:
  "\<exists>s p' s'. line_writes fresh_state [[104, 105, 10]] s \<and>
     drain (dev_rd (sample_kernel [] []) fresh_file 0 2) 4 (0, s) = Some ([104, 105, 10], p', s')"
proof -
  let ?k = "sample_kernel [104, 105, 10] []"
  have "\<exists>s. aesd_write ?k fresh_file 0 3 fresh_state = Inr (3, s)"
    by (rule aesd_write_full_copy [OF sample_kernel_ok [where bs = "[104, 105, 10]" and sl = "[]"]
          fresh_inv(1) fresh_sel(1), where count = 3 and buf = 0 and bs = "[104, 105, 10]"])
      (simp_all add: MAX_RW_COUNT_def sample_alloc_fresh sample_copy NEWLINE_def, auto)
  then obtain s where w: "aesd_write ?k fresh_file 0 3 fresh_state = Inr (3, s)" ..
  have "line_writes fresh_state ([] @ [[104, 105, 10]]) s"
    by (rule lw_line [OF lw_none sample_kernel_ok fresh_sel(1) _ _ _ w])
      (simp_all add: MAX_RW_COUNT_def sample_copy is_line_def NEWLINE_def)
  then have lw: "line_writes fresh_state [[104, 105, 10]] s" by simp
  have "dev_inv s" using line_writes_records [OF lw] by simp
  then have "rd_ready (sample_kernel [] []) fresh_file 0 2 (0, s)"
    by (simp add: rd_ready_def MAX_RW_COUNT_def sample_kernel_def)
  from lines_read_back [OF lw this, of 4] lw show ?thesis by (auto simp: window_def)
qed

end
