(* ===== verification/Server_World.thy ===== *)
theory Server_World
  imports Server_Refinement Device_Runs
begin

section \<open>The server on top of the driver\<close>

text \<open>
  An environment for the connection thread in which \<^verbatim>\<open>/dev/aesdchar\<close> is the driver of
  \<open>Char_Driver\<close>: opening, reading, writing and seeking on the device are calls of its
  handlers. Streams are those of the C library: bytes put into a stream reach the device in
  one \<open>write\<close> when it is flushed (a packet is at most as long as a stream's buffer), reading
  goes on until the request is filled or the device has no more, and the end of the file,
  once met, stays. A fault in the driver leaves no device. The client is a list of packets
  to send and the bytes it has received; after its last packet it closes its end. Opening,
  \<open>malloc\<close> and \<open>send\<close> succeed and \<open>recv\<close> does not fail; the kernel may be short of memory. The interface of \<open>Server_Refinement\<close> is interpreted
  on this environment, for any kernel that keeps its promises.
\<close>

subsection \<open>The device as the server sees it\<close>

text \<open>The kernel during a call whose user memory holds \<open>bs\<close>.\<close>

definition user_kernel :: "kernel \<Rightarrow> u8 list \<Rightarrow> kernel" where
  "user_kernel k bs =
     k\<lparr>copy_from_user := (\<lambda>u n. (0, take (unat n) (bs @ replicate (unat n) 0))),
       copy_to_user := (\<lambda>u b. 0)\<rparr>"

definition driver_write :: "kernel \<Rightarrow> u8 list \<Rightarrow> kstate option \<Rightarrow> kstate option" where
  "driver_write k bs d =
     (if bs = [] then d
      else case d of
        None \<Rightarrow> None
      | Some s \<Rightarrow>
          (case aesd_write (user_kernel k bs) fresh_file 0 (of_nat (length bs)) s of
             Inl _ \<Rightarrow> None
           | Inr (_, s') \<Rightarrow> Some s'))"

definition driver_contents :: "kstate option \<Rightarrow> u8 list" where
  "driver_contents d = (case d of None \<Rightarrow> [] | Some s \<Rightarrow> dev_contents s)"

definition driver_seek :: "kernel \<Rightarrow> aesd_seekto \<Rightarrow> kstate option \<Rightarrow> nat option" where
  "driver_seek k seekto d =
     (case d of
        None \<Rightarrow> None
      | Some s \<Rightarrow>
          (case aesd_ioctl (user_kernel k (seekto_bytes seekto)) fresh_file AESDCHAR_IOCSEEKTO 0 s of
             Inl _ \<Rightarrow> None
           | Inr (v, f, _) \<Rightarrow> if v = 0 then Some (unat (f_pos f)) else None))"

definition driver_device :: "kernel \<Rightarrow> kstate option device" where
  "driver_device k =
     \<lparr>d_contents = driver_contents, d_write = driver_write k, d_seek = driver_seek k\<rparr>"

subsection \<open>World and calls\<close>

datatype stream = Reader loff_t bool | Appender "u8 list"
  \<comment> \<open>position and end-of-file flag; bytes not yet flushed\<close>

record drv_world =
  w_dev :: "kstate option"
  w_files :: "fd \<rightharpoonup> open_file"
  w_streams :: "file_ptr \<rightharpoonup> stream"
  w_next :: nat
  w_inbox :: "u8 list list"
  w_outbox :: "u8 list"

definition drv_fopen :: "string \<Rightarrow> string \<Rightarrow> drv_world \<Rightarrow> file_ptr \<times> drv_world" where
  "drv_fopen name mode w =
     (w_next w, w\<lparr>w_streams := (w_streams w)(w_next w \<mapsto> if mode = ''r'' then Reader 0 False else Appender []),
                  w_next := Suc (w_next w)\<rparr>)"

definition drv_fputs :: "u8 list \<Rightarrow> file_ptr \<Rightarrow> drv_world \<Rightarrow> bool \<times> drv_world" where
  "drv_fputs bs f w =
     (case w_streams w f of
        Some (Appender b) \<Rightarrow> (True, w\<lparr>w_streams := (w_streams w)(f \<mapsto> Appender (b @ bs))\<rparr>)
      | _ \<Rightarrow> (False, w))"

definition drv_fflush :: "kernel \<Rightarrow> file_ptr \<Rightarrow> drv_world \<Rightarrow> drv_world" where
  "drv_fflush k f w =
     (case w_streams w f of
        Some (Appender b) \<Rightarrow> w\<lparr>w_dev := driver_write k b (w_dev w), w_streams := (w_streams w)(f \<mapsto> Appender [])\<rparr>
      | _ \<Rightarrow> w)"

text \<open>Reads until \<open>n\<close> bytes are there or a read gives none; \<open>m\<close> bounds the number of reads.\<close>

fun fill :: "kernel \<Rightarrow> nat \<Rightarrow> nat \<Rightarrow> loff_t \<times> kstate \<Rightarrow> u8 list \<times> bool \<times> loff_t \<times> kstate" where
  "fill k 0 n x = ([], False, x)"
| "fill k (Suc m) n x =
     (if n = 0 then ([], False, x)
      else case dev_rd (user_kernel k []) fresh_file 0 (of_nat n) x of
        (bs, y) \<Rightarrow>
          if bs = [] then ([], True, y)
          else case fill k m (n - length bs) y of (rest, e, z) \<Rightarrow> (bs @ rest, e, z))"

definition drv_fread :: "kernel \<Rightarrow> file_ptr \<Rightarrow> nat \<Rightarrow> drv_world \<Rightarrow> u8 list \<times> drv_world" where
  "drv_fread k g n w =
     (case w_streams w g of
        Some (Reader p False) \<Rightarrow>
          (case w_dev w of
             None \<Rightarrow> ([], w\<lparr>w_streams := (w_streams w)(g \<mapsto> Reader p True)\<rparr>)
           | Some s \<Rightarrow>
               (case fill k n n (p, s) of
                  (bs, e, q, s') \<Rightarrow>
                    (bs, w\<lparr>w_dev := Some s', w_streams := (w_streams w)(g \<mapsto> Reader q e)\<rparr>)))
      | _ \<Rightarrow> ([], w))"

definition drv_fclose :: "file_ptr \<Rightarrow> drv_world \<Rightarrow> drv_world" where
  "drv_fclose f w = w\<lparr>w_streams := (w_streams w)(f := None)\<rparr>"

definition drv_recv :: "fd \<Rightarrow> nat \<Rightarrow> drv_world \<Rightarrow> u8 list option \<times> drv_world" where
  "drv_recv s n w =
     (case w_inbox w of
        [] \<Rightarrow> (Some [], w)
      | c # cs \<Rightarrow>
          if length c \<le> n then (Some c, w\<lparr>w_inbox := cs\<rparr>)
          else (Some (take n c), w\<lparr>w_inbox := drop n c # cs\<rparr>))"

definition drv_send :: "fd \<Rightarrow> u8 list \<Rightarrow> drv_world \<Rightarrow> int \<times> drv_world" where
  "drv_send s bs w = (int (length bs), w\<lparr>w_outbox := w_outbox w @ bs\<rparr>)"

definition drv_open :: "string \<Rightarrow> drv_world \<Rightarrow> fd \<times> drv_world" where
  "drv_open name w =
     (int (w_next w),
      w\<lparr>w_files := (w_files w)(int (w_next w) \<mapsto> snd (aesd_open \<lparr>i_cdev = Aesd_device\<rparr> new_file)),
        w_next := Suc (w_next w)\<rparr>)"

definition drv_ioctl :: "kernel \<Rightarrow> fd \<Rightarrow> u32 \<Rightarrow> aesd_seekto \<Rightarrow> drv_world \<Rightarrow> int \<times> drv_world" where
  "drv_ioctl k d cmd seekto w =
     (case (w_dev w, w_files w d) of
        (Some s, Some f) \<Rightarrow>
          (case aesd_ioctl (user_kernel k (seekto_bytes seekto)) f cmd 0 s of
             Inl _ \<Rightarrow> (-1, w\<lparr>w_dev := None\<rparr>)
           | Inr (v, f', s') \<Rightarrow>
               (if sint v < 0 then -1 else sint v,
                w\<lparr>w_dev := Some s', w_files := (w_files w)(d \<mapsto> f')\<rparr>))
      | _ \<Rightarrow> (-1, w))"

definition drv_read :: "kernel \<Rightarrow> fd \<Rightarrow> nat \<Rightarrow> drv_world \<Rightarrow> u8 list option \<times> drv_world" where
  "drv_read k d n w =
     (case w_files w d of
        None \<Rightarrow> (None, w)
      | Some f \<Rightarrow>
          (case w_dev w of
             None \<Rightarrow> (Some [], w)
           | Some s \<Rightarrow>
               (case dev_rd (user_kernel k []) f 0 (of_nat n) (f_pos f, s) of
                  (bs, p, s') \<Rightarrow>
                    (Some bs, w\<lparr>w_dev := Some s', w_files := (w_files w)(d \<mapsto> f\<lparr>f_pos := p\<rparr>)\<rparr>))))"

definition drv_close :: "fd \<Rightarrow> drv_world \<Rightarrow> drv_world" where
  "drv_close d w = w\<lparr>w_files := (w_files w)(d := None)\<rparr>"

definition driver_os :: "kernel \<Rightarrow> drv_world os" where
  "driver_os k =
     \<lparr>os_fopen = drv_fopen, os_fputs = drv_fputs, os_fflush = drv_fflush k, os_fread = drv_fread k,
      os_fclose = drv_fclose, os_malloc = (\<lambda>n w. (True, w)), os_recv = drv_recv, os_send = drv_send,
      os_open = drv_open, os_ioctl = drv_ioctl k, os_read = drv_read k, os_close = drv_close,
      scan_overflow = (\<lambda>neg n. 2 ^ 32 - 1)\<rparr>"

subsection \<open>View and invariant\<close>

definition status_of :: "u8 list \<Rightarrow> stream option \<Rightarrow> stream_view" where
  "status_of c x =
     (case x of
        Some (Reader p e) \<Rightarrow> if e then Ended else if p = 0 then Unread else Left (drop (unat p) c)
      | _ \<Rightarrow> Ended)"

definition stream_status :: "drv_world \<Rightarrow> file_ptr \<Rightarrow> stream_view" where
  "stream_status w g = status_of (driver_contents (w_dev w)) (w_streams w g)"

lemma status_of_simps [simp]:
  "status_of c None = Ended" "status_of c (Some (Appender b)) = Ended"
  "status_of c (Some (Reader p e)) =
     (if e then Ended else if p = 0 then Unread else Left (drop (unat p) c))"
  by (simp_all add: status_of_def)

lemma status_of_quiet:
  "status_of c x = Unread \<or> status_of c x = Ended \<Longrightarrow> status_of c' x = status_of c x"
  by (auto simp: status_of_def split: option.splits stream.splits if_splits)

definition drv_view :: "drv_world \<Rightarrow> kstate option view" where
  "drv_view w =
     \<lparr>v_in = w_inbox w, v_out = w_outbox w, v_dev = w_dev w, v_left = stream_status w,
      v_fd = (\<lambda>d. map_option (\<lambda>f. drop (unat (f_pos f)) (driver_contents (w_dev w))) (w_files w d)),
      v_app = {f. \<exists>b. w_streams w f = Some (Appender b)}\<rparr>"

definition drv_inv :: "kernel \<Rightarrow> drv_world \<Rightarrow> bool" where
  "drv_inv k w \<longleftrightarrow> kernel_ok k \<and> (\<forall>s. w_dev w = Some s \<longrightarrow> dev_inv s) \<and> 0 < w_next w \<and>
     (\<forall>g. w_streams w g \<noteq> None \<longrightarrow> g < w_next w) \<and> (\<forall>d f. w_files w d = Some f \<longrightarrow> opened f) \<and>
     (\<forall>f b. w_streams w f = Some (Appender b) \<longrightarrow> b = [])"

subsection \<open>The laws\<close>

lemma user_kernel_ok:
  assumes "kernel_ok k"
  shows "kernel_ok (user_kernel k bs)"
proof -
  have "kzalloc_ok (user_kernel k bs) = kzalloc_ok k" "krealloc_ok (user_kernel k bs) = krealloc_ok k"
    by (simp_all only: kzalloc_ok_def krealloc_ok_def) (simp_all add: user_kernel_def)
  moreover have "copy_ok (user_kernel k bs)"
    by (simp add: copy_ok_def user_kernel_def min_def)
  moreover have "kmalloc_max (user_kernel k bs) = kmalloc_max k"
    by (simp add: user_kernel_def)
  ultimately show ?thesis
    using assms by (simp add: kernel_ok_def)
qed

lemma user_kernel_sel [simp]:
  "copy_to_user (user_kernel k bs) u b = 0"
  "copy_from_user (user_kernel k bs) u n = (0, take (unat n) (bs @ replicate (unat n) 0))"
  by (simp_all add: user_kernel_def)

lemma driver_write_inv:
  assumes "kernel_ok k" and "dev_inv s" and "length bs \<le> MAX_RW_COUNT" and "driver_write k bs (Some s) = Some s'"
  shows "dev_inv s'"
proof (cases "bs = []")
  case True
  then show ?thesis using assms by (simp add: driver_write_def)
next
  case False
  have "unat (of_nat (length bs) :: 64 word) \<le> MAX_RW_COUNT"
    using assms(3) by (subst unat_of_nat_64) (auto simp: MAX_RW_COUNT_def)
  then show ?thesis
    using aesd_write_effect [OF user_kernel_ok [OF assms(1)] assms(2), of fresh_file "of_nat (length bs)" bs 0]
      assms(4) False by (auto simp: driver_write_def split: sum.splits)
qed

lemma driver_ready:
  assumes "dev_inv s" and "opened f" and "0 < n" and "n \<le> MAXBUFFER"
  shows "rd_ready (user_kernel k []) f 0 (of_nat n) (p, s)"
  using assms by (simp add: rd_ready_def MAX_RW_COUNT_def MAXBUFFER_def unat_of_nat_64 word_less_nat_alt)

lemma fill_ok:
  "dev_inv s \<Longrightarrow> n \<le> MAXBUFFER \<Longrightarrow> n \<le> m \<Longrightarrow> R = drop (unat p) (dev_contents s) \<Longrightarrow>
   \<exists>q. fill k m n (p, s) = (take n R, length R < n, q, s) \<and> (length R \<ge> n \<longrightarrow> unat q = unat p + n)"
proof (induction m arbitrary: n p R)
  case (Suc m)
  show ?case
  proof (cases "n = 0")
    case False
    obtain bs q s' where rd: "dev_rd (user_kernel k []) fresh_file 0 (of_nat n) (p, s) = (bs, q, s')"
      by (metis prod.exhaust)
    have un: "unat (of_nat n :: 64 word) = n"
      using Suc.prems(2) by (simp add: unat_of_nat_64 MAXBUFFER_def)
    have st: "s' = s" "length bs \<le> n" "unat q = unat p + length bs" "bs = take (length bs) R"
      "bs = [] \<longrightarrow> R = []"
      using dev_rd_step [OF driver_ready [OF Suc.prems(1) _ _ Suc.prems(2)] rd] False un Suc.prems(4) by auto
    show ?thesis
    proof (cases "bs = []")
      case True
      then show ?thesis using rd st False by simp
    next
      case ne: False
      have le: "length bs \<le> length R" using st(4) by (metis length_take min.cobounded1)
      obtain q' where f: "fill k m (n - length bs) (q, s) =
          (take (n - length bs) (drop (length bs) R), length (drop (length bs) R) < n - length bs, q', s)"
        "length (drop (length bs) R) \<ge> n - length bs \<longrightarrow> unat q' = unat q + (n - length bs)"
      proof -
        have "n - length bs \<le> MAXBUFFER" "n - length bs \<le> m"
          using Suc.prems(2,3) ne by (cases bs; simp)+
        moreover have "drop (length bs) R = drop (unat q) (dev_contents s)"
          by (simp add: Suc.prems(4) st(3) add.commute)
        ultimately show thesis
          using Suc.IH [OF Suc.prems(1), of "n - length bs" "drop (length bs) R" q] that by blast
      qed
      have "bs @ take (n - length bs) (drop (length bs) R) = take n R"
        using st(2,4) by (metis append_take_drop_id le_add_diff_inverse take_add)
      then show ?thesis
        using rd st(1-3) False ne f le by auto
    qed
  qed simp
qed simp

lemma drv_fread_law:
  fixes g :: file_ptr
  assumes "drv_inv k w" and "0 < n" and "n \<le> MAXBUFFER"
  defines "R \<equiv> left_of (driver_device k) (drv_view w) g"
  shows "\<exists>w'. drv_fread k g n w = (take n R, w') \<and> drv_inv k w' \<and>
           drv_view w' = (drv_view w)\<lparr>v_left := (v_left (drv_view w))(g := if length R < n then Ended else Left (drop n R))\<rparr>"
proof (cases "\<exists>p. w_streams w g = Some (Reader p False)")
  case False
  then have st: "stream_status w g = Ended"
    by (auto simp: stream_status_def status_of_def split: option.splits stream.splits)
  then have R: "R = []"
    by (simp add: R_def left_of_def drv_view_def)
  have "drv_fread k g n w = ([], w)"
    using False by (auto simp: drv_fread_def split: option.splits stream.splits bool.splits)
  moreover have "(stream_status w)(g := Ended) = stream_status w"
    using st by auto
  ultimately show ?thesis
    using assms(1,2) R by (simp add: drv_view_def)
next
  case True
  then obtain p where p: "w_streams w g = Some (Reader p False)" by blast
  have R: "R = drop (unat p) (driver_contents (w_dev w))"
    using p by (simp add: R_def left_of_def drv_view_def stream_status_def driver_device_def)
  show ?thesis
  proof (cases "w_dev w")
    case None
    have "stream_status (w\<lparr>w_streams := (w_streams w)(g \<mapsto> Reader p True)\<rparr>) = (stream_status w)(g := Ended)"
      by (rule ext) (simp add: stream_status_def)
    moreover have "{f. \<exists>b. ((w_streams w)(g \<mapsto> Reader p True)) f = Some (Appender b)} =
        {f. \<exists>b. w_streams w f = Some (Appender b)}"
      using p by auto
    ultimately show ?thesis
      using assms(1,2) p None R
      by (simp add: drv_fread_def drv_view_def drv_inv_def driver_contents_def)
  next
    case (Some s)
    have inv: "dev_inv s" using assms(1) Some by (simp add: drv_inv_def)
    obtain q where f: "fill k n n (p, s) = (take n R, length R < n, q, s)"
      and q: "length R \<ge> n \<longrightarrow> unat q = unat p + n"
      using fill_ok [OF inv assms(3) order.refl, of R p k] R Some by (auto simp: driver_contents_def)
    have "q \<noteq> 0" "drop (unat q) (dev_contents s) = drop n R" if "\<not> length R < n"
      using that q assms(2) R Some by (auto simp: driver_contents_def add.commute)
    then have "stream_status (w\<lparr>w_streams := (w_streams w)(g \<mapsto> Reader q (length R < n))\<rparr>) =
        (stream_status w)(g := if length R < n then Ended else Left (drop n R))"
      using Some by (intro ext) (simp add: stream_status_def driver_contents_def)
    moreover have "{f. \<exists>b. ((w_streams w)(g \<mapsto> Reader q (length R < n))) f = Some (Appender b)} =
        {f. \<exists>b. w_streams w f = Some (Appender b)}"
      using p by auto
    moreover have "drv_fread k g n w = (take n R, w\<lparr>w_streams := (w_streams w)(g \<mapsto> Reader q (length R < n))\<rparr>)"
      using p Some f by (cases w) (simp add: drv_fread_def)
    ultimately show ?thesis
      using assms(1) p by (simp add: drv_view_def drv_inv_def)
  qed
qed

lemma drv_save_law:
  assumes "drv_inv k w" and "quiet (drv_view w)" and "f \<in> v_app (drv_view w)" and "length bs \<le> MAXBUFFER"
  shows "\<exists>w'. drv_fputs bs f w = (True, w') \<and> drv_inv k (drv_fflush k f w') \<and>
           drv_view (drv_fflush k f w') = (drv_view w)\<lparr>v_dev := driver_write k bs (w_dev w)\<rparr>"
proof -
  have f: "w_streams w f = Some (Appender [])"
    using assms(1,3) by (auto simp: drv_view_def drv_inv_def)
  define d where "d = driver_write k bs (w_dev w)"
  let ?w = "w\<lparr>w_dev := d\<rparr>"
  have save: "drv_fputs bs f w = (True, w\<lparr>w_streams := (w_streams w)(f \<mapsto> Appender bs)\<rparr>)"
    using f by (simp add: drv_fputs_def)
  have same: "(w_streams w)(f \<mapsto> Appender []) = w_streams w"
    using f by auto
  have flush: "drv_fflush k f (w\<lparr>w_streams := (w_streams w)(f \<mapsto> Appender bs)\<rparr>) = ?w"
    using same by (simp add: drv_fflush_def d_def)
  have "\<forall>s. d = Some s \<longrightarrow> dev_inv s"
    using assms(1,4) driver_write_inv [of k _ bs] unfolding d_def
    by (cases "w_dev w") (auto simp: drv_inv_def MAX_RW_COUNT_def MAXBUFFER_def driver_write_def)
  then have inv: "drv_inv k ?w"
    using assms(1) by (simp add: drv_inv_def)
  have nofd: "w_files w x = None" for x
    using assms(2) by (auto simp: quiet_def drv_view_def)
  have "stream_status ?w = stream_status w"
  proof
    fix g
    have "stream_status w g = Unread \<or> stream_status w g = Ended"
      using assms(2) by (auto simp: quiet_def drv_view_def)
    then have "status_of (driver_contents d) (w_streams w g) = stream_status w g"
      unfolding stream_status_def by (rule status_of_quiet)
    then show "stream_status ?w g = stream_status w g"
      by (simp add: stream_status_def)
  qed
  then have "drv_view ?w = (drv_view w)\<lparr>v_dev := d\<rparr>"
    by (simp add: drv_view_def nofd)
  then show ?thesis
    using save flush inv d_def by simp
qed

lemma opened_new [simp]: "snd (aesd_open \<lparr>i_cdev = Aesd_device\<rparr> new_file) = fresh_file"
  by (simp add: aesd_open_def new_file_def fresh_file_def)

lemma drv_seek_law:
  assumes "drv_inv k w"
  shows "\<exists>d w1 r w2. drv_open FILENAME w = (d, w1) \<and> d \<noteq> -1 \<and>
        drv_ioctl k d AESDCHAR_IOCSEEKTO seekto w1 = (r, w2) \<and> drv_inv k w2 \<and>
        (case driver_seek k seekto (w_dev w) of
           None \<Rightarrow> r = -1 \<and> drv_view w2 = (drv_view w)\<lparr>v_fd := (v_fd (drv_view w))(d \<mapsto> driver_contents (w_dev w))\<rparr>
         | Some p \<Rightarrow> r \<noteq> -1 \<and>
             drv_view w2 = (drv_view w)\<lparr>v_fd := (v_fd (drv_view w))(d \<mapsto> drop p (driver_contents (w_dev w)))\<rparr>)"
proof -
  let ?d = "int (w_next w)"
  let ?w1 = "w\<lparr>w_files := (w_files w)(?d \<mapsto> fresh_file), w_next := Suc (w_next w)\<rparr>"
  have op: "drv_open FILENAME w = (?d, ?w1)"
    by (simp add: drv_open_def)
  have inv1: "drv_inv k ?w1"
    using assms by (auto simp: drv_inv_def less_Suc_eq)
  have at: "drv_view (w\<lparr>w_files := (w_files w)(?d \<mapsto> fresh_file\<lparr>f_pos := p\<rparr>), w_next := Suc (w_next w)\<rparr>) =
      (drv_view w)\<lparr>v_fd := (v_fd (drv_view w))(?d \<mapsto> drop (unat p) (driver_contents (w_dev w)))\<rparr>" for p
    by (auto simp: drv_view_def stream_status_def)
  have at0: "drv_view ?w1 = (drv_view w)\<lparr>v_fd := (v_fd (drv_view w))(?d \<mapsto> driver_contents (w_dev w))\<rparr>"
    using at [of 0] by (simp add: fresh_file_def)
  show ?thesis
  proof (cases "w_dev w")
    case None
    then have "drv_ioctl k ?d AESDCHAR_IOCSEEKTO seekto ?w1 = (-1, ?w1)" "driver_seek k seekto (w_dev w) = None"
      by (simp_all add: drv_ioctl_def driver_seek_def)
    then show ?thesis
      using op inv1 at0 None by (intro exI [of _ ?d] exI [of _ ?w1] exI [of _ "-1"]) simp
  next
    case (Some s)
    have inv: "dev_inv s" using assms Some by (simp add: drv_inv_def)
    let ?k = "user_kernel k (seekto_bytes seekto)"
    consider "aesd_ioctl ?k fresh_file AESDCHAR_IOCSEEKTO 0 s = Inr (- EINVAL, fresh_file, s)"
      | p where "aesd_ioctl ?k fresh_file AESDCHAR_IOCSEEKTO 0 s = Inr (0, fresh_file\<lparr>f_pos := p\<rparr>, s)"
      using aesd_ioctl_seekto_raw [OF inv, of fresh_file ?k 0 "seekto_bytes seekto"]
      by (auto simp: seekto_bytes_def split: if_splits)
    then show ?thesis
    proof cases
      case 1
      then have "drv_ioctl k ?d AESDCHAR_IOCSEEKTO seekto ?w1 = (-1, ?w1)" "driver_seek k seekto (w_dev w) = None"
        using Some by (cases w; simp add: drv_ioctl_def driver_seek_def EINVAL_def)+
      then show ?thesis
        using op inv1 at0 by (intro exI [of _ ?d] exI [of _ ?w1] exI [of _ "-1"]) simp
    next
      case (2 p)
      let ?w2 = "w\<lparr>w_files := (w_files w)(?d \<mapsto> fresh_file\<lparr>f_pos := p\<rparr>), w_next := Suc (w_next w)\<rparr>"
      have "drv_ioctl k ?d AESDCHAR_IOCSEEKTO seekto ?w1 = (0, ?w2)" "driver_seek k seekto (w_dev w) = Some (unat p)"
        using 2 Some by (cases w; simp add: drv_ioctl_def driver_seek_def)+
      moreover have "drv_inv k ?w2" using assms by (auto simp: drv_inv_def less_Suc_eq)
      ultimately show ?thesis
        using op at [of p] by (intro exI [of _ ?d] exI [of _ ?w1] exI [of _ 0] exI [of _ ?w2]) simp
    qed
  qed
qed

lemma drv_read_law:
  assumes "drv_inv k w" and "0 < n" and "n \<le> MAXBUFFER" and "v_fd (drv_view w) d = Some r"
  shows "\<exists>w' bs r'. drv_read k d n w = (Some bs, w') \<and> drv_inv k w' \<and> r = bs @ r' \<and> (bs = [] \<longrightarrow> r = []) \<and>
        drv_view w' = (drv_view w)\<lparr>v_fd := (v_fd (drv_view w))(d \<mapsto> r')\<rparr>"
proof -
  obtain f where f: "w_files w d = Some f" and r: "r = drop (unat (f_pos f)) (driver_contents (w_dev w))"
    using assms(4) by (auto simp: drv_view_def)
  have op: "opened f" using f assms(1) by (auto simp: drv_inv_def)
  show ?thesis
  proof (cases "w_dev w")
    case None
    have "(v_fd (drv_view w))(d \<mapsto> []) = v_fd (drv_view w)"
      using assms(4) r None by (auto simp: driver_contents_def)
    then show ?thesis
      using f r None assms(1)
      by (intro exI [of _ w] exI [of _ "[]"]) (simp add: drv_read_def driver_contents_def)
  next
    case (Some s)
    have inv: "dev_inv s" using assms(1) Some by (simp add: drv_inv_def)
    obtain bs p s' where rd: "dev_rd (user_kernel k []) f 0 (of_nat n) (f_pos f, s) = (bs, p, s')"
      by (metis prod.exhaust)
    note ready = driver_ready [OF inv op assms(2,3), of k "f_pos f"]
    have s': "s' = s" using dev_rd_step [OF ready rd] by blast
    have split: "r = bs @ drop (unat p) (dev_contents s)" "bs = [] \<longrightarrow> r = []"
      using dev_rd_ok [OF ready rd] s' r Some by (auto simp: driver_contents_def)
    let ?w = "w\<lparr>w_files := (w_files w)(d \<mapsto> f\<lparr>f_pos := p\<rparr>)\<rparr>"
    have "drv_read k d n w = (Some bs, ?w)"
      using f Some rd s' by (cases w) (simp add: drv_read_def)
    moreover have "drv_view ?w = (drv_view w)\<lparr>v_fd := (v_fd (drv_view w))(d \<mapsto> drop (unat p) (dev_contents s))\<rparr>"
      using Some by (auto simp: drv_view_def stream_status_def driver_contents_def)
    moreover have "drv_inv k ?w"
      using assms(1) op by (simp add: drv_inv_def)
    ultimately show ?thesis using split by blast
  qed
qed

text \<open>The streams that are opened and closed, the socket and the descriptors.\<close>

lemma drv_open_close_laws:
  assumes "drv_inv k w"
  shows "\<exists>f w'. drv_fopen FILENAME ''a+'' w = (f, w') \<and> f \<noteq> 0 \<and> drv_inv k w' \<and>
           drv_view w' = (drv_view w)\<lparr>v_left := (v_left (drv_view w))(f := Ended), v_app := insert f (v_app (drv_view w))\<rparr>"
    and "\<exists>g w'. drv_fopen FILENAME ''r'' w = (g, w') \<and> g \<noteq> 0 \<and> g \<notin> v_app (drv_view w) \<and> drv_inv k w' \<and>
           drv_view w' = (drv_view w)\<lparr>v_left := (v_left (drv_view w))(g := Unread)\<rparr>"
    and "drv_inv k (drv_fclose f w) \<and>
      drv_view (drv_fclose f w) = (drv_view w)\<lparr>v_left := (v_left (drv_view w))(f := Ended), v_app := v_app (drv_view w) - {f}\<rparr>"
    and "drv_inv k (drv_close d w) \<and>
      drv_view (drv_close d w) = (drv_view w)\<lparr>v_fd := (v_fd (drv_view w))(d := None)\<rparr>"
proof -
  have fresh: "w_streams w (w_next w) = None"
    using assms by (auto simp: drv_inv_def)
  have nxt: "0 < w_next w" using assms by (simp add: drv_inv_def)
  show "\<exists>f w'. drv_fopen FILENAME ''a+'' w = (f, w') \<and> f \<noteq> 0 \<and> drv_inv k w' \<and>
           drv_view w' = (drv_view w)\<lparr>v_left := (v_left (drv_view w))(f := Ended), v_app := insert f (v_app (drv_view w))\<rparr>"
    using assms nxt by (auto simp: drv_fopen_def drv_inv_def drv_view_def stream_status_def less_Suc_eq)
  show "\<exists>g w'. drv_fopen FILENAME ''r'' w = (g, w') \<and> g \<noteq> 0 \<and> g \<notin> v_app (drv_view w) \<and> drv_inv k w' \<and>
           drv_view w' = (drv_view w)\<lparr>v_left := (v_left (drv_view w))(g := Unread)\<rparr>"
    using assms nxt fresh by (auto simp: drv_fopen_def drv_inv_def drv_view_def stream_status_def less_Suc_eq)
  show "drv_inv k (drv_fclose f w) \<and>
      drv_view (drv_fclose f w) = (drv_view w)\<lparr>v_left := (v_left (drv_view w))(f := Ended), v_app := v_app (drv_view w) - {f}\<rparr>"
    using assms by (auto simp: drv_fclose_def drv_inv_def drv_view_def stream_status_def)
  show "drv_inv k (drv_close d w) \<and>
      drv_view (drv_close d w) = (drv_view w)\<lparr>v_fd := (v_fd (drv_view w))(d := None)\<rparr>"
    using assms by (auto simp: drv_close_def drv_inv_def drv_view_def stream_status_def)
qed

lemma drv_socket_laws:
  assumes "drv_inv k w"
  shows "v_in (drv_view w) = [] \<Longrightarrow> drv_recv sock n w = (Some [], w)"
    and "v_in (drv_view w) = c # cs \<Longrightarrow> length c \<le> n \<Longrightarrow>
      \<exists>w'. drv_recv sock n w = (Some c, w') \<and> drv_inv k w' \<and> drv_view w' = (drv_view w)\<lparr>v_in := cs\<rparr>"
    and "\<exists>w'. drv_send sock bs w = (int (length bs), w') \<and> drv_inv k w' \<and>
           drv_view w' = (drv_view w)\<lparr>v_out := v_out (drv_view w) @ bs\<rparr>"
  using assms
  by (auto simp: drv_recv_def drv_send_def drv_view_def drv_inv_def stream_status_def)

lemma driver_os_sel [simp]:
  "os_fopen (driver_os k) = drv_fopen" "os_fputs (driver_os k) = drv_fputs"
  "os_fflush (driver_os k) = drv_fflush k" "os_fread (driver_os k) = drv_fread k"
  "os_fclose (driver_os k) = drv_fclose" "os_malloc (driver_os k) = (\<lambda>n w. (True, w))"
  "os_recv (driver_os k) = drv_recv" "os_send (driver_os k) = drv_send"
  "os_open (driver_os k) = drv_open" "os_ioctl (driver_os k) = drv_ioctl k"
  "os_read (driver_os k) = drv_read k" "os_close (driver_os k) = drv_close"
  "d_contents (driver_device k) = driver_contents" "d_write (driver_device k) = driver_write k"
  "d_seek (driver_device k) = driver_seek k" "v_dev (drv_view w) = w_dev w"
  "v_in (drv_view w) = w_inbox w" "v_out (drv_view w) = w_outbox w"
  by (simp_all add: driver_os_def driver_device_def drv_view_def)

interpretation on_driver: connection_env "driver_os k" sock "driver_device k" drv_view "drv_inv k"
proof (unfold_locales, goal_cases)
  case 1
  show ?case by (simp add: driver_write_def)
next
  case (2 w n)
  then show ?case using drv_socket_laws(1) [of k w sock n] by auto
next
  case (3 w c cs n)
  then show ?case using drv_socket_laws(2) [of k w c cs n sock] by auto
next
  case (4 w bs)
  then show ?case using drv_socket_laws(3) [of k w sock bs] by auto
next
  case (5 w n)
  then show ?case by simp
next
  case (6 w)
  then show ?case using drv_open_close_laws(1) [of k w] by auto
next
  case (7 w)
  then show ?case using drv_open_close_laws(2) [of k w] by auto
next
  case (8 w f bs)
  then show ?case using drv_save_law [of k w f bs] by auto
next
  case (9 w n g)
  then show ?case using drv_fread_law [of k w n g] by auto
next
  case (10 w f)
  then show ?case using drv_open_close_laws(3) [of k w f] by auto
next
  case (11 w seekto)
  then show ?case using drv_seek_law [of k w seekto] by (auto split: option.splits)
next
  case (12 w n d r)
  then show ?case using drv_read_law [of k w n d r] by auto
next
  case (13 w d)
  then show ?case using drv_open_close_laws(4) [of k w d] by auto
qed

end
