(* ===== verification/Server_Properties.thy ===== *)
theory Server_Properties
  imports Server_World Driver_Properties
begin

section \<open>What a client of the server gets\<close>

text \<open>
  The properties of the connection thread: first in any environment (mutexes, resources,
  failures), then on top of the driver, where the refinement of \<open>Server_Refinement\<close> and the
  correctness of the driver compose to statements about what a client receives.
\<close>

subsection \<open>A connection to start from\<close>

definition connection_start :: "kernel \<Rightarrow> drv_world thread \<Rightarrow> bool" where
  "connection_start k t \<longleftrightarrow>
     drv_inv k (world t) \<and> quiet (drv_view (world t)) \<and> held t = {} \<and> filename (params t) = FILENAME \<and>
     (\<forall>c \<in> set (w_inbox (world t)). c \<noteq> [] \<and> length c \<le> MAXBUFFER)"

lemma connection_runs_on:
  assumes "connection_start k t"
    and "connection_spec (scan_overflow (driver_os k)) (driver_device k) (w_inbox (world t))
           (False, w_dev (world t)) = ((answered, d'), out)"
  shows "\<exists>n u. (\<forall>m \<ge> n. recieve_text m (driver_os k) t = ret u) \<and> conn_done (params u) \<and>
     drv_inv k (world u) \<and> quiet (drv_view (world u)) \<and>
     w_inbox (world u) = [] \<and> w_dev (world u) = d' \<and> w_outbox (world u) = w_outbox (world t) @ out"
proof -
  have "calm t" "Mutex \<notin> held t"
    using assms(1) by (simp_all add: connection_start_def calm_def)
  with on_driver.recieve_text_refines [of k t "istream (params t)" answered d' out] show ?thesis
    using assms unfolding connection_start_def driver_os_sel by blast
qed

lemma connection_runs:
  assumes "connection_start k t"
    and "connection_spec (scan_overflow (driver_os k)) (driver_device k) (w_inbox (world t))
           (False, w_dev (world t)) = ((answered, d'), out)"
  shows "\<exists>n u. (\<forall>m \<ge> n. recieve_text m (driver_os k) t = ret u) \<and> conn_done (params u) \<and>
     w_inbox (world u) = [] \<and> w_dev (world u) = d' \<and> w_outbox (world u) = w_outbox (world t) @ out"
  using connection_runs_on [OF assms] by blast

definition new_connection :: "kstate \<Rightarrow> u8 list list \<Rightarrow> drv_world thread" where
  "new_connection s packets =
     \<lparr>world = \<lparr>w_dev = Some s, w_files = Map.empty, w_streams = Map.empty, w_next = 1,
               w_inbox = packets, w_outbox = []\<rparr>,
      held = {}, owned = [Params, Descriptor 7],
      params = \<lparr>conn_done = False, ostream = 0, filename = FILENAME, istream = 7, pid = 0, conn_s = []\<rparr>,
      activethreads = 0\<rparr>"

lemma new_connection_sel [simp]:
  "world (new_connection s ps) = \<lparr>w_dev = Some s, w_files = Map.empty, w_streams = Map.empty, w_next = 1,
     w_inbox = ps, w_outbox = []\<rparr>" "held (new_connection s ps) = {}"
  "owned (new_connection s ps) = [Params, Descriptor 7]"
  "params (new_connection s ps) =
     \<lparr>conn_done = False, ostream = 0, filename = FILENAME, istream = 7, pid = 0, conn_s = []\<rparr>"
  by (simp_all add: new_connection_def)

lemma new_connection_start:
  "kernel_ok k \<Longrightarrow> dev_inv s \<Longrightarrow> \<forall>c \<in> set ps. c \<noteq> [] \<and> length c \<le> MAXBUFFER \<Longrightarrow>
   connection_start k (new_connection s ps)"
  by (simp add: connection_start_def drv_inv_def quiet_def drv_view_def stream_status_def)

text \<open>
  Claim C4: The connection thread implements its specification. On top of the driver, for
  any packets a client sends, \<open>recieve_text\<close> returns (with enough fuel, and then with any more)
  with the connection marked done and every packet consumed; the device has changed and the
  client has received exactly as \<open>connection_spec\<close> says.
\<close>

theorem connection_refines:
  assumes "connection_start k t"
    and "connection_spec (scan_overflow (driver_os k)) (driver_device k) (w_inbox (world t))
           (False, w_dev (world t)) = ((answered, d'), out)"
  shows "\<exists>n u. (\<forall>m \<ge> n. recieve_text m (driver_os k) t = ret u) \<and> conn_done (params u) \<and>
     w_inbox (world u) = [] \<and> w_dev (world u) = d' \<and> w_outbox (world u) = w_outbox (world t) @ out"
  using assms by (rule connection_runs)

lemma sample_no_command: "parse_seek ovf [120, 10] = None"
  using parse_seek_prefix [of ovf "[120, 10]"]
  by (cases "parse_seek ovf [120, 10]") (auto simp: c_string_def SEEK_PREFIX_def ascii_def)

theorem connection_refines_witness:
  "\<exists>n u. recieve_text n (driver_os (sample_kernel [] [])) (new_connection loaded_state [[120, 10]]) = ret u \<and>
     w_dev (world u) = driver_write (sample_kernel [] []) [120, 10] (Some loaded_state) \<and>
     w_outbox (world u) = driver_contents (driver_write (sample_kernel [] []) [120, 10] (Some loaded_state))"
proof -
  let ?k = "sample_kernel [] []" and ?t = "new_connection loaded_state [[120, 10]]"
  let ?d = "driver_write ?k [120, 10] (Some loaded_state)"
  have spec: "connection_spec (scan_overflow (driver_os ?k)) (driver_device ?k) (w_inbox (world ?t))
      (False, w_dev (world ?t)) = ((True, ?d), driver_contents ?d)"
    by (simp add: chunk_spec_def sample_no_command c_string_def NEWLINE_def Let_def)
  have "connection_start ?k ?t"
    by (rule new_connection_start) (simp_all add: sample_kernel_ok MAXBUFFER_def)
  from connection_refines [OF this spec] obtain n u where
    "\<forall>m \<ge> n. recieve_text m (driver_os ?k) ?t = ret u" "w_dev (world u) = ?d"
    "w_outbox (world u) = w_outbox (world ?t) @ driver_contents ?d" by blast
  then show ?thesis
    by (intro exI [of _ n] exI [of _ u]) simp
qed

subsection \<open>A line\<close>

lemma c_string_line: "is_line l \<Longrightarrow> c_string l = l"
  by (erule is_lineE) (auto simp: c_string_def NEWLINE_def)

lemma entry_alloc_user [simp]: "entry_alloc (user_kernel k bs) = entry_alloc k"
  by (simp add: entry_alloc_def user_kernel_def fun_eq_iff)

text \<open>
  A write of the server behind intact pending bytes: it completes a line, or, in a block that
  a NUL follows, waits for the rest of it.
\<close>

lemma driver_write_text:
  assumes "kernel_ok k" and "dev_inv s" and "entry_size (pending s) = 0 \<or> buffptr (pending s) \<noteq> 0"
    and "bs \<noteq> []" and "length bs \<le> MAXBUFFER"
    and "fst (entry_alloc k (kheap s) (pending s) (of_nat (length bs))) \<noteq> 0"
  shows "is_line (pending_bytes s @ bs) \<Longrightarrow>
      \<exists>s'. driver_write k bs (Some s) = Some s' \<and> dev_inv s' \<and>
        dev_records s' = window (dev_records s @ [pending_bytes s @ bs]) \<and> pending s' = null_entry"
    and "NEWLINE \<notin> set (pending_bytes s @ bs) \<Longrightarrow> 0 \<notin> set (pending_bytes s @ bs) \<Longrightarrow>
      (\<And>h p. \<exists>zs. slack k h p = 0 # zs) \<Longrightarrow>
      \<exists>s'. driver_write k bs (Some s) = Some s' \<and> dev_inv s' \<and> dev_records s' = dev_records s \<and>
        pending_bytes s' = pending_bytes s @ bs \<and> buffptr (pending s') \<noteq> 0"
proof -
  let ?k = "user_kernel k bs" and ?n = "of_nat (length bs) :: 64 word"
  have len: "unat ?n = length bs"
    using assms(5) by (simp add: unat_of_nat_64 MAXBUFFER_def)
  have c: "?n \<noteq> 0" using assms(4) len by (metis length_0_conv unat_0)
  have c2: "unat ?n \<le> MAX_RW_COUNT"
    using assms(5) unfolding len by (simp add: MAX_RW_COUNT_def MAXBUFFER_def)
  have alloc: "fst (entry_alloc ?k (kheap s) (pending s) ?n) \<noteq> 0" using assms(6) by simp
  have cp: "copy_from_user ?k 0 ?n = (0, bs)" using len by simp
  have op: "opened fresh_file" by simp
  note facts = user_kernel_ok [OF assms(1)] assms(2) op c c2 alloc cp assms(3)
  show "\<exists>s'. driver_write k bs (Some s) = Some s' \<and> dev_inv s' \<and>
        dev_records s' = window (dev_records s @ [pending_bytes s @ bs]) \<and> pending s' = null_entry"
    if "is_line (pending_bytes s @ bs)"
  proof -
    from that obtain xs where "pending_bytes s @ bs = xs @ NEWLINE # []" "NEWLINE \<notin> set xs" "0 \<notin> set xs"
      by (rule is_lineE)
    from aesd_write_commit [OF facts this] show ?thesis
      using assms(4) by (auto simp: driver_write_def)
  qed
  show "\<exists>s'. driver_write k bs (Some s) = Some s' \<and> dev_inv s' \<and> dev_records s' = dev_records s \<and>
        pending_bytes s' = pending_bytes s @ bs \<and> buffptr (pending s') \<noteq> 0"
    if "NEWLINE \<notin> set (pending_bytes s @ bs)" "0 \<notin> set (pending_bytes s @ bs)" "\<And>h p. \<exists>zs. slack k h p = 0 # zs"
  proof -
    have "\<And>h p. \<exists>zs. slack ?k h p = 0 # zs" using that(3) by (simp add: user_kernel_def)
    from aesd_write_waits [OF facts that(1,2) this] show ?thesis
      using assms(4) by (auto simp: driver_write_def)
  qed
qed

lemma driver_write_line:
  assumes "kernel_ok k" and "dev_inv s" and "pending s = null_entry" and "is_line l"
    and "length l \<le> MAXBUFFER" and "fst (kzalloc k (kheap s) (of_nat (length l))) \<noteq> 0"
  shows "\<exists>s'. driver_write k l (Some s) = Some s' \<and> dev_records s' = window (dev_records s @ [l]) \<and>
     pending s' = null_entry"
  using driver_write_text(1) [OF assms(1,2) _ _ assms(5)] assms(3,4,6) pending_null [OF assms(3)]
  by (auto simp: entry_alloc_def null_entry_def is_line_def)

text \<open>
  A packet with a newline, behind nothing pending, never faults, also when there is no memory
  for it, and leaves nothing pending.
\<close>

lemma driver_write_newline:
  assumes "kernel_ok k" and "dev_inv s" and "pending s = null_entry"
    and "NEWLINE \<in> set bs" and "0 \<notin> set bs" and "length bs \<le> MAXBUFFER"
  shows "\<exists>s'. driver_write k bs (Some s) = Some s' \<and> dev_inv s' \<and> pending s' = null_entry"
proof -
  let ?k = "user_kernel k bs" and ?n = "of_nat (length bs) :: 64 word"
  have ne: "bs \<noteq> []" using assms(4) by auto
  have len: "unat ?n = length bs"
    using assms(6) by (simp add: unat_of_nat_64 MAXBUFFER_def)
  have c: "?n \<noteq> 0" using ne len by (metis length_0_conv unat_0)
  have c2: "unat ?n \<le> MAX_RW_COUNT"
    using assms(6) unfolding len by (simp add: MAX_RW_COUNT_def MAXBUFFER_def)
  have cp: "copy_from_user ?k 0 ?n = (0, bs)" using len by simp
  have pend: "entry_size (pending s) = 0 \<or> buffptr (pending s) \<noteq> 0" by (simp add: assms(3) null_entry_def)
  have "\<exists>v s'. aesd_write ?k fresh_file 0 ?n s = Inr (v, s') \<and> pending s' = null_entry"
  proof (cases "fst (entry_alloc ?k (kheap s) (pending s) ?n) = 0")
    case True
    then obtain h where "entry_alloc ?k (kheap s) (pending s) ?n = (0, h)" by (metis prod.collapse)
    from aesd_write_enomem [OF assms(2) fresh_sel(1) this, of 0] show ?thesis
      using assms(3) by (simp add: null_entry_def)
  next
    case False
    obtain xs ys where "bs = xs @ NEWLINE # ys" "NEWLINE \<notin> set xs"
      using assms(4) by (meson split_list_first)
    with aesd_write_commit [OF user_kernel_ok [OF assms(1)] assms(2) fresh_sel(1) c c2 False cp pend, of xs ys]
    show ?thesis using assms(5) pending_null [OF assms(3)] by auto
  qed
  then obtain s' where s': "driver_write k bs (Some s) = Some s'" "pending s' = null_entry"
    using ne by (auto simp: driver_write_def)
  then show ?thesis
    using driver_write_inv [OF assms(1,2) _ s'(1)] assms(6) by (simp add: MAX_RW_COUNT_def MAXBUFFER_def)
qed

text \<open>Memory for every line that will be written.\<close>

fun memory_for :: "kernel \<Rightarrow> kstate \<Rightarrow> u8 list list \<Rightarrow> bool" where
  "memory_for k s [] = True"
| "memory_for k s (l # ls) \<longleftrightarrow>
     fst (kzalloc k (kheap s) (of_nat (length l))) \<noteq> 0 \<and>
     (case driver_write k l (Some s) of None \<Rightarrow> False | Some s' \<Rightarrow> memory_for k s' ls)"

lemma sample_memory_for:
  "memory_for (sample_kernel [] []) fresh_state [[120, 10], [121, 10]]"
  "memory_for (sample_kernel [] []) fresh_state [[121, 10], [120, 10]]"
  by code_simp+

text \<open>What the device holds after each of a list of lines.\<close>

lemma window_history:
  "map (\<lambda>i. concat (window (rs @ take (Suc i) (l # ls)))) [0..<length (l # ls)] =
   concat (window (rs @ [l])) #
   map (\<lambda>i. concat (window (window (rs @ [l]) @ take (Suc i) ls))) [0..<length ls]"
  by (simp add: map_upt_Suc window_window del: upt_Suc)

text \<open>What the specification says of a connection with one line.\<close>

lemma line_spec:
  assumes "kernel_ok k" and "dev_inv s" and "pending s = null_entry" and "is_line l" and "length l \<le> MAXBUFFER"
    and "parse_seek ovf l = None" and "fst (kzalloc k (kheap s) (of_nat (length l))) \<noteq> 0"
  shows "\<exists>s'. connection_spec ovf (driver_device k) [l] (False, Some s) =
       ((True, Some s'), concat (window (dev_records s @ [l]))) \<and>
     driver_write k l (Some s) = Some s' \<and> dev_records s' = window (dev_records s @ [l]) \<and>
     pending s' = null_entry \<and> dev_inv s'"
proof -
  from driver_write_line [OF assms(1-5,7)] obtain s' where
    s': "driver_write k l (Some s) = Some s'" "dev_records s' = window (dev_records s @ [l])"
    "pending s' = null_entry" by blast
  have "NEWLINE \<in> set l"
    using assms(4) by (rule is_lineE) simp
  then have "connection_spec ovf (driver_device k) [l] (False, Some s) =
       ((True, Some s'), concat (window (dev_records s @ [l])))"
    using assms(6) s' c_string_line [OF assms(4)]
    by (simp add: chunk_spec_def driver_contents_def dev_contents_def)
  moreover have "dev_inv s'"
    using driver_write_inv [OF assms(1,2) _ s'(1)] assms(5) by (simp add: MAX_RW_COUNT_def MAXBUFFER_def)
  ultimately show ?thesis using s' by blast
qed

lemma line_connection:
  assumes "connection_start k t" and "w_dev (world t) = Some s" and "pending s = null_entry"
    and "w_inbox (world t) = [l]" and "is_line l" and "parse_seek (scan_overflow (driver_os k)) l = None"
    and "fst (kzalloc k (kheap s) (of_nat (length l))) \<noteq> 0"
  shows "\<exists>n u s'. (\<forall>m \<ge> n. recieve_text m (driver_os k) t = ret u) \<and> drv_inv k (world u) \<and>
     quiet (drv_view (world u)) \<and> driver_write k l (Some s) = Some s' \<and> w_dev (world u) = Some s' \<and>
     dev_records s' = window (dev_records s @ [l]) \<and> pending s' = null_entry \<and>
     w_outbox (world u) = w_outbox (world t) @ concat (window (dev_records s @ [l]))"
proof -
  have "kernel_ok k" "dev_inv s" "length l \<le> MAXBUFFER"
    using assms(1,2,4) by (auto simp: connection_start_def drv_inv_def)
  from line_spec [OF this(1,2) assms(3,5) this(3) assms(6,7)] obtain s' where
    spec: "connection_spec (scan_overflow (driver_os k)) (driver_device k) (w_inbox (world t))
      (False, w_dev (world t)) = ((True, Some s'), concat (window (dev_records s @ [l])))"
    and s': "driver_write k l (Some s) = Some s'" "dev_records s' = window (dev_records s @ [l])"
      "pending s' = null_entry"
    unfolding assms(2,4) by blast
  from connection_runs_on [OF assms(1) spec] show ?thesis using s' by blast
qed

text \<open>
  Claim C10: A client that sends one line gets the device back. If the line is not a seek
  command and memory is available, the device then holds the last ten of its records and the
  line, and the client has received exactly the contents of the device, its own line last.
\<close>

theorem client_line_answered:
  assumes "connection_start k t" and "w_dev (world t) = Some s" and "pending s = null_entry"
    and "w_inbox (world t) = [l]" and "is_line l" and "parse_seek (scan_overflow (driver_os k)) l = None"
    and "fst (kzalloc k (kheap s) (of_nat (length l))) \<noteq> 0"
  shows "\<exists>n u s'. (\<forall>m \<ge> n. recieve_text m (driver_os k) t = ret u) \<and> w_dev (world u) = Some s' \<and>
     dev_records s' = window (dev_records s @ [l]) \<and>
     w_outbox (world u) = w_outbox (world t) @ concat (window (dev_records s @ [l]))"
  using line_connection [OF assms] by blast

lemma sample_connection_start:
  "\<forall>c \<in> set ps. c \<noteq> [] \<and> length c \<le> MAXBUFFER \<Longrightarrow>
   connection_start (sample_kernel [] []) (new_connection loaded_state ps)"
  by (rule new_connection_start) (simp_all add: sample_kernel_ok)

theorem client_line_answered_witness:
  "\<exists>n u. recieve_text n (driver_os (sample_kernel [] [])) (new_connection loaded_state [[120, 10]]) = ret u \<and>
     w_outbox (world u) = [97, 98, 10, 99, 10, 120, 10]"
proof -
  let ?k = "sample_kernel [] []" and ?t = "new_connection loaded_state [[120, 10]]"
  have mem: "fst (kzalloc ?k (kheap loaded_state) (of_nat (length [120 :: u8, 10]))) \<noteq> 0"
    by (simp add: sample_kernel_def sample_kzalloc_def sample_addrs_def sample_max_def)
  have line: "is_line [120, 10]" by (simp add: is_line_def NEWLINE_def)
  have start: "connection_start ?k ?t" by (rule sample_connection_start) (simp add: MAXBUFFER_def)
  obtain n u where "\<forall>m \<ge> n. recieve_text m (driver_os ?k) ?t = ret u"
    "w_outbox (world u) = w_outbox (world ?t) @ concat (window (dev_records loaded_state @ [[120, 10]]))"
    using client_line_answered [OF start, of loaded_state "[120, 10]"] mem line sample_no_command by auto
  then show ?thesis
    by (intro exI [of _ n] exI [of _ u]) (simp add: window_def)
qed

subsection \<open>One answer per connection\<close>

lemma connection_spec_answered:
  "\<forall>c \<in> set cs. parse_seek ovf c = None \<Longrightarrow> \<exists>d'. connection_spec ovf D cs (True, d) = ((True, d'), [])"
proof (induction cs arbitrary: d)
  case (Cons c cs)
  then obtain d' where "connection_spec ovf D cs (True, d_write D (c_string c) d) = ((True, d'), [])"
    by fastforce
  then show ?case
    using Cons.prems by (simp add: chunk_spec_def Let_def)
qed simp

lemma connection_spec_unanswered:
  "\<forall>x \<in> set pre. parse_seek ovf x = None \<and> NEWLINE \<notin> set (c_string x) \<Longrightarrow>
   connection_spec ovf D (pre @ cs) (False, d) =
     connection_spec ovf D cs (False, fold (\<lambda>x. d_write D (c_string x)) pre d)"
  by (induction pre arbitrary: d) (simp_all add: chunk_spec_def Let_def split: prod.split)

text \<open>
  Claim C30: A connection whose packets are all text is answered once. Let a client send, without
  any seek command, some packets without a newline, one with a newline, and anything after it:
  what it has received at the end is the contents of the device after the first packet with a
  newline, and nothing more. The stream that \<open>sendfile\<close> reads from is opened once and stays at
  its end.
\<close>

theorem connection_answers_once:
  assumes "connection_start k t" and "w_inbox (world t) = pre @ c # post"
    and "\<forall>x \<in> set pre. NEWLINE \<notin> set (c_string x)" and "NEWLINE \<in> set (c_string c)"
    and "\<forall>x \<in> set (pre @ c # post). parse_seek (scan_overflow (driver_os k)) x = None"
  shows "\<exists>n u. (\<forall>m \<ge> n. recieve_text m (driver_os k) t = ret u) \<and>
     w_outbox (world u) = w_outbox (world t) @
       driver_contents (fold (\<lambda>x. driver_write k (c_string x)) (pre @ [c]) (w_dev (world t)))"
proof -
  let ?ovf = "scan_overflow (driver_os k)" and ?D = "driver_device k"
  let ?d = "fold (\<lambda>x. driver_write k (c_string x)) (pre @ [c]) (w_dev (world t))"
  obtain d' where "connection_spec ?ovf ?D post (True, ?d) = ((True, d'), [])"
    using connection_spec_answered [of post ?ovf ?D] assms(5) by auto
  moreover have "connection_spec ?ovf ?D (w_inbox (world t)) (False, w_dev (world t)) =
      connection_spec ?ovf ?D (c # post) (False, fold (\<lambda>x. driver_write k (c_string x)) pre (w_dev (world t)))"
    using connection_spec_unanswered [of pre ?ovf ?D "c # post"] assms(2,3,5) by simp
  ultimately have "connection_spec ?ovf ?D (w_inbox (world t)) (False, w_dev (world t)) =
      ((True, d'), driver_contents ?d)"
    using assms(4,5) by (simp add: chunk_spec_def Let_def)
  from connection_runs [OF assms(1) this] show ?thesis by blast
qed

theorem connection_answers_once_witness:
  "\<exists>n u. recieve_text n (driver_os (sample_kernel [] []))
       (new_connection loaded_state [[120, 10], [120, 10]]) = ret u \<and>
     w_outbox (world u) = driver_contents (driver_write (sample_kernel [] []) [120, 10] (Some loaded_state))"
proof -
  let ?k = "sample_kernel [] []" and ?t = "new_connection loaded_state [[120, 10], [120, 10]]"
  have start: "connection_start ?k ?t" by (rule sample_connection_start) (simp add: MAXBUFFER_def)
  obtain n u where "\<forall>m \<ge> n. recieve_text m (driver_os ?k) ?t = ret u"
    "w_outbox (world u) = w_outbox (world ?t) @
       driver_contents (driver_write ?k (c_string [120, 10]) (w_dev (world ?t)))"
    using connection_answers_once [OF start, of "[]" "[120, 10]" "[[120, 10]]"] sample_no_command
    by (auto simp: c_string_def NEWLINE_def)
  then show ?thesis
    by (intro exI [of _ n] exI [of _ u]) (simp add: c_string_def)
qed

subsection \<open>A seek command\<close>

lemma driver_seek_locates:
  assumes "dev_inv s" and "out_offs (circular_buffer (aesd_device s)) = 0"
    and "unat (write_cmd q) < length (dev_records s)"
    and "unat (write_cmd_offset q) < length (dev_records s ! unat (write_cmd q))"
  shows "\<exists>p. driver_seek k q (Some s) = Some p \<and>
    drop p (dev_contents s) =
      drop (unat (write_cmd_offset q)) (dev_records s ! unat (write_cmd q)) @
      concat (drop (Suc (unat (write_cmd q))) (dev_records s))"
proof -
  have "copy_from_user (user_kernel k (seekto_bytes q)) 0 8 = (0, seekto_bytes q)"
    by (simp add: seekto_bytes_def)
  from aesd_ioctl_locates [OF assms(1) fresh_sel(1) assms(2) this] assms(3,4) obtain p where
    "aesd_ioctl (user_kernel k (seekto_bytes q)) fresh_file AESDCHAR_IOCSEEKTO 0 s =
       Inr (0, fresh_file\<lparr>f_pos := p\<rparr>, s)"
    "locate (map length (dev_records s)) (unat p) = Some (unat (write_cmd q), unat (write_cmd_offset q))"
    by auto
  then show ?thesis
    using drop_concat_locate by (auto simp: driver_seek_def dev_contents_def)
qed

text \<open>
  Claim C21: A client that sends a seek command gets the device from there. While no record
  has been dropped, the command for byte \<open>j\<close> of record \<open>i\<close>, if there is one, is answered with
  the rest of that record and all later ones, and the device is not changed: the command
  itself is not written to it.
\<close>

theorem client_seek_answered:
  assumes "connection_start k t" and "w_dev (world t) = Some s"
    and "out_offs (circular_buffer (aesd_device s)) = 0"
    and "w_inbox (world t) = [print_seek q @ [NEWLINE]]"
    and "unat (write_cmd q) < length (dev_records s)"
    and "unat (write_cmd_offset q) < length (dev_records s ! unat (write_cmd q))"
  shows "\<exists>n u. (\<forall>m \<ge> n. recieve_text m (driver_os k) t = ret u) \<and> w_dev (world u) = Some s \<and>
     w_outbox (world u) = w_outbox (world t) @
       drop (unat (write_cmd_offset q)) (dev_records s ! unat (write_cmd q)) @
       concat (drop (Suc (unat (write_cmd q))) (dev_records s))"
proof -
  have "dev_inv s"
    using assms(1,2) by (simp add: connection_start_def drv_inv_def)
  from driver_seek_locates [OF this assms(3,5,6)] obtain p where
    p: "driver_seek k q (Some s) = Some p"
    "drop p (dev_contents s) = drop (unat (write_cmd_offset q)) (dev_records s ! unat (write_cmd q)) @
      concat (drop (Suc (unat (write_cmd q))) (dev_records s))" by blast
  have "parse_seek ovf (print_seek q @ [NEWLINE]) = Some q" for ovf
    by (rule parse_printed) (simp add: no_digit_next_def c_string_def NEWLINE_def is_digit_def)
  then have "connection_spec (scan_overflow (driver_os k)) (driver_device k) (w_inbox (world t))
      (False, w_dev (world t)) = ((False, Some s), drop p (dev_contents s))"
    using assms(2,4) p(1) by (simp add: chunk_spec_def driver_contents_def)
  from connection_runs [OF assms(1) this] show ?thesis unfolding p(2) by blast
qed

theorem client_seek_answered_witness:
  "\<exists>n u. recieve_text n (driver_os (sample_kernel [] []))
       (new_connection loaded_state [print_seek \<lparr>write_cmd = 0, write_cmd_offset = 1\<rparr> @ [NEWLINE]]) = ret u \<and>
     w_outbox (world u) = [98, 10, 99, 10]"
proof -
  let ?q = "\<lparr>write_cmd = 0, write_cmd_offset = 1\<rparr>"
  let ?k = "sample_kernel [] []" and ?t = "new_connection loaded_state [print_seek ?q @ [NEWLINE]]"
  have "length (print_seek ?q) = 22"
    by (simp add: print_seek_def SEEK_PREFIX_def ascii_def print_dec.simps)
  then have start: "connection_start ?k ?t"
    by (intro sample_connection_start) (simp add: MAXBUFFER_def)
  obtain n u where "\<forall>m \<ge> n. recieve_text m (driver_os ?k) ?t = ret u"
    "w_outbox (world u) = [98, 10, 99, 10]"
    using client_seek_answered [OF start, of loaded_state ?q] by auto
  then show ?thesis
    by (intro exI [of _ n] exI [of _ u]) simp
qed

subsection \<open>In any environment\<close>

lemma run_started:
  assumes "calm t" and "recv_loop fuel os g (started t f g w) = ret v"
  shows "held v = insert Mutex (held t)" and "params v = (params t)\<lparr>ostream := f\<rparr>"
    and "activethreads v = activethreads t"
  using recv_loop_tidy [of "started t f g w" fuel os g] assms by (simp_all add: same_thread_def)

text \<open>
  Claim C23: The connection thread leaves no mutex locked. In any environment, and whatever
  calls fail, \<open>recieve_text\<close> started without mutexes never locks one it already holds, and
  when it returns it holds none.
\<close>

theorem recieve_text_mutexes:
  assumes "held t = {}"
  shows "recieve_text fuel os t \<noteq> fault Deadlock \<and>
         (\<forall>u. recieve_text fuel os t = ret u \<longrightarrow> held u = {})"
proof -
  have m: "Mutex \<notin> held t" and c: "calm t" using assms by (simp_all add: calm_def)
  from m show ?thesis
  proof (cases rule: recieve_text_cases [where os = os])
    case (runs f w w' g w'')
    let ?m = "recv_loop fuel os g (started t f g w'')"
    have "?m \<noteq> fault Deadlock"
      using recv_loop_tidy [of "started t f g w''" fuel os g] c by (auto simp: tidy_def)
    moreover have "finish_connection os g v \<noteq> fault Deadlock" for v
      by (simp add: finish_connection_eq)
    ultimately have "bindx ?m (finish_connection os g) \<noteq> fault Deadlock"
      by (auto simp: bindx_def split: option.splits sum.splits)
    moreover have "held u = {}" if "bindx ?m (finish_connection os g) = ret u" for u
      using that
    proof (rule bindx_retE)
      fix v assume v: "?m = ret v" "finish_connection os g v = ret u"
      show "held u = {}"
        using v(2) run_started(1) [OF c v(1)] assms by (auto simp: finish_connection_eq split: if_splits)
    qed
    ultimately show ?thesis
      unfolding runs(5) by blast
  qed (use assms in auto)
qed

theorem recieve_text_mutexes_witness:
  "recieve_text 5 (driver_os (sample_kernel [] [])) (new_connection loaded_state []) \<noteq> fault Deadlock"
  using recieve_text_mutexes [of "new_connection loaded_state []" 5 "driver_os (sample_kernel [] [])"] by simp

lemma remove_blocks:
  "remove1 Params (remove1 (Stream f) (remove1 (Descriptor d) (remove1 (Stream g) (remove1 Heap_block
     (replicate n Heap_block @ [Stream g, Heap_block, Stream f, Params, Descriptor d]))))) =
   replicate n Heap_block"
  by (cases n) (auto simp: remove1_append replicate_append_same)

text \<open>
  Claim C22: The connection thread gives back what it owns. In any environment, a thread that
  completes has freed its parameters and its buffer and closed the socket and both streams;
  all it may leave behind are buffers of \<open>sendfile\<close>, and none if \<open>send\<close> always sends all it is
  given.
\<close>

theorem recieve_text_resources:
  assumes "held t = {}" and "owned t = [Params, Descriptor (istream (params t))]"
    and "\<not> conn_done (params t)"
    and "recieve_text fuel os t = ret u" and "conn_done (params u)"
  shows "\<exists>n. owned u = replicate n Heap_block \<and> (all_sent os \<longrightarrow> n = 0)"
proof -
  have m: "Mutex \<notin> held t" and c: "calm t" using assms(1) by (simp_all add: calm_def)
  from m show ?thesis
  proof (cases rule: recieve_text_cases [where os = os])
    case (runs f w w' g w'')
    then obtain v where v: "recv_loop fuel os g (started t f g w'') = ret v"
      "finish_connection os g v = ret u"
      using assms(4) by auto
    have g: "g \<noteq> 0" using v(2) by (auto simp: finish_connection_eq split: if_splits)
    obtain n where n: "owned v = replicate n Heap_block @ [Stream g, Heap_block, Stream f, Params,
        Descriptor (istream (params t))]" "all_sent os \<longrightarrow> n = 0"
      using recv_loop_leaks [OF v(1)] g assms(2) by (auto simp: leaks_def)
    have "owned u = replicate n Heap_block"
      using v(2) n(1) run_started(2) [OF c v(1)] remove_blocks
      by (auto simp: finish_connection_eq split: if_splits)
    with n(2) show ?thesis by blast
  qed (use assms(3-5) in auto)
qed

lemma driver_all_sent: "all_sent (driver_os k)"
  by (simp add: all_sent_def drv_send_def)

theorem recieve_text_resources_witness:
  "\<exists>n u. recieve_text n (driver_os (sample_kernel [] [])) (new_connection loaded_state [[120, 10]]) = ret u \<and>
     owned u = []"
proof -
  let ?k = "sample_kernel [] []" and ?t = "new_connection loaded_state [[120, 10]]"
  have start: "connection_start ?k ?t" by (rule sample_connection_start) (simp add: MAXBUFFER_def)
  obtain a d o' where "connection_spec (scan_overflow (driver_os ?k)) (driver_device ?k) (w_inbox (world ?t))
      (False, w_dev (world ?t)) = ((a, d), o')" by (metis prod.exhaust)
  from connection_runs [OF start this] obtain n u where
    u: "recieve_text n (driver_os ?k) ?t = ret u" "conn_done (params u)" by blast
  then have "owned u = []"
    using recieve_text_resources [of ?t n "driver_os ?k" u] driver_all_sent [of ?k] by auto
  with u(1) show ?thesis by blast
qed

text \<open>
  A connection that cannot open the device is abandoned. When \<open>fopen\<close> fails, the
  thread returns with everything it was given still in its hands: the client's socket is not
  closed, the parameters are not freed and the connection is not marked done.
\<close>

theorem recieve_text_abandons:
  assumes "os_fopen os FILENAME ''a+'' (world t) = (0, w)" and "\<not> conn_done (params t)"
  shows "\<exists>u. recieve_text fuel os t = ret u \<and> owned u = owned t \<and> \<not> conn_done (params u) \<and>
             activethreads u = activethreads t"
  using assms by (simp add: recieve_text_def begin_connection_def)

definition no_device_os :: "drv_world os" where
  "no_device_os = (driver_os (sample_kernel [] []))\<lparr>os_fopen := (\<lambda>name mode w. (0, w))\<rparr>"

theorem recieve_text_abandons_witness:
  "\<exists>u. recieve_text 0 no_device_os (new_connection loaded_state []) = ret u \<and>
       owned u = [Params, Descriptor 7] \<and> \<not> conn_done (params u)"
  using recieve_text_abandons [of no_device_os "new_connection loaded_state []"
      "world (new_connection loaded_state [])" 0]
  by (auto simp: no_device_os_def)

text \<open>
  A failed \<open>recv\<close> corrupts memory. With the device open and memory available, if
  the first \<open>recv\<close> of a connection returns -1, the thread writes the terminating NUL outside
  its buffer: the -1 is stored in an unsigned length and used as an index.
\<close>

theorem recv_error_faults:
  assumes "held t = {}"
    and "os_fopen os FILENAME ''a+'' (world t) = (f, w)" and "f \<noteq> 0"
    and "os_malloc os (MAXBUFFER + 1) w = (True, w')"
    and "os_fopen os (filename (params t)) ''r'' w' = (g, w'')"
    and "fst (os_recv os (istream (params t)) MAXBUFFER w'') = None"
  shows "recieve_text (Suc fuel) os t = fault OutOfBounds"
proof -
  obtain x where x: "os_recv os (istream (params t)) MAXBUFFER w'' = (None, x)"
    using assms(6) by (cases "os_recv os (istream (params t)) MAXBUFFER w''") auto
  have "Mutex \<notin> held t" using assms(1) by simp
  then show ?thesis
    by (cases rule: recieve_text_cases [where os = os]) (use assms(2-5) x in auto)
qed

definition no_recv_os :: "drv_world os" where
  "no_recv_os = (driver_os (sample_kernel [] []))\<lparr>os_recv := (\<lambda>s n w. (None, w))\<rparr>"

theorem recv_error_faults_witness:
  "recieve_text 1 no_recv_os (new_connection loaded_state []) = fault OutOfBounds"
  using recv_error_faults [of "new_connection loaded_state []" no_recv_os
      "fst (drv_fopen FILENAME ''a+'' (world (new_connection loaded_state [])))"
      "snd (drv_fopen FILENAME ''a+'' (world (new_connection loaded_state [])))" _ _ _ 0]
  by (simp add: no_recv_os_def drv_fopen_def)

text \<open>
  A device that cannot be read crashes the thread. The failure of the second
  \<open>fopen\<close> is only logged; the thread then never returns normally, whatever the client does:
  at the latest it closes the null stream.
\<close>

theorem unreadable_device_faults:
  assumes "held t = {}"
    and "os_fopen os FILENAME ''a+'' (world t) = (f, w)" and "f \<noteq> 0"
    and "os_malloc os (MAXBUFFER + 1) w = (True, w')"
    and "os_fopen os (filename (params t)) ''r'' w' = (0, w'')"
  shows "recieve_text fuel os t \<noteq> ret u"
proof -
  have "Mutex \<notin> held t" using assms(1) by simp
  then show ?thesis
    by (cases rule: recieve_text_cases [where os = os])
      (use assms(2-5) in \<open>auto simp: finish_connection_eq\<close>)
qed

definition no_read_os :: "drv_world os" where
  "no_read_os = (driver_os (sample_kernel [] []))
     \<lparr>os_fopen := (\<lambda>name mode w. if mode = ''r'' then (0, w) else drv_fopen name mode w)\<rparr>"

theorem unreadable_device_faults_witness:
  "recieve_text 9 no_read_os (new_connection loaded_state []) \<noteq> ret (new_connection loaded_state [])"
  using unreadable_device_faults [of "new_connection loaded_state []" no_read_os
      "fst (drv_fopen FILENAME ''a+'' (world (new_connection loaded_state [])))"
      "snd (drv_fopen FILENAME ''a+'' (world (new_connection loaded_state [])))"
      "snd (drv_fopen FILENAME ''a+'' (world (new_connection loaded_state [])))"]
  by (simp add: no_read_os_def drv_fopen_def)

end
