(* ===== verification/Server_Concurrent.thy ===== *)
theory Server_Concurrent
  imports Server_Properties
begin

section \<open>Clients at the same time\<close>

text \<open>
  The threads of several connections of \<^verbatim>\<open>server/aesdsocket_linkedlists.c\<close> run interleaved, on
  one device. A thread is at one of five places of \<open>recieve_text\<close>; its steps are the parts of
  that function: opening the streams, locking \<open>mutex\<close>, one pass of the receive loop, the last
  pass with the unlocking, closing. Between two steps of a thread any other may run. Clients
  connect, send packets and close their end at any time; a thread whose client has sent nothing
  more waits in \<open>recv\<close>. The theorems say that the mutex makes the connections atomic: whatever
  the interleaving, the device and every client end as if the connections had been served one
  after the other, in the order in which their threads got the mutex; that all of them end once
  their clients have closed; and that one client that does not keeps all others waiting.
\<close>

subsection \<open>Stream numbers only grow\<close>

lemma drv_next:
  "w_next (snd (drv_fopen name mode w)) = Suc (w_next w)"
  "w_next (snd (drv_fputs bs f w)) = w_next w"
  "w_next (drv_fflush k f w) = w_next w"
  "w_next (snd (drv_fread k g n w)) = w_next w"
  "w_next (drv_fclose f w) = w_next w"
  "w_next (snd (drv_recv sock n w)) = w_next w"
  "w_next (snd (drv_send sock bs w)) = w_next w"
  "w_next (snd (drv_open name w)) = Suc (w_next w)"
  "w_next (snd (drv_ioctl k d cmd seekto w)) = w_next w"
  "w_next (snd (drv_read k d n w)) = w_next w"
  "w_next (drv_close d w) = w_next w"
  by (auto simp: drv_fopen_def drv_fputs_def drv_fflush_def drv_fread_def drv_fclose_def drv_recv_def
      drv_send_def drv_open_def drv_ioctl_def drv_read_def drv_close_def
      split: option.splits stream.splits prod.splits bool.splits sum.splits list.splits)

text \<open>The interface once more, with an invariant that bounds the numbers already used.\<close>

definition drv_inv_from :: "kernel \<Rightarrow> nat \<Rightarrow> drv_world \<Rightarrow> bool" where
  "drv_inv_from k N w \<longleftrightarrow> drv_inv k w \<and> N \<le> w_next w"

interpretation bounded: connection_env "driver_os k" sock "driver_device k" drv_view "drv_inv_from k N"
proof (unfold_locales, goal_cases)
  case 1
  show ?case by (rule on_driver.write_nothing)
next
  case (2 w n)
  then show ?case
    using on_driver.recv_end [where k = k and w = w and n = n and sock = sock] drv_next(6) [of sock n w] by (auto simp: drv_inv_from_def)
next
  case (3 w c cs n)
  then show ?case
    using on_driver.recv_next [where k = k and w = w and c = c and cs = cs and n = n and sock = sock] drv_next(6) [of sock n w] by (auto simp: drv_inv_from_def)
next
  case (4 w bs)
  then show ?case
    using on_driver.send_all [where k = k and w = w and bs = bs and sock = sock] drv_next(7) [of sock bs w] by (auto simp: drv_inv_from_def)
next
  case (5 w n)
  then show ?case by simp
next
  case (6 w)
  then show ?case
    using on_driver.fopen_append [of k w] drv_next(1) [of FILENAME "''a+''" w] by (auto simp: drv_inv_from_def)
next
  case (7 w)
  then show ?case
    using on_driver.fopen_read [of k w] drv_next(1) [of FILENAME "''r''" w] by (auto simp: drv_inv_from_def)
next
  case (8 w f bs)
  then show ?case
    using on_driver.fputs_flush [of k w f bs] drv_next(2) [of bs f w] by (auto simp: drv_inv_from_def drv_next(3))
next
  case (9 w n g)
  then show ?case
    using on_driver.fread_next [of k w n g] drv_next(4) [of k g n w] by (auto simp: drv_inv_from_def)
next
  case (10 w f)
  then show ?case
    using on_driver.fclose_ok [of k w f] by (auto simp: drv_inv_from_def drv_next(5))
next
  case (11 w seekto)
  obtain d w1 r w2 where o: "os_open (driver_os k) FILENAME w = (d, w1)" "d \<noteq> -1"
    "os_ioctl (driver_os k) d AESDCHAR_IOCSEEKTO seekto w1 = (r, w2)" "drv_inv k w2"
    "case d_seek (driver_device k) seekto (v_dev (drv_view w)) of
       None \<Rightarrow> r = -1 \<and> drv_view w2 = (drv_view w)\<lparr>v_fd := (v_fd (drv_view w))
           (d \<mapsto> d_contents (driver_device k) (v_dev (drv_view w)))\<rparr>
     | Some p \<Rightarrow> r \<noteq> -1 \<and> drv_view w2 = (drv_view w)\<lparr>v_fd := (v_fd (drv_view w))
           (d \<mapsto> drop p (d_contents (driver_device k) (v_dev (drv_view w))))\<rparr>"
    using on_driver.open_seek [of k w seekto] 11 by (auto simp: drv_inv_from_def)
  moreover have "drv_inv_from k N w2"
    using o 11 drv_next(8) [of FILENAME w] drv_next(9) [of k d AESDCHAR_IOCSEEKTO seekto w1]
    by (simp add: drv_inv_from_def)
  ultimately show ?case by blast
next
  case (12 w n d r)
  then show ?case
    using on_driver.read_next [of k w n d r] drv_next(10) [of k d n w] by (auto simp: drv_inv_from_def)
next
  case (13 w d)
  then show ?case
    using on_driver.close_ok [of k w d] by (auto simp: drv_inv_from_def drv_next(11))
qed

subsection \<open>The site\<close>

text \<open>
  Where a thread is: before opening its streams, before the mutex, in the receive loop, past
  it, and returned. The stream its answers come from is the argument.
\<close>

datatype stage = Arrived | Opened file_ptr | InMutex file_ptr | Released file_ptr | Closed

text \<open>
  What the threads share is one world; of the world stored with a thread only the packets
  not yet received and the bytes sent count, which belong to its socket. \<open>hung_up\<close> are the clients
  that have closed their end. \<open>sent\<close> and \<open>lock_order\<close> only record what happened: the packets of each
  client, and the threads that got the mutex.
\<close>

record site =
  shared :: drv_world
  peers :: "nat \<rightharpoonup> stage \<times> drv_world thread"
  sent :: "nat \<Rightarrow> u8 list list"
  lock_order :: "nat list"
  hung_up :: "nat set"

definition load :: "site \<Rightarrow> drv_world thread \<Rightarrow> drv_world thread" where
  "load S t = t\<lparr>world := (shared S)\<lparr>w_inbox := w_inbox (world t), w_outbox := w_outbox (world t)\<rparr>\<rparr>"

definition put :: "nat \<Rightarrow> stage \<Rightarrow> drv_world thread \<Rightarrow> site \<Rightarrow> site" where
  "put c st t S = S\<lparr>shared := world t, peers := (peers S)(c \<mapsto> (st, t))\<rparr>"

definition mutex_free :: "site \<Rightarrow> bool" where
  "mutex_free S \<longleftrightarrow> (\<forall>c st t. peers S c = Some (st, t) \<longrightarrow> Mutex \<notin> held t)"

text \<open>
  The steps of the threads, each with the function of the server that it runs. \<open>recv\<close> blocks: a
  pass of the loop is possible only when a packet is there, and the last one, in which \<open>recv\<close>
  reports the end, only when the client has closed its end.
\<close>

inductive work_step :: "kernel \<Rightarrow> site \<Rightarrow> site \<Rightarrow> bool" for k where
  opens: "peers S c = Some (Arrived, t) \<Longrightarrow> begin_connection (driver_os k) (load S t) = (Some g, u) \<Longrightarrow>
     work_step k S (put c (Opened g) u S)"
| gives_up: "peers S c = Some (Arrived, t) \<Longrightarrow> begin_connection (driver_os k) (load S t) = (None, u) \<Longrightarrow>
     work_step k S (put c Closed u S)"
| locks: "peers S c = Some (Opened g, t) \<Longrightarrow> mutex_free S \<Longrightarrow> pthread_mutex_lock Mutex (load S t) = ret u \<Longrightarrow>
     work_step k S ((put c (InMutex g) u S)\<lparr>lock_order := lock_order S @ [c]\<rparr>)"
| passes: "peers S c = Some (InMutex g, t) \<Longrightarrow> recv_pass n (driver_os k) g (load S t) = ret (True, u) \<Longrightarrow>
     w_inbox (world t) \<noteq> [] \<Longrightarrow> work_step k S (put c (InMutex g) u S)"
| unlocks: "peers S c = Some (InMutex g, t) \<Longrightarrow> recv_pass n (driver_os k) g (load S t) = ret (False, u) \<Longrightarrow>
     w_inbox (world t) = [] \<Longrightarrow> c \<in> hung_up S \<Longrightarrow> work_step k S (put c (Released g) (pthread_mutex_unlock Mutex u) S)"
| closes: "peers S c = Some (Released g, t) \<Longrightarrow> close_connection (driver_os k) g (load S t) = ret u \<Longrightarrow>
     work_step k S (put c Closed u S)"

text \<open>A connection is accepted: its thread starts, with the packets its client has sent so far.\<close>

definition arrive :: "nat \<Rightarrow> fd \<Rightarrow> u8 list list \<Rightarrow> site \<Rightarrow> site" where
  "arrive c sock packets S =
     S\<lparr>peers := (peers S)(c \<mapsto> (Arrived,
         \<lparr>world = (shared S)\<lparr>w_inbox := packets, w_outbox := []\<rparr>, held = {}, owned = [Params, Descriptor sock],
          params = \<lparr>conn_done = False, ostream = 0, filename = FILENAME, istream = sock, pid = 0, conn_s = []\<rparr>,
          activethreads = 0\<rparr>)),
       sent := (sent S)(c := packets)\<rparr>"

definition site_start :: "drv_world \<Rightarrow> site" where
  "site_start w = \<lparr>shared = w, peers = Map.empty, sent = (\<lambda>_. []), lock_order = [], hung_up = {}\<rparr>"

definition packets_ok :: "u8 list list \<Rightarrow> bool" where
  "packets_ok ps \<longleftrightarrow> (\<forall>c \<in> set ps. c \<noteq> [] \<and> length c \<le> MAXBUFFER)"

text \<open>A packet reaches the socket of a connection.\<close>

definition deliver :: "nat \<Rightarrow> u8 list \<Rightarrow> site \<Rightarrow> site" where
  "deliver c p S =
     (case peers S c of
        None \<Rightarrow> S
      | Some (st, t) \<Rightarrow>
          S\<lparr>peers := (peers S)(c \<mapsto> (st, t\<lparr>world := (world t)\<lparr>w_inbox := w_inbox (world t) @ [p]\<rparr>\<rparr>)),
            sent := (sent S)(c := sent S c @ [p])\<rparr>)"

text \<open>What client \<open>c\<close> can do.\<close>

inductive client_step :: "nat \<Rightarrow> site \<Rightarrow> site \<Rightarrow> bool" where
  connects: "peers S c = None \<Longrightarrow> packets_ok ps \<Longrightarrow> client_step c S (arrive c sock ps S)"
| sends: "peers S c = Some x \<Longrightarrow> c \<notin> hung_up S \<Longrightarrow> packets_ok [p] \<Longrightarrow> client_step c S (deliver c p S)"
| hangs_up: "peers S c = Some x \<Longrightarrow> client_step c S (S\<lparr>hung_up := insert c (hung_up S)\<rparr>)"

inductive site_reach :: "kernel \<Rightarrow> drv_world \<Rightarrow> site \<Rightarrow> bool" for k w where
  site_init: "site_reach k w (site_start w)"
| site_client: "site_reach k w S \<Longrightarrow> client_step c S T \<Longrightarrow> site_reach k w T"
| site_work: "site_reach k w S \<Longrightarrow> work_step k S T \<Longrightarrow> site_reach k w T"

subsection \<open>Serving one connection after the other\<close>

fun serial ::
  "(bool \<Rightarrow> nat \<Rightarrow> u32) \<Rightarrow> 'd device \<Rightarrow> u8 list list list \<Rightarrow> 'd \<Rightarrow> 'd \<times> u8 list list" where
  "serial ovf D [] d = (d, [])"
| "serial ovf D (ps # pss) d =
     (case connection_spec ovf D ps (False, d) of
        ((_, d1), out) \<Rightarrow> case serial ovf D pss d1 of (d2, outs) \<Rightarrow> (d2, out # outs))"

lemma serial_snoc:
  assumes "serial ovf D pss d = (d1, outs)" and "connection_spec ovf D ps (False, d1) = ((a, d2), out)"
  shows "serial ovf D (pss @ [ps]) d = (d2, outs @ [out])"
  using assms by (induction pss arbitrary: d outs) (auto split: prod.splits)

lemma connection_spec_snoc:
  assumes "connection_spec ovf D cs s = (s1, out1)" and "chunk_spec ovf D c s1 = (s2, out2)"
  shows "connection_spec ovf D (cs @ [c]) s = (s2, out1 @ out2)"
  using assms by (induction cs arbitrary: s out1) (auto split: prod.splits)

subsection \<open>Invariant\<close>

fun streams_of :: "stage \<Rightarrow> 'w thread \<Rightarrow> file_ptr set" where
  "streams_of (Opened g) t = {ostream (params t), g}"
| "streams_of (InMutex g) t = {ostream (params t), g}"
| "streams_of (Released g) t = {ostream (params t), g}"
| "streams_of _ t = {}"

definition has_streams :: "'d view \<Rightarrow> file_ptr \<Rightarrow> 'w thread \<Rightarrow> bool" where
  "has_streams v g t \<longleftrightarrow> ostream (params t) \<in> v_app v \<and> ostream (params t) \<noteq> 0 \<and> g \<noteq> 0"

fun peer_ok :: "'d view \<Rightarrow> u8 list list \<Rightarrow> stage \<Rightarrow> drv_world thread \<Rightarrow> bool" where
  "peer_ok v ps Arrived t \<longleftrightarrow>
     held t = {} \<and> filename (params t) = FILENAME \<and> w_inbox (world t) = ps \<and> w_outbox (world t) = []"
| "peer_ok v ps (Opened g) t \<longleftrightarrow>
     held t = {} \<and> has_streams v g t \<and> v_left v g = Unread \<and> w_inbox (world t) = ps \<and> w_outbox (world t) = []"
| "peer_ok v ps (InMutex g) t \<longleftrightarrow> held t = {Mutex} \<and> has_streams v g t"
| "peer_ok v ps (Released g) t \<longleftrightarrow> held t = {} \<and> has_streams v g t"
| "peer_ok v ps Closed t \<longleftrightarrow> held t = {}"

lemma peer_ok_frame:
  assumes "peer_ok v ps st t" and "\<forall>f \<in> streams_of st t. v_left v' f = v_left v f \<and> (f \<in> v_app v' \<longleftrightarrow> f \<in> v_app v)"
  shows "peer_ok v' ps st t"
  using assms by (cases st) (auto simp: has_streams_def)

definition out_of :: "site \<Rightarrow> nat \<Rightarrow> u8 list" where
  "out_of S c = (case peers S c of None \<Rightarrow> [] | Some (_, t) \<Rightarrow> w_outbox (world t))"

fun past_lock :: "stage \<Rightarrow> bool" where
  "past_lock (InMutex g) = True" | "past_lock (Released g) = True" | "past_lock Closed = True"
| "past_lock _ = False"

abbreviation ovf_of :: "kernel \<Rightarrow> bool \<Rightarrow> nat \<Rightarrow> u32" where
  "ovf_of k \<equiv> scan_overflow (driver_os k)"

text \<open>The connection in the mutex is somewhere in the run its specification gives.\<close>

definition serving_ok :: "kernel \<Rightarrow> kstate option \<Rightarrow> site \<Rightarrow> nat \<Rightarrow> file_ptr \<Rightarrow> drv_world thread \<Rightarrow> bool" where
  "serving_ok k d S c g t \<longleftrightarrow>
     (\<exists>cs d1 past a. lock_order S = cs @ [c] \<and>
        serial (ovf_of k) (driver_device k) (map (sent S) cs) d = (d1, map (out_of S) cs) \<and>
        sent S c = past @ w_inbox (world t) \<and>
        connection_spec (ovf_of k) (driver_device k) past (False, d1) = ((a, w_dev (shared S)), w_outbox (world t)) \<and>
        v_left (drv_view (shared S)) g = (if a then Ended else Unread))"

definition atomic :: "kernel \<Rightarrow> kstate option \<Rightarrow> site \<Rightarrow> bool" where
  "atomic k d S \<longleftrightarrow>
     serial (ovf_of k) (driver_device k) (map (sent S) (lock_order S)) d =
       (w_dev (shared S), map (out_of S) (lock_order S))"

definition locked :: "site \<Rightarrow> bool" where
  "locked S \<longleftrightarrow> (\<exists>c g t. peers S c = Some (InMutex g, t))"

definition progress_ok :: "kernel \<Rightarrow> kstate option \<Rightarrow> site \<Rightarrow> bool" where
  "progress_ok k d S \<longleftrightarrow>
     (\<forall>c g t. peers S c = Some (InMutex g, t) \<longrightarrow> serving_ok k d S c g t) \<and> (\<not> locked S \<longrightarrow> atomic k d S)"

definition order_ok :: "site \<Rightarrow> bool" where
  "order_ok S \<longleftrightarrow> distinct (lock_order S) \<and>
     (\<forall>c. c \<in> set (lock_order S) \<longleftrightarrow> (\<exists>st t. peers S c = Some (st, t) \<and> past_lock st))"

definition peers_ok :: "site \<Rightarrow> bool" where
  "peers_ok S \<longleftrightarrow>
     (\<forall>c st t. peers S c = Some (st, t) \<longrightarrow>
        peer_ok (drv_view (shared S)) (sent S c) st t \<and> packets_ok (sent S c) \<and>
        (\<forall>f \<in> streams_of st t. f < w_next (shared S))) \<and>
     (\<forall>c st t c' st' t'. peers S c = Some (st, t) \<longrightarrow> peers S c' = Some (st', t') \<longrightarrow> c \<noteq> c' \<longrightarrow>
        streams_of st t \<inter> streams_of st' t' = {})"

definition site_inv :: "kernel \<Rightarrow> kstate option \<Rightarrow> site \<Rightarrow> bool" where
  "site_inv k d S \<longleftrightarrow>
     drv_inv k (shared S) \<and> quiet (drv_view (shared S)) \<and> finite (dom (peers S)) \<and>
     peers_ok S \<and> order_ok S \<and> progress_ok k d S"

text \<open>A step that touches only the streams in \<open>F\<close> and new ones.\<close>

definition frame :: "file_ptr set \<Rightarrow> drv_world \<Rightarrow> drv_world \<Rightarrow> bool" where
  "frame F w w' \<longleftrightarrow> w_next w \<le> w_next w' \<and>
     (\<forall>f < w_next w. f \<notin> F \<longrightarrow> v_left (drv_view w') f = v_left (drv_view w) f \<and>
        (f \<in> v_app (drv_view w') \<longleftrightarrow> f \<in> v_app (drv_view w)))"

lemma put_sel [simp]:
  "shared (put c st t S) = world t" "peers (put c st t S) = (peers S)(c \<mapsto> (st, t))"
  "sent (put c st t S) = sent S" "lock_order (put c st t S) = lock_order S" "hung_up (put c st t S) = hung_up S"
  by (simp_all add: put_def)

lemma load_sel [simp]:
  "world (load S t) = (shared S)\<lparr>w_inbox := w_inbox (world t), w_outbox := w_outbox (world t)\<rparr>"
  "held (load S t) = held t" "params (load S t) = params t" "calm (load S t) = calm t"
  by (simp_all add: load_def)

lemma view_boxes [simp]:
  "drv_view (w\<lparr>w_inbox := i, w_outbox := q\<rparr>) = (drv_view w)\<lparr>v_in := i, v_out := q\<rparr>"
  "drv_inv k (w\<lparr>w_inbox := i, w_outbox := q\<rparr>) = drv_inv k w"
  by (simp_all add: drv_view_def drv_inv_def stream_status_def fun_eq_iff)

lemma quiet_boxes [simp]: "quiet (v\<lparr>v_in := i, v_out := q\<rparr>) = quiet v"
  by (simp add: quiet_def)

lemma peers_okD:
  assumes "peers_ok S" and "peers S c = Some (st, t)"
  shows "peer_ok (drv_view (shared S)) (sent S c) st t" and "packets_ok (sent S c)"
    and "\<And>f. f \<in> streams_of st t \<Longrightarrow> f < w_next (shared S)"
  using assms unfolding peers_ok_def by blast+

lemma peers_ok_disjoint:
  assumes "peers_ok S" and "peers S c = Some (st, t)" and "peers S c' = Some (st', t')" and "c \<noteq> c'"
  shows "streams_of st t \<inter> streams_of st' t' = {}"
  using assms unfolding peers_ok_def by blast

lemma put_peers_ok:
  assumes inv: "peers_ok S" and c: "peers S c = Some (st, t)" and fr: "frame (streams_of st t) (shared S) (world u)"
    and ok: "peer_ok (drv_view (world u)) (sent S c) st' u"
    and new: "\<forall>f \<in> streams_of st' u. f < w_next (world u) \<and> (f \<in> streams_of st t \<or> w_next (shared S) \<le> f)"
  shows "peers_ok (put c st' u S)"
proof -
  have other: "peer_ok (drv_view (world u)) (sent S b) sb tb" "\<forall>f \<in> streams_of sb tb. f < w_next (world u)"
    "streams_of sb tb \<inter> streams_of st' u = {}"
    if b: "peers S b = Some (sb, tb)" "b \<noteq> c" for b sb tb
  proof -
    have lt: "\<forall>f \<in> streams_of sb tb. f < w_next (shared S)" and dis: "streams_of sb tb \<inter> streams_of st t = {}"
      using peers_okD(3) [OF inv b(1)] peers_ok_disjoint [OF inv b(1) c b(2)] by blast+
    have "\<forall>f \<in> streams_of sb tb. v_left (drv_view (world u)) f = v_left (drv_view (shared S)) f \<and>
        (f \<in> v_app (drv_view (world u)) \<longleftrightarrow> f \<in> v_app (drv_view (shared S)))"
      using fr lt dis unfolding frame_def by blast
    then show "peer_ok (drv_view (world u)) (sent S b) sb tb"
      by (rule peer_ok_frame [OF peers_okD(1) [OF inv b(1)]])
    show "\<forall>f \<in> streams_of sb tb. f < w_next (world u)"
      using lt fr by (auto simp: frame_def)
    show "streams_of sb tb \<inter> streams_of st' u = {}"
      using new lt dis by fastforce
  qed
  show ?thesis
    unfolding peers_ok_def put_sel
  proof (intro conjI allI impI, goal_cases)
    case (1 b sb tb)
    then show ?case using ok other(1) by (auto split: if_splits)
  next
    case (2 b sb tb)
    then show ?case using peers_okD(2) [OF inv] c by (auto split: if_splits)
  next
    case (3 b sb tb)
    then show ?case using new other(2) by (auto split: if_splits)
  next
    case (4 b sb tb b' sb' tb')
    then show ?case
      using other(3) [of b sb tb] other(3) [of b' sb' tb'] peers_ok_disjoint [OF inv, of b sb tb b' sb' tb']
      by (cases "b = c"; cases "b' = c") auto
  qed
qed

lemma peers_ok_order [simp]: "peers_ok (S\<lparr>lock_order := cs\<rparr>) = peers_ok S"
  by (simp add: peers_ok_def)

lemma put_order_ok:
  assumes "order_ok S" and "peers S c = Some (st, t)" and "past_lock st' = past_lock st"
  shows "order_ok (put c st' u S)"
  using assms by (auto simp: order_ok_def)

lemma out_of_put: "peers S c = Some (st, t) \<Longrightarrow> w_outbox (world u) = w_outbox (world t) \<Longrightarrow> out_of (put c st' u S) = out_of S"
  by (auto simp: out_of_def)

text \<open>A step outside the mutex that leaves the device and the client alone.\<close>

lemma silent_progress:
  assumes prog: "progress_ok k d S" and ok: "peers_ok S" and c: "peers S c = Some (st, t)"
    and st: "\<forall>g. st \<noteq> InMutex g \<and> st' \<noteq> InMutex g" and fr: "frame (streams_of st t) (shared S) (world u)"
    and same: "w_dev (world u) = w_dev (shared S)" "w_outbox (world u) = w_outbox (world t)"
  shows "progress_ok k d (put c st' u S)"
proof -
  have mtx: "peers (put c st' u S) b = Some (InMutex g, tb) \<longleftrightarrow> peers S b = Some (InMutex g, tb)" for b g tb
    using c st by auto
  then have lk: "locked (put c st' u S) = locked S"
    unfolding locked_def by simp
  have "serving_ok k d (put c st' u S) b g tb" if "peers (put c st' u S) b = Some (InMutex g, tb)" for b g tb
  proof -
    have b: "peers S b = Some (InMutex g, tb)" "b \<noteq> c"
      using that mtx c st by auto
    have "g < w_next (shared S)" "g \<notin> streams_of st t"
      using peers_okD(3) [OF ok b(1)] peers_ok_disjoint [OF ok b(1) c b(2)] by auto
    then have "v_left (drv_view (world u)) g = v_left (drv_view (shared S)) g"
      using fr by (simp add: frame_def)
    then show ?thesis
      using prog b(1) by (simp add: progress_ok_def serving_ok_def out_of_put [OF c same(2)] same(1))
  qed
  then show ?thesis
    using prog lk by (simp add: progress_ok_def atomic_def out_of_put [OF c same(2)] same(1))
qed

lemma silent_step:
  assumes "site_inv k d S" and "peers S c = Some (st, t)" and "drv_inv k (world u)" and "quiet (drv_view (world u))"
    and "frame (streams_of st t) (shared S) (world u)" and "peer_ok (drv_view (world u)) (sent S c) st' u"
    and "\<forall>f \<in> streams_of st' u. f < w_next (world u) \<and> (f \<in> streams_of st t \<or> w_next (shared S) \<le> f)"
    and "\<forall>g. st \<noteq> InMutex g \<and> st' \<noteq> InMutex g" and "past_lock st' = past_lock st"
    and "w_dev (world u) = w_dev (shared S)" and "w_outbox (world u) = w_outbox (world t)"
  shows "site_inv k d (put c st' u S)"
  using assms put_peers_ok [OF _ assms(2,5,6,7)] put_order_ok [OF _ assms(2,9)]
    silent_progress [OF _ _ assms(2,8,5,10,11)]
  by (auto simp: site_inv_def)

text \<open>Opening and closing on the driver.\<close>

lemma begin_driver:
  assumes "drv_inv k (world t)" and "filename (params t) = FILENAME"
  defines "n \<equiv> w_next (world t)"
  shows "\<exists>u. begin_connection (driver_os k) t = (Some (Suc n), u) \<and> held u = held t \<and>
     params u = (params t)\<lparr>ostream := n\<rparr> \<and> drv_inv k (world u) \<and> w_next (world u) = Suc (Suc n) \<and> n \<noteq> 0 \<and>
     drv_view (world u) = (drv_view (world t))
       \<lparr>v_left := (v_left (drv_view (world t)))(n := Ended, Suc n := Unread), v_app := insert n (v_app (drv_view (world t)))\<rparr>"
proof -
  obtain w1 where w1: "drv_fopen FILENAME ''a+'' (world t) = (n, w1)" "n \<noteq> 0" "drv_inv k w1"
    "drv_view w1 = (drv_view (world t))\<lparr>v_left := (v_left (drv_view (world t)))(n := Ended),
       v_app := insert n (v_app (drv_view (world t)))\<rparr>"
    using drv_open_close_laws(1) [OF assms(1)] by (auto simp: drv_fopen_def n_def)
  have n1: "w_next w1 = Suc n"
    using w1(1) drv_next(1) [of FILENAME "''a+''" "world t"] by (simp add: n_def)
  obtain w2 where w2: "drv_fopen FILENAME ''r'' w1 = (Suc n, w2)" "drv_inv k w2"
    "drv_view w2 = (drv_view w1)\<lparr>v_left := (v_left (drv_view w1))(Suc n := Unread)\<rparr>"
    using drv_open_close_laws(2) [OF w1(3)] n1 by (auto simp: drv_fopen_def)
  have "w_next w2 = Suc (Suc n)"
    using w2(1) n1 drv_next(1) [of FILENAME "''r''" w1] by simp
  then show ?thesis
    using w1 w2 assms(2) by (simp add: begin_connection_def acquire_def Let_def)
qed

lemma close_driver:
  assumes "drv_inv k (world t)" and "g \<noteq> 0" and "ostream (params t) \<noteq> 0"
  shows "\<exists>u. close_connection (driver_os k) g t = ret u \<and> held u = held t \<and>
     drv_inv k (world u) \<and> w_next (world u) = w_next (world t) \<and>
     drv_view (world u) = (drv_view (world t))
       \<lparr>v_left := (v_left (drv_view (world t)))(g := Ended, ostream (params t) := Ended),
        v_app := v_app (drv_view (world t)) - {g} - {ostream (params t)},
        v_fd := (v_fd (drv_view (world t)))(istream (params t) := None)\<rparr>"
proof -
  note c1 = drv_open_close_laws(3) [OF assms(1), of g]
  note c2 = drv_open_close_laws(4) [OF conjunct1 [OF c1], of "istream (params t)"]
  note c3 = drv_open_close_laws(3) [OF conjunct1 [OF c2], of "ostream (params t)"]
  show ?thesis
    using assms c1 c2 c3 by (simp add: close_connection_def thread_defs drv_next Let_def)
qed

lemma quiet_fd: "quiet v \<Longrightarrow> (v_fd v)(d := None) = v_fd v"
  by (auto simp: quiet_def)

lemma opens_inv:
  assumes inv: "site_inv k d S" and c: "peers S c = Some (Arrived, t)"
    and run: "begin_connection (driver_os k) (load S t) = (r, u)"
  shows "\<exists>g. r = Some g \<and> site_inv k d (put c (Opened g) u S) \<and> w_inbox (world u) = w_inbox (world t) \<and>
    w_outbox (world u) = w_outbox (world t) \<and> w_dev (world u) = w_dev (shared S)"
proof -
  let ?v = "drv_view (shared S)" and ?n = "w_next (shared S)"
  have t: "held t = {}" "filename (params t) = FILENAME" "w_inbox (world t) = sent S c" "w_outbox (world t) = []"
    and w: "drv_inv k (shared S)" "quiet ?v"
    using inv peers_okD(1) [OF _ c] by (auto simp: site_inv_def)
  have b: "r = Some (Suc ?n)" "held u = {}" "params u = (params t)\<lparr>ostream := ?n\<rparr>" "drv_inv k (world u)"
    "w_next (world u) = Suc (Suc ?n)" "?n \<noteq> 0"
    and v: "drv_view (world u) = ?v\<lparr>v_in := w_inbox (world t), v_out := w_outbox (world t),
      v_left := (v_left ?v)(?n := Ended, Suc ?n := Unread), v_app := insert ?n (v_app ?v)\<rparr>"
    using begin_driver [of k "load S t"] run t w by auto
  have boxes: "w_inbox (world u) = w_inbox (world t)" "w_outbox (world u) = w_outbox (world t)"
    "w_dev (world u) = w_dev (shared S)"
    using v by (simp_all add: drv_view_def)
  have q: "quiet (drv_view (world u))"
    using w(2) by (simp add: v quiet_def)
  have fr: "frame (streams_of Arrived t) (shared S) (world u)"
    unfolding frame_def v b(5) by simp
  have "site_inv k d (put c (Opened (Suc ?n)) u S)"
    by (rule silent_step [OF inv c b(4) q fr]) (use b t boxes in \<open>simp_all add: v has_streams_def\<close>)
  then show ?thesis using b(1) boxes by blast
qed

lemma closes_inv:
  assumes inv: "site_inv k d S" and c: "peers S c = Some (Released g, t)"
    and run: "close_connection (driver_os k) g (load S t) = ret u"
  shows "site_inv k d (put c Closed u S) \<and> w_outbox (world u) = w_outbox (world t) \<and>
    w_dev (world u) = w_dev (shared S)"
proof -
  let ?v = "drv_view (shared S)"
  have t: "held t = {}" "has_streams ?v g t" and w: "drv_inv k (shared S)" "quiet ?v"
    using inv peers_okD(1) [OF _ c] by (auto simp: site_inv_def)
  have b: "held u = {}" "drv_inv k (world u)" "w_next (world u) = w_next (shared S)"
    and v: "drv_view (world u) = ?v\<lparr>v_in := w_inbox (world t), v_out := w_outbox (world t),
      v_left := (v_left ?v)(g := Ended, ostream (params t) := Ended),
      v_app := v_app ?v - {g} - {ostream (params t)}, v_fd := (v_fd ?v)(istream (params t) := None)\<rparr>"
    using close_driver [of k "load S t" g] run t w by (auto simp: has_streams_def)
  have boxes: "w_outbox (world u) = w_outbox (world t)" "w_dev (world u) = w_dev (shared S)"
    using v by (simp_all add: drv_view_def)
  have q: "quiet (drv_view (world u))"
    using w(2) by (simp add: v quiet_def)
  have fr: "frame (streams_of (Released g) t) (shared S) (world u)"
    unfolding frame_def v b(3) by simp
  have "site_inv k d (put c Closed u S)"
    by (rule silent_step [OF inv c b(2) q fr]) (use b t boxes in simp_all)
  then show ?thesis using boxes by simp
qed

text \<open>Only one thread is in the mutex.\<close>

lemma one_holder:
  assumes "progress_ok k d S" and "peers S b = Some (InMutex g, t)" and "peers S c = Some (InMutex h, u)"
  shows "b = c"
  using assms unfolding progress_ok_def serving_ok_def by (metis last_snoc)

lemma free_not_locked: "peers_ok S \<Longrightarrow> mutex_free S \<Longrightarrow> \<not> locked S"
  using peers_okD(1) by (fastforce simp: locked_def mutex_free_def)

lemma progress_lockedI:
  assumes "peers T c = Some (InMutex g, u)" and "serving_ok k d T c g u"
    and "\<And>b h tb. peers T b = Some (InMutex h, tb) \<Longrightarrow> b = c"
  shows "progress_ok k d T"
proof -
  have "serving_ok k d T b h tb" if "peers T b = Some (InMutex h, tb)" for b h tb
    using assms(3) [OF that] that assms(1,2) by simp
  moreover have "locked T" using assms(1) unfolding locked_def by blast
  ultimately show ?thesis by (simp add: progress_ok_def)
qed

lemma locks_inv:
  assumes inv: "site_inv k d S" and c: "peers S c = Some (Opened g, t)" and free: "mutex_free S"
    and run: "pthread_mutex_lock Mutex (load S t) = ret u"
  shows "site_inv k d ((put c (InMutex g) u S)\<lparr>lock_order := lock_order S @ [c]\<rparr>)"
proof -
  let ?v = "drv_view (shared S)" and ?T = "(put c (InMutex g) u S)\<lparr>lock_order := lock_order S @ [c]\<rparr>"
  have ok: "peers_ok S" "order_ok S" "progress_ok k d S" and w: "drv_inv k (shared S)" "quiet ?v"
    and fin: "finite (dom (peers S))"
    using inv by (simp_all add: site_inv_def)
  have t: "held t = {}" "has_streams ?v g t" "v_left ?v g = Unread" "w_inbox (world t) = sent S c" "w_outbox (world t) = []"
    using peers_okD(1) [OF ok(1) c] by simp_all
  have u: "u = (load S t)\<lparr>held := {Mutex}\<rparr>"
    using run t(1) by (simp add: pthread_mutex_lock_def)
  have vu: "drv_view (world u) = ?v\<lparr>v_in := sent S c, v_out := []\<rparr>" "w_next (world u) = w_next (shared S)"
    "params u = params t" "w_dev (world u) = w_dev (shared S)" "drv_inv k (world u)"
    using t w(1) by (simp_all add: u)
  have peers: "peers_ok (put c (InMutex g) u S)"
    by (rule put_peers_ok [OF ok(1) c])
      (use t peers_okD(3) [OF ok(1) c] in \<open>auto simp: frame_def vu has_streams_def, auto simp: u\<close>)
  have notin: "c \<notin> set (lock_order S)"
    using ok(2) c by (auto simp: order_ok_def)
  then have out: "map (out_of ?T) (lock_order S) = map (out_of S) (lock_order S)"
    by (auto simp: out_of_def)
  have serv: "serving_ok k d ?T c g u"
    using ok(3) free_not_locked [OF ok(1) free] out t
    by (auto simp: progress_ok_def serving_ok_def atomic_def vu u)
  have only: "peers ?T b = Some (InMutex h, tb) \<Longrightarrow> b = c" for b h tb
    using free_not_locked [OF ok(1) free] by (auto simp: locked_def split: if_splits)
  have "progress_ok k d ?T"
    by (rule progress_lockedI [OF _ serv only]) simp_all
  moreover have "order_ok ?T"
    using ok(2) c notin by (auto simp: order_ok_def)
  ultimately show ?thesis
    using peers fin w(2) vu by (simp add: site_inv_def)
qed

lemma recv_pass_det:
  assumes "recv_pass n os g t = ret x" and "recv_pass m os g t = ret y"
  shows "x = y"
  using recv_pass_mono [OF assms(1), of "max n m"] recv_pass_mono [OF assms(2), of "max n m"] by simp

text \<open>The thread in the mutex, as the single-thread refinement needs it.\<close>

lemma holder_ready:
  assumes "site_inv k d S" and "peers S c = Some (InMutex g, t)"
    and "v_left (drv_view (shared S)) g = (if a then Ended else Unread)"
  shows "bounded.ready (istream (params t)) k (w_next (shared S)) g a (load S t)"
proof -
  have "peer_ok (drv_view (shared S)) (sent S c) (InMutex g) t"
    using peers_okD(1) [OF _ assms(2)] assms(1) by (simp add: site_inv_def)
  then show ?thesis
    using assms by (simp add: bounded.ready_def drv_inv_from_def site_inv_def has_streams_def calm_def)
qed

text \<open>
  A pass of the loop in the mutex: with a packet left it consumes that packet as its
  specification says, without one it changes nothing and the loop ends.
\<close>

lemma holder_next:
  assumes inv: "site_inv k d S" and c: "peers S c = Some (InMutex g, t)"
    and left: "v_left (drv_view (shared S)) g = (if a then Ended else Unread)"
    and p: "w_inbox (world t) = p # ps" "p \<noteq> []" "length p \<le> MAXBUFFER"
    and spec: "chunk_spec (ovf_of k) (driver_device k) p (a, w_dev (shared S)) = ((a', d'), out)"
  shows "\<exists>n u. recv_pass n (driver_os k) g (load S t) = ret (True, u) \<and> same_thread t u \<and>
        drv_inv k (world u) \<and> w_next (shared S) \<le> w_next (world u) \<and>
        drv_view (world u) = served g a' d' out
          ((drv_view (shared S))\<lparr>v_in := ps, v_out := w_outbox (world t)\<rparr>)"
proof -
  obtain n u where u: "recv_pass n (driver_os k) g (load S t) = ret (True, u)" "same_thread (load S t) u"
    "drv_inv_from k (w_next (shared S)) (world u)"
    "drv_view (world u) = served g a' d' out ((drv_view (world (load S t)))\<lparr>v_in := ps\<rparr>)"
    using bounded.recv_pass_next [OF holder_ready [OF inv c left], of p ps a' d' out] p spec by auto
  then show ?thesis
    by (intro exI [of _ n] exI [of _ u]) (simp add: load_def drv_inv_from_def served_def)
qed

lemma holder_end:
  assumes inv: "site_inv k d S" and c: "peers S c = Some (InMutex g, t)"
    and left: "v_left (drv_view (shared S)) g = (if a then Ended else Unread)" and p: "w_inbox (world t) = []"
  shows "\<exists>n u. recv_pass n (driver_os k) g (load S t) = ret (False, u) \<and> same_thread t u \<and>
        drv_inv k (world u) \<and> w_next (shared S) \<le> w_next (world u) \<and>
        drv_view (world u) = (drv_view (shared S))\<lparr>v_in := [], v_out := w_outbox (world t)\<rparr>"
proof -
  obtain n u where u: "recv_pass n (driver_os k) g (load S t) = ret (False, u)" "same_thread (load S t) u"
    "drv_inv_from k (w_next (shared S)) (world u)" "drv_view (world u) = drv_view (world (load S t))"
    using bounded.recv_pass_end [OF holder_ready [OF inv c left]] p by auto
  then show ?thesis
    using p by (intro exI [of _ n] exI [of _ u]) (simp add: load_def drv_inv_from_def)
qed

lemma pass_cases:
  assumes inv: "site_inv k d S" and c: "peers S c = Some (InMutex g, t)"
    and run: "recv_pass n (driver_os k) g (load S t) = ret (again, u)"
  obtains (packet) cs d1 past p ps a' d' out where "again" and "lock_order S = cs @ [c]"
      and "serial (ovf_of k) (driver_device k) (map (sent S) cs) d = (d1, map (out_of S) cs)"
      and "sent S c = past @ p # ps" and "w_inbox (world t) = p # ps"
      and "connection_spec (ovf_of k) (driver_device k) (past @ [p]) (False, d1) =
        ((a', d'), w_outbox (world t) @ out)"
      and "same_thread t u" and "drv_inv k (world u)" and "w_next (shared S) \<le> w_next (world u)"
      and "drv_view (world u) = served g a' d' out ((drv_view (shared S))\<lparr>v_in := ps, v_out := w_outbox (world t)\<rparr>)"
  | (ended) cs d1 a where "\<not> again" and "lock_order S = cs @ [c]"
      and "serial (ovf_of k) (driver_device k) (map (sent S) cs) d = (d1, map (out_of S) cs)"
      and "connection_spec (ovf_of k) (driver_device k) (sent S c) (False, d1) =
        ((a, w_dev (shared S)), w_outbox (world t))"
      and "same_thread t u" and "drv_inv k (world u)" and "w_next (shared S) \<le> w_next (world u)"
      and "drv_view (world u) = (drv_view (shared S))\<lparr>v_in := [], v_out := w_outbox (world t)\<rparr>"
      and "w_inbox (world t) = []"
proof -
  have "serving_ok k d S c g t" and ok: "packets_ok (sent S c)"
    using inv c peers_okD(2) by (auto simp: site_inv_def progress_ok_def)
  then obtain cs d1 past a where s: "lock_order S = cs @ [c]"
    "serial (ovf_of k) (driver_device k) (map (sent S) cs) d = (d1, map (out_of S) cs)"
    "sent S c = past @ w_inbox (world t)"
    "connection_spec (ovf_of k) (driver_device k) past (False, d1) = ((a, w_dev (shared S)), w_outbox (world t))"
    and left: "v_left (drv_view (shared S)) g = (if a then Ended else Unread)"
    unfolding serving_ok_def by blast
  show thesis
  proof (cases "w_inbox (world t)")
    case Nil
    obtain m u' where u': "recv_pass m (driver_os k) g (load S t) = ret (False, u')" "same_thread t u'"
      "drv_inv k (world u')" "w_next (shared S) \<le> w_next (world u')"
      "drv_view (world u') = (drv_view (shared S))\<lparr>v_in := [], v_out := w_outbox (world t)\<rparr>"
      using holder_end [OF inv c left Nil] by blast
    have "again = False" "u = u'"
      using recv_pass_det [OF run u'(1)] by simp_all
    with u' s Nil show thesis by (intro ended [of cs d1 a]) simp_all
  next
    case (Cons p ps)
    have p: "p \<noteq> []" "length p \<le> MAXBUFFER"
      using ok s(3) Cons by (auto simp: packets_ok_def)
    obtain a' d' out where sp: "chunk_spec (ovf_of k) (driver_device k) p (a, w_dev (shared S)) = ((a', d'), out)"
      by (metis prod.exhaust)
    obtain m u' where u': "recv_pass m (driver_os k) g (load S t) = ret (True, u')" "same_thread t u'"
      "drv_inv k (world u')" "w_next (shared S) \<le> w_next (world u')"
      "drv_view (world u') = served g a' d' out ((drv_view (shared S))\<lparr>v_in := ps, v_out := w_outbox (world t)\<rparr>)"
      using holder_next [OF inv c left Cons p sp] by blast
    have "again = True" "u = u'"
      using recv_pass_det [OF run u'(1)] by simp_all
    with u' s Cons connection_spec_snoc [OF s(4) sp] show thesis
      by (intro packet [of cs d1 past p ps a' d' out]) simp_all
  qed
qed

lemma holder_can_pass:
  assumes inv: "site_inv k d S" and c: "peers S c = Some (InMutex g, t)"
  shows "\<exists>n again u. recv_pass n (driver_os k) g (load S t) = ret (again, u)"
proof -
  have "serving_ok k d S c g t" and ok: "packets_ok (sent S c)"
    using inv c peers_okD(2) by (auto simp: site_inv_def progress_ok_def)
  then obtain past a where s: "sent S c = past @ w_inbox (world t)"
    and left: "v_left (drv_view (shared S)) g = (if a then Ended else Unread)"
    unfolding serving_ok_def by blast
  show ?thesis
  proof (cases "w_inbox (world t)")
    case Nil
    from holder_end [OF inv c left this] show ?thesis by blast
  next
    case (Cons p ps)
    have p: "p \<noteq> []" "length p \<le> MAXBUFFER"
      using ok s Cons by (auto simp: packets_ok_def)
    obtain a' d' out where "chunk_spec (ovf_of k) (driver_device k) p (a, w_dev (shared S)) = ((a', d'), out)"
      by (metis prod.exhaust)
    from holder_next [OF inv c left Cons p this] show ?thesis by blast
  qed
qed

lemma view_sel:
  "w_dev w = v_dev (drv_view w)" "w_inbox w = v_in (drv_view w)" "w_outbox w = v_out (drv_view w)"
  by simp_all

lemma put_mutex_peers:
  assumes inv: "site_inv k d S" and c: "peers S c = Some (InMutex g, t)" and same: "same_thread t u"
    and next_le: "w_next (shared S) \<le> w_next (world u)"
    and left: "\<And>f. f \<noteq> g \<Longrightarrow> v_left (drv_view (world u)) f = v_left (drv_view (shared S)) f"
    and app: "v_app (drv_view (world u)) = v_app (drv_view (shared S))"
    and st: "st = InMutex g \<and> u' = u \<or> st = Released g \<and> u' = pthread_mutex_unlock Mutex u"
  shows "peers_ok (put c st u' S)"
proof -
  have ok: "peers_ok S" using inv by (simp add: site_inv_def)
  have u: "world u' = world u" "params u' = params t"
    using st same_thread_params [OF same] by (auto simp: pthread_mutex_unlock_def)
  have t: "held t = {Mutex}" "has_streams (drv_view (shared S)) g t"
    using peers_okD(1) [OF ok c] by simp_all
  have "held u' = (if st = InMutex g then {Mutex} else {})"
    using st t(1) same unfolding same_thread_def pthread_mutex_unlock_def by (elim disjE) simp_all
  then have pk: "peer_ok (drv_view (world u')) (sent S c) st u'"
    using st t(2) u app by (elim disjE) (simp_all add: has_streams_def)
  have fr: "frame (streams_of (InMutex g) t) (shared S) (world u')"
    using next_le left app by (simp add: frame_def u)
  have "streams_of st u' = streams_of (InMutex g) t"
    using st u by auto
  then have "\<forall>f \<in> streams_of st u'. f < w_next (world u') \<and> (f \<in> streams_of (InMutex g) t \<or> w_next (shared S) \<le> f)"
    using peers_okD(3) [OF ok c] next_le u(1) by (metis order_less_le_trans)
  with put_peers_ok [OF ok c fr pk] show ?thesis .
qed

lemma out_of_others: "c \<notin> set cs \<Longrightarrow> map (out_of (put c st u S)) cs = map (out_of S) cs"
  by (auto simp: out_of_def)

lemma passes_inv:
  assumes inv: "site_inv k d S" and c: "peers S c = Some (InMutex g, t)"
    and run: "recv_pass n (driver_os k) g (load S t) = ret (True, u)"
  shows "site_inv k d (put c (InMutex g) u S) \<and> length (w_inbox (world u)) < length (w_inbox (world t))"
  using inv c run
proof (cases rule: pass_cases)
  case (packet cs d1 past p ps a' d' out)
  let ?T = "put c (InMutex g) u S"
  have parts: "order_ok S" "progress_ok k d S" "finite (dom (peers S))" "quiet (drv_view (shared S))"
    using inv by (simp_all add: site_inv_def)
  have u: "w_dev (world u) = d'" "w_inbox (world u) = ps" "w_outbox (world u) = w_outbox (world t) @ out"
    "v_left (drv_view (world u)) g = (if a' then Ended else Unread)"
    unfolding view_sel by (simp_all add: packet(10) served_def)
  have q: "quiet (drv_view (world u))"
    using parts(4) by (simp add: packet(10) served_def quiet_def)
  have "distinct (cs @ [c])" using parts(1) packet(2) by (simp add: order_ok_def)
  then have out: "map (out_of ?T) cs = map (out_of S) cs"
    by (intro out_of_others) simp
  have serv: "serving_ok k d ?T c g u"
    unfolding serving_ok_def
    using packet(2-4,6) out u by (intro exI [of _ cs] exI [of _ d1] exI [of _ "past @ [p]"] exI [of _ a']) simp
  have only: "peers ?T b = Some (InMutex h, tb) \<Longrightarrow> b = c" for b h tb
    using one_holder [OF parts(2) _ c] by (auto split: if_splits)
  have "progress_ok k d ?T"
    by (rule progress_lockedI [OF _ serv only]) simp_all
  moreover have "peers_ok ?T"
    by (rule put_mutex_peers [OF inv c packet(7,9)]) (simp_all add: packet(10) served_def)
  ultimately show ?thesis
    using put_order_ok [OF parts(1) c, of "InMutex g" u] parts(3) packet(5,8) q u
    by (simp add: site_inv_def)
qed simp

lemma unlocks_inv:
  assumes inv: "site_inv k d S" and c: "peers S c = Some (InMutex g, t)"
    and run: "recv_pass n (driver_os k) g (load S t) = ret (False, u)"
  shows "site_inv k d (put c (Released g) (pthread_mutex_unlock Mutex u) S)"
  using inv c run
proof (cases rule: pass_cases)
  case (ended cs d1 a)
  let ?u = "pthread_mutex_unlock Mutex u"
  let ?T = "put c (Released g) ?u S"
  have parts: "order_ok S" "progress_ok k d S" "finite (dom (peers S))" "quiet (drv_view (shared S))"
    using inv by (simp_all add: site_inv_def)
  have u: "w_dev (world u) = w_dev (shared S)" "w_outbox (world u) = w_outbox (world t)" "world ?u = world u"
    unfolding view_sel by (simp_all add: ended(8) pthread_mutex_unlock_def)
  have q: "quiet (drv_view (world u))"
    using parts(4) by (simp add: ended(8))
  have "distinct (cs @ [c])" using parts(1) ended(2) by (simp add: order_ok_def)
  then have out: "map (out_of ?T) cs = map (out_of S) cs" "out_of ?T c = w_outbox (world t)"
    by (intro out_of_others, simp) (simp add: out_of_def u)
  have "atomic k d ?T"
    using serial_snoc [OF ended(3,4)] ended(2) out u by (simp add: atomic_def)
  moreover have "\<not> locked ?T"
    using one_holder [OF parts(2) _ c] by (auto simp: locked_def split: if_splits)
  ultimately have "progress_ok k d ?T"
    unfolding progress_ok_def locked_def by blast
  moreover have "peers_ok ?T"
    by (rule put_mutex_peers [OF inv c ended(5,7)]) (simp_all add: ended(8))
  ultimately show ?thesis
    using put_order_ok [OF parts(1) c, of "Released g" ?u] parts(3) ended(6) q u
    by (simp add: site_inv_def)
qed simp

lemma arrive_inv:
  assumes inv: "site_inv k d S" and c: "peers S c = None" and ps: "packets_ok ps"
  shows "site_inv k d (arrive c sock ps S)"
proof -
  let ?T = "arrive c sock ps S"
  have parts: "peers_ok S" "order_ok S" "progress_ok k d S"
    using inv by (simp_all add: site_inv_def)
  have T: "shared ?T = shared S" "lock_order ?T = lock_order S" "sent ?T = (sent S)(c := ps)"
    by (simp_all add: arrive_def)
  obtain t where t: "peers ?T = (peers S)(c \<mapsto> (Arrived, t))" "peer_ok (drv_view (shared S)) ps Arrived t"
    by (simp add: arrive_def)
  have notin: "c \<notin> set (lock_order S)"
    using parts(2) c by (auto simp: order_ok_def)
  have same: "map (out_of ?T) cs = map (out_of S) cs" "map ((sent S)(c := ps)) cs = map (sent S) cs"
    if "c \<notin> set cs" for cs
    using that by (auto simp: out_of_def t(1))
  have holder: "peers ?T b = Some (InMutex g, u) \<longleftrightarrow> peers S b = Some (InMutex g, u)" for b g u
    using c by (auto simp: t(1))
  have "serving_ok k d ?T b g u" if "peers ?T b = Some (InMutex g, u)" for b g u
  proof -
    have s: "serving_ok k d S b g u" and b: "b \<noteq> c"
      using that parts(3) c holder by (auto simp: progress_ok_def)
    then obtain cs where "lock_order S = cs @ [b]" "c \<notin> set cs"
      using notin by (auto simp: serving_ok_def)
    with s b show ?thesis
      using same by (auto simp: serving_ok_def T)
  qed
  moreover have "\<not> locked ?T \<Longrightarrow> atomic k d ?T"
    using parts(3) holder unfolding progress_ok_def atomic_def locked_def T same [OF notin] by blast
  ultimately have "progress_ok k d ?T"
    by (simp add: progress_ok_def)
  moreover have "peers_ok ?T"
    using parts(1) t c ps unfolding peers_ok_def T by auto
  moreover have "order_ok ?T"
    using parts(2) c by (auto simp: order_ok_def T t(1))
  ultimately show ?thesis
    using inv by (simp add: site_inv_def T t(1))
qed

text \<open>Only a thread whose client has closed its end gets past the loop.\<close>

fun past_loop :: "stage \<Rightarrow> bool" where
  "past_loop (Released g) = True" | "past_loop Closed = True" | "past_loop _ = False"

definition ended_ok :: "site \<Rightarrow> bool" where
  "ended_ok S \<longleftrightarrow> (\<forall>c st t. peers S c = Some (st, t) \<longrightarrow> past_loop st \<longrightarrow> c \<in> hung_up S)"

lemma out_of_hung_up [simp]: "out_of (S\<lparr>hung_up := H\<rparr>) = out_of S"
  by (simp add: out_of_def fun_eq_iff)

lemma site_inv_hung_up [simp]: "site_inv k d (S\<lparr>hung_up := H\<rparr>) = site_inv k d S"
  unfolding site_inv_def peers_ok_def order_ok_def progress_ok_def serving_ok_def atomic_def locked_def
  by simp

lemma deliver_inv:
  assumes inv: "site_inv k d S" and ended: "ended_ok S" and c: "peers S c = Some (st, t)"
    and open_: "c \<notin> hung_up S" and p: "packets_ok [p]"
  shows "site_inv k d (deliver c p S)"
proof -
  let ?T = "deliver c p S" and ?t = "t\<lparr>world := (world t)\<lparr>w_inbox := w_inbox (world t) @ [p]\<rparr>\<rparr>"
  have parts: "peers_ok S" "order_ok S" "progress_ok k d S"
    using inv by (simp_all add: site_inv_def)
  have T: "shared ?T = shared S" "lock_order ?T = lock_order S" "sent ?T = (sent S)(c := sent S c @ [p])"
    "peers ?T = (peers S)(c \<mapsto> (st, ?t))"
    using c by (simp_all add: deliver_def)
  have out: "out_of ?T b = out_of S b" for b
    using c by (simp add: out_of_def T)
  have sent: "map (sent ?T) cs = map (sent S) cs" if "c \<notin> set cs" for cs
    using that by (auto simp: T)
  have st: "\<not> past_loop st" using ended c open_ by (auto simp: ended_ok_def)
  have pk: "peer_ok (drv_view (shared S)) (sent S c @ [p]) st ?t"
    using peers_okD(1) [OF parts(1) c] st by (cases st) (simp_all add: has_streams_def)
  have str: "streams_of st ?t = streams_of st t" by (cases st) simp_all
  have "peers_ok ?T"
    using parts(1) c p pk str unfolding peers_ok_def T
    by (auto simp: packets_ok_def split: if_splits)
  moreover have "order_ok ?T"
    using parts(2) c by (fastforce simp: order_ok_def T)
  moreover have "serving_ok k d ?T b g u" if b: "peers ?T b = Some (InMutex g, u)" for b g u
  proof (cases "b = c")
    case True
    with b have u: "st = InMutex g" "u = ?t" by (simp_all add: T)
    then have "serving_ok k d S c g t" using parts(3) c by (auto simp: progress_ok_def)
    then obtain cs d1 past a where s: "lock_order S = cs @ [c]"
      "serial (ovf_of k) (driver_device k) (map (sent S) cs) d = (d1, map (out_of S) cs)"
      "sent S c = past @ w_inbox (world t)"
      "connection_spec (ovf_of k) (driver_device k) past (False, d1) = ((a, w_dev (shared S)), w_outbox (world t))"
      "v_left (drv_view (shared S)) g = (if a then Ended else Unread)"
      unfolding serving_ok_def by blast
    have "c \<notin> set cs" using parts(2) s(1) by (auto simp: order_ok_def)
    then have "map (sent ?T) cs = map (sent S) cs" "map (out_of ?T) cs = map (out_of S) cs"
      using sent out by simp_all
    then show ?thesis
      unfolding serving_ok_def True u using s
      by (intro exI [of _ cs] exI [of _ d1] exI [of _ past] exI [of _ a]) (simp only: T(1,2), simp add: T(3))
  next
    case False
    then have bS: "peers S b = Some (InMutex g, u)" using b by (simp add: T)
    then have s: "serving_ok k d S b g u" using parts(3) by (simp add: progress_ok_def)
    have "\<not> past_lock st"
      using st one_holder [OF parts(3) bS] c False by (cases st) auto
    then have "c \<notin> set (lock_order S)" using parts(2) c by (auto simp: order_ok_def)
    with s sent False show ?thesis by (auto simp: serving_ok_def T out)
  qed
  moreover have "atomic k d ?T" if "\<not> locked ?T"
  proof -
    have "peers ?T c = Some (st, ?t)" by (simp add: T)
    with that have "st \<noteq> InMutex g" for g unfolding locked_def by blast
    then have "\<not> past_lock st" using st by (cases st) auto
    then have "c \<notin> set (lock_order S)" using parts(2) c by (auto simp: order_ok_def)
    moreover have "\<not> locked S"
    proof
      assume "locked S"
      then obtain b g u where b: "peers S b = Some (InMutex g, u)" by (auto simp: locked_def)
      then have "b \<noteq> c" using c \<open>\<And>g. st \<noteq> InMutex g\<close> by auto
      then have "peers ?T b = Some (InMutex g, u)" using b by (simp add: T)
      with that show False unfolding locked_def by blast
    qed
    ultimately show ?thesis
      using parts(3) sent [of "lock_order S"] by (simp add: progress_ok_def atomic_def T out)
  qed
  ultimately show ?thesis
    using inv by (simp add: site_inv_def T progress_ok_def insert_absorb)
qed

lemma client_step_inv:
  assumes "client_step c S T" and "site_inv k d S" and "ended_ok S"
  shows "site_inv k d T \<and> ended_ok T"
  using assms(1)
proof (cases rule: client_step.cases)
  case (connects ps sock)
  then show ?thesis
    using arrive_inv [OF assms(2)] assms(3) by (auto simp: ended_ok_def arrive_def split: if_splits)
next
  case (sends x p)
  obtain st t where x: "x = (st, t)" by force
  show ?thesis
    using deliver_inv [OF assms(2,3), of c st t p] sends assms(3) x
    by (auto simp: ended_ok_def deliver_def split: if_splits)
next
  case (hangs_up x)
  then show ?thesis using assms(2,3) by (auto simp: ended_ok_def)
qed

subsection \<open>Work left\<close>

fun weight :: "stage \<Rightarrow> drv_world thread \<Rightarrow> nat" where
  "weight Arrived t = length (w_inbox (world t)) + 4"
| "weight (Opened g) t = length (w_inbox (world t)) + 3"
| "weight (InMutex g) t = length (w_inbox (world t)) + 2"
| "weight (Released g) t = 1"
| "weight Closed t = 0"

definition work :: "site \<Rightarrow> nat" where
  "work S = (\<Sum>c \<in> dom (peers S). case the (peers S c) of (st, t) \<Rightarrow> weight st t)"

lemma work_put:
  assumes "finite (dom (peers S))" and "peers S c = Some (st, t)" and "weight st' u < weight st t"
  shows "work (put c st' u S) < work S"
proof -
  have dom: "dom (peers (put c st' u S)) = dom (peers S)" and c: "c \<in> dom (peers S)"
    using assms(2) by auto
  show ?thesis
    unfolding work_def dom
  proof (rule sum_strict_mono_ex1 [OF assms(1)])
    show "\<exists>b \<in> dom (peers S). (case the (peers (put c st' u S) b) of (st, t) \<Rightarrow> weight st t) <
        (case the (peers S b) of (st, t) \<Rightarrow> weight st t)"
      using c assms(2,3) by (intro bexI [of _ c]) simp_all
  qed (use assms(2,3) in auto)
qed

lemma work_order [simp]: "work (S\<lparr>lock_order := cs\<rparr>) = work S"
  by (simp add: work_def)

lemma work_step_inv:
  assumes "work_step k S T" and inv: "site_inv k d S"
  shows "site_inv k d T \<and> work T < work S"
  using assms(1)
proof (cases rule: work_step.cases)
  case (opens c t g u)
  then show ?thesis
    using opens_inv [OF inv opens(2,3)] inv by (auto simp: site_inv_def intro: work_put)
next
  case (gives_up c t u)
  then show ?thesis using opens_inv [OF inv gives_up(2,3)] by simp
next
  case (locks c g t u)
  have "world u = world (load S t)" using locks(4) by (auto simp: pthread_mutex_lock_def split: if_splits)
  then show ?thesis
    using locks_inv [OF inv locks(2-4)] inv locks(1,2) by (auto simp: site_inv_def intro: work_put)
next
  case (passes c g t n u)
  then show ?thesis
    using passes_inv [OF inv passes(2,3)] inv by (auto simp: site_inv_def intro: work_put)
next
  case (unlocks c g t n u)
  then show ?thesis
    using unlocks_inv [OF inv unlocks(2,3)] inv by (auto simp: site_inv_def intro: work_put)
next
  case (closes c g t u)
  then show ?thesis
    using closes_inv [OF inv closes(2,3)] inv by (auto simp: site_inv_def intro: work_put)
qed

lemma work_step_ended:
  assumes "work_step k S T" and "site_inv k d S" and "ended_ok S"
  shows "ended_ok T"
  using assms(1)
proof (cases rule: work_step.cases)
  case (gives_up c t u)
  then show ?thesis using opens_inv [OF assms(2) gives_up(2,3)] by simp
next
  case (closes c g t u)
  then have "c \<in> hung_up S" using assms(3) by (auto simp: ended_ok_def)
  with closes assms(3) show ?thesis by (auto simp: ended_ok_def)
qed (use assms(3) in \<open>auto simp: ended_ok_def split: if_splits\<close>)

definition idle_world :: "kernel \<Rightarrow> drv_world \<Rightarrow> bool" where
  "idle_world k w \<longleftrightarrow> drv_inv k w \<and> quiet (drv_view w)"

lemma site_reach_ok:
  assumes "site_reach k w S" and "idle_world k w"
  shows "site_inv k (w_dev w) S \<and> ended_ok S"
  using assms(1)
proof induction
  case site_init
  then show ?case
    using assms(2)
    by (simp add: idle_world_def site_inv_def site_start_def peers_ok_def order_ok_def progress_ok_def
        atomic_def ended_ok_def)
next
  case (site_client S c T)
  then show ?case using client_step_inv by blast
next
  case (site_work S T)
  then show ?case using work_step_inv work_step_ended by blast
qed

lemmas site_reach_inv = site_reach_ok [THEN conjunct1]

subsection \<open>Threads neither block each other nor fault\<close>

definition all_closed :: "site \<Rightarrow> bool" where
  "all_closed S \<longleftrightarrow> (\<forall>c st t. peers S c = Some (st, t) \<longrightarrow> st = Closed)"

lemma not_locked_free:
  assumes "peers_ok S" and "\<not> locked S"
  shows "mutex_free S"
proof -
  have "Mutex \<notin> held t" if "peers S c = Some (st, t)" for c st t
    using peers_okD(1) [OF assms(1) that] that assms(2) by (cases st) (auto simp: locked_def)
  then show ?thesis by (simp add: mutex_free_def)
qed

text \<open>The part of \<open>recieve_text\<close> that a thread is about to run, as far as the mutex lets it.\<close>

fun next_part :: "kernel \<Rightarrow> nat \<Rightarrow> stage \<Rightarrow> drv_world thread \<Rightarrow> unit run" where
  "next_part k n Arrived t = (case begin_connection (driver_os k) t of (r, _) \<Rightarrow> if r = None then None else ret ())"
| "next_part k n (Opened g) t = bindx (pthread_mutex_lock Mutex t) (\<lambda>_. ret ())"
| "next_part k n (InMutex g) t = bindx (recv_pass n (driver_os k) g t) (\<lambda>_. ret ())"
| "next_part k n (Released g) t = bindx (close_connection (driver_os k) g t) (\<lambda>_. ret ())"
| "next_part k n Closed t = ret ()"

lemma part_returns:
  assumes inv: "site_inv k d S" and c: "peers S c = Some (st, t)"
  shows "\<exists>n. \<forall>m \<ge> n. next_part k m st (load S t) = ret ()"
proof -
  have ok: "peers_ok S" "drv_inv k (shared S)" using inv by (simp_all add: site_inv_def)
  note pk = peers_okD(1) [OF ok(1) c]
  show ?thesis
  proof (cases st)
    case Arrived
    obtain r u where b: "begin_connection (driver_os k) (load S t) = (r, u)" by force
    with opens_inv [OF inv] c Arrived show ?thesis by fastforce
  next
    case (Opened g)
    then show ?thesis using pk by (simp add: pthread_mutex_lock_def)
  next
    case (InMutex g)
    obtain n x where "recv_pass n (driver_os k) g (load S t) = ret x"
      using holder_can_pass [OF inv, of c g t] c InMutex by blast
    then show ?thesis
      using recv_pass_mono InMutex by (intro exI [of _ n]) fastforce
  next
    case (Released g)
    then show ?thesis
      using close_driver [of k "load S t" g] pk ok(2) by (auto simp: has_streams_def)
  qed simp
qed

text \<open>The thread in the mutex waits for its client, which has neither sent more nor closed its end.\<close>

definition awaiting :: "site \<Rightarrow> nat \<Rightarrow> bool" where
  "awaiting S c \<longleftrightarrow> (\<exists>g t. peers S c = Some (InMutex g, t) \<and> w_inbox (world t) = []) \<and> c \<notin> hung_up S"

lemma can_step:
  assumes inv: "site_inv k d S" and open_: "\<not> all_closed S" and live: "\<nexists>c. awaiting S c"
  shows "\<exists>T. work_step k S T"
proof (cases "locked S")
  case True
  then obtain c g t where c: "peers S c = Some (InMutex g, t)" by (auto simp: locked_def)
  obtain n again u where run: "recv_pass n (driver_os k) g (load S t) = ret (again, u)"
    using holder_can_pass [OF inv c] by blast
  have again: "again \<longleftrightarrow> w_inbox (world t) \<noteq> []"
    using inv c run by (cases rule: pass_cases) simp_all
  show ?thesis
  proof (cases again)
    case True
    then show ?thesis using passes [OF c, of n k u] run again by auto
  next
    case False
    moreover from this have "c \<in> hung_up S" using live c again by (auto simp: awaiting_def)
    ultimately show ?thesis using unlocks [OF c, of n k u] run again by auto
  qed
next
  case False
  then have free: "mutex_free S"
    using inv not_locked_free by (simp add: site_inv_def)
  obtain c st t where c: "peers S c = Some (st, t)" "st \<noteq> Closed"
    using open_ by (auto simp: all_closed_def)
  obtain n where ret: "next_part k n st (load S t) = ret ()"
    using part_returns [OF inv c(1)] by blast
  show ?thesis
  proof (cases st)
    case Arrived
    obtain r u where b: "begin_connection (driver_os k) (load S t) = (r, u)" by force
    then show ?thesis
      using opens gives_up c(1) Arrived by (cases r) blast+
  next
    case (Opened g)
    then obtain u where "pthread_mutex_lock Mutex (load S t) = ret u" using ret by auto
    from locks [OF _ free this] c(1) Opened show ?thesis by blast
  next
    case (Released g)
    then obtain u where "close_connection (driver_os k) g (load S t) = ret u" using ret by auto
    from closes [OF _ this] c(1) Released show ?thesis by blast
  qed (use c False in \<open>auto simp: locked_def\<close>)
qed


lemma work_step_clients:
  "work_step k S T \<Longrightarrow> sent T = sent S \<and> dom (peers T) = dom (peers S) \<and> hung_up T = hung_up S"
  by (cases rule: work_step.cases) (auto split: if_splits)

lemma work_steps_clients:
  "(work_step k)\<^sup>*\<^sup>* S T \<Longrightarrow> sent T = sent S \<and> dom (peers T) = dom (peers S) \<and> hung_up T = hung_up S"
  by (induction rule: rtranclp_induct) (simp, metis work_step_clients)

lemma all_hung_up_live: "dom (peers S) \<subseteq> hung_up S \<Longrightarrow> \<nexists>c. awaiting S c"
  by (auto simp: awaiting_def)

text \<open>The threads run until all are done or the one in the mutex waits for its client.\<close>

lemma work_stops:
  "site_inv k d S \<Longrightarrow> \<exists>T. (work_step k)\<^sup>*\<^sup>* S T \<and> (all_closed T \<or> (\<exists>c. awaiting T c))"
proof (induction "work S" arbitrary: S rule: less_induct)
  case less
  show ?case
  proof (cases "all_closed S \<or> (\<exists>c. awaiting S c)")
    case False
    then obtain R where "work_step k S R" using can_step less.prems by blast
    with less.hyps [of R] work_step_inv [OF this less.prems] show ?thesis
      by (meson converse_rtranclp_into_rtranclp)
  qed blast
qed

lemma work_finishes:
  assumes "site_inv k d S" and "dom (peers S) \<subseteq> hung_up S"
  shows "\<exists>T. (work_step k)\<^sup>*\<^sup>* S T \<and> all_closed T"
proof -
  obtain T where T: "(work_step k)\<^sup>*\<^sup>* S T" "all_closed T \<or> (\<exists>c. awaiting T c)"
    using work_stops [OF assms(1)] by blast
  then have "\<nexists>c. awaiting T c"
    using work_steps_clients [OF T(1)] assms(2) by (intro all_hung_up_live) simp
  with T show ?thesis by blast
qed

text \<open>The steps of everything but one client.\<close>

definition others :: "kernel \<Rightarrow> nat \<Rightarrow> site \<Rightarrow> site \<Rightarrow> bool" where
  "others k c S T \<longleftrightarrow> work_step k S T \<or> (\<exists>b. b \<noteq> c \<and> client_step b S T)"

lemma awaiting_locked: "awaiting S c \<Longrightarrow> peers_ok S \<Longrightarrow> \<not> mutex_free S"
  using peers_okD(1) by (fastforce simp: awaiting_def mutex_free_def)

lemma others_blocked:
  assumes step: "others k c S T" and inv: "site_inv k d S" and wait: "awaiting S c"
  shows "awaiting T c \<and> lock_order T = lock_order S \<and> w_dev (shared T) = w_dev (shared S) \<and> out_of T = out_of S"
proof -
  obtain g t where c: "peers S c = Some (InMutex g, t)" "w_inbox (world t) = []" "c \<notin> hung_up S"
    using wait by (auto simp: awaiting_def)
  have ok: "peers_ok S" "progress_ok k d S" using inv by (simp_all add: site_inv_def)
  from step consider (work) "work_step k S T" | (client) b where "b \<noteq> c" "client_step b S T"
    by (auto simp: others_def)
  then show ?thesis
  proof cases
    case work
    then show ?thesis
    proof (cases rule: work_step.cases)
      case (opens b t' g' u)
      then show ?thesis
        using opens_inv [OF inv opens(2,3)] c by (auto simp: awaiting_def out_of_def fun_eq_iff)
    next
      case (gives_up b t' u)
      then show ?thesis using opens_inv [OF inv gives_up(2,3)] by simp
    next
      case (locks b g' t' u)
      then show ?thesis using awaiting_locked [OF wait ok(1)] by simp
    next
      case (passes b g' t' n u)
      then show ?thesis using one_holder [OF ok(2) _ c(1)] c by auto
    next
      case (unlocks b g' t' n u)
      then show ?thesis using one_holder [OF ok(2) _ c(1)] c by auto
    next
      case (closes b g' t' u)
      then show ?thesis
        using closes_inv [OF inv closes(2,3)] c by (auto simp: awaiting_def out_of_def fun_eq_iff)
    qed
  next
    case client
    from client(2) show ?thesis
    proof (cases rule: client_step.cases)
      case (connects ps sock)
      then show ?thesis using c client(1) by (auto simp: awaiting_def arrive_def out_of_def fun_eq_iff)
    next
      case (sends x p)
      then show ?thesis
        using c client(1) by (cases x) (auto simp: awaiting_def deliver_def out_of_def fun_eq_iff)
    next
      case (hangs_up x)
      then show ?thesis using c client(1) by (auto simp: awaiting_def)
    qed
  qed
qed

subsection \<open>The device survives\<close>







subsection \<open>Properties\<close>

text \<open>
  Claim C3: Connections are atomic. However the threads of any number of connections are
  interleaved, when no thread is in the mutex the device, and what every client has received,
  are exactly what serving the connections one after the other gives, in the order in which
  their threads locked the mutex; and the connections served are those past the mutex.
\<close>

theorem connections_atomic:
  assumes "site_reach k w S" and "idle_world k w" and "\<not> locked S"
  shows "serial (scan_overflow (driver_os k)) (driver_device k) (map (sent S) (lock_order S)) (w_dev w) =
       (w_dev (shared S), map (out_of S) (lock_order S)) \<and>
     distinct (lock_order S) \<and>
     set (lock_order S) = {c. \<exists>st t. peers S c = Some (st, t) \<and> past_lock st}"
  using site_reach_inv [OF assms(1,2)] assms(3)
  by (auto simp: site_inv_def progress_ok_def atomic_def order_ok_def)

text \<open>Two clients on a fresh device, for the examples.\<close>

definition fresh_world :: drv_world where
  "fresh_world = world (new_connection fresh_state [])"

definition two_clients :: site where
  "two_clients = (arrive 1 8 [[121, 10]] (arrive 0 7 [[120, 10]] (site_start fresh_world)))\<lparr>hung_up := {0, 1}\<rparr>"

lemma fresh_world_idle: "idle_world (sample_kernel [] []) fresh_world"
proof -
  have "connection_start (sample_kernel [] []) (new_connection fresh_state [])"
    by (rule new_connection_start) (simp_all add: sample_kernel_ok)
  then show ?thesis by (simp add: idle_world_def fresh_world_def connection_start_def)
qed

lemma two_clients_reach: "site_reach k fresh_world two_clients"
proof -
  let ?S = "arrive 1 8 [[121, 10]] (arrive 0 7 [[120, 10]] (site_start fresh_world))"
  have ok: "packets_ok [[120, 10]]" "packets_ok [[121, 10]]" by (simp_all add: packets_ok_def MAXBUFFER_def)
  have "site_reach k fresh_world ?S"
    by (intro site_client [OF site_client [OF site_init connects] connects])
      (simp_all add: site_start_def arrive_def ok)
  then have "site_reach k fresh_world (?S\<lparr>hung_up := insert 1 (hung_up ?S)\<rparr>)"
    by (rule site_client [OF _ hangs_up]) (simp add: arrive_def)
  then have "site_reach k fresh_world (?S\<lparr>hung_up := insert 1 (hung_up ?S)\<rparr>
      \<lparr>hung_up := insert 0 (hung_up (?S\<lparr>hung_up := insert 1 (hung_up ?S)\<rparr>))\<rparr>)"
    by (rule site_client [OF _ hangs_up]) (simp add: arrive_def)
  then show ?thesis by (simp add: two_clients_def arrive_def site_start_def)
qed

lemma two_clients_hung_up: "dom (peers two_clients) \<subseteq> hung_up two_clients"
  by (auto simp: two_clients_def arrive_def site_start_def split: if_splits)

lemma reach_closed:
  assumes "site_reach k w S" and "idle_world k w" and "dom (peers S) \<subseteq> hung_up S"
  shows "\<exists>T. site_reach k w T \<and> (work_step k)\<^sup>*\<^sup>* S T \<and> all_closed T"
proof -
  obtain T where T: "(work_step k)\<^sup>*\<^sup>* S T" "all_closed T"
    using work_finishes [OF site_reach_inv [OF assms(1,2)] assms(3)] by blast
  from T(1) have "site_reach k w T"
    by induction (use assms(1) site_work in blast)+
  with T show ?thesis by blast
qed

lemma closed_not_locked: "all_closed S \<Longrightarrow> \<not> locked S"
  by (auto simp: all_closed_def locked_def)

theorem connections_atomic_witness:
  "\<exists>S. site_reach (sample_kernel [] []) fresh_world S \<and> all_closed S \<and>
     snd (serial (scan_overflow (driver_os (sample_kernel [] []))) (driver_device (sample_kernel [] []))
       (map (sent S) (lock_order S)) (Some fresh_state)) = map (out_of S) (lock_order S)"
proof -
  obtain S where S: "site_reach (sample_kernel [] []) fresh_world S" "all_closed S"
    using reach_closed [OF two_clients_reach fresh_world_idle two_clients_hung_up] by blast
  then show ?thesis
    using connections_atomic [OF S(1) fresh_world_idle closed_not_locked [OF S(2)]]
    by (intro exI [of _ S]) (simp add: fresh_world_def)
qed



text \<open>
  Claim C24: One idle client stops the server. The mutex is held while \<open>recv\<close> waits. When the thread
  in the mutex has received everything its client sent and the client does not close its end,
  then, whatever all the other threads and clients do, as long as that client does nothing no
  other thread gets the mutex, nothing is written to the device and no client receives a byte.
\<close>

theorem idle_client_blocks:
  assumes "site_reach k w S" and "idle_world k w" and "awaiting S c" and "(others k c)\<^sup>*\<^sup>* S T"
  shows "awaiting T c \<and> lock_order T = lock_order S \<and> w_dev (shared T) = w_dev (shared S) \<and> out_of T = out_of S"
proof -
  from assms(4) have "site_reach k w T \<and> awaiting T c \<and> lock_order T = lock_order S \<and>
      w_dev (shared T) = w_dev (shared S) \<and> out_of T = out_of S"
  proof (induction rule: rtranclp_induct)
    case base
    then show ?case using assms(1,3) by simp
  next
    case (step T U)
    have "site_reach k w U"
      using step by (auto simp: others_def intro: site_client site_work)
    then show ?case
      using others_blocked [OF step(2)] site_reach_inv [OF _ assms(2), of T] step(3) by auto
  qed
  then show ?thesis by blast
qed

theorem idle_client_blocks_witness:
  "\<exists>S. site_reach (sample_kernel [] []) fresh_world S \<and> awaiting S 0 \<and>
     awaiting (arrive 1 8 [[121, 10]] S) 0 \<and> lock_order (arrive 1 8 [[121, 10]] S) = lock_order S"
proof -
  let ?k = "sample_kernel [] []" and ?S = "arrive 0 7 [] (site_start fresh_world)"
  have S: "site_reach ?k fresh_world ?S"
    by (rule site_client [OF site_init connects]) (simp_all add: site_start_def packets_ok_def)
  obtain T where T: "(work_step ?k)\<^sup>*\<^sup>* ?S T" "all_closed T \<or> (\<exists>c. awaiting T c)"
    using work_stops [OF site_reach_inv [OF S fresh_world_idle]] by blast
  from T(1) have R: "site_reach ?k fresh_world T"
    by induction (use S site_work in blast)+
  have cl: "dom (peers T) = {0}" "hung_up T = {}"
    using work_steps_clients [OF T(1)] by (auto simp: arrive_def site_start_def)
  have "awaiting T 0"
  proof -
    have "0 \<in> dom (peers T)" using cl(1) by simp
    then obtain st t where t: "peers T 0 = Some (st, t)" by auto
    have "\<not> past_loop st"
      using site_reach_ok [OF R fresh_world_idle, THEN conjunct2] t cl(2) unfolding ended_ok_def by blast
    then have "st \<noteq> Closed" by auto
    then have "\<not> all_closed T" using t unfolding all_closed_def by blast
    then obtain c where c: "awaiting T c" using T(2) by blast
    then have "c \<in> dom (peers T)" by (auto simp: awaiting_def)
    with c cl(1) show ?thesis by simp
  qed
  moreover have "others ?k 0 T (arrive 1 8 [[121, 10]] T)"
    unfolding others_def using cl(1) connects [of T 1 "[[121, 10]]" 8]
    by (intro disjI2 exI [of _ 1]) (auto simp: packets_ok_def MAXBUFFER_def)
  ultimately show ?thesis
    using idle_client_blocks [OF R fresh_world_idle, of 0 "arrive 1 8 [[121, 10]] T"] R by blast
qed



end
