(* ===== verification/Server_List.thy ===== *)
theory Server_List
  imports Server_Thread
begin

section \<open>The list of connections\<close>

text \<open>
  The server keeps its connections in a singly linked list (\<^verbatim>\<open>SLIST\<close> of \<^verbatim>\<open>sys/queue.h\<close>) of
  heap-allocated \<open>Connections_t\<close>. This theory models the nodes with their \<open>entries\<close> pointer in a
  store, the list macros, \<open>newElement\<close>, \<open>delElement\<close> and \<open>check_completed_threads\<close> of
  \<^verbatim>\<open>server/aesdsocket_linkedlists.c\<close>. Walking a list through pointers need not end: the
  loops run on fuel.
\<close>

record cnode =
  node :: Connections_t
  entries :: nat          \<comment> \<open>the next node; 0 is null\<close>

record clist =
  store :: "nat \<rightharpoonup> cnode"
  slh_first :: nat
  closed_fds :: "resource list"   \<comment> \<open>what \<open>delElement\<close> has closed\<close>

definition SLIST_INIT :: "clist \<Rightarrow> clist" where
  "SLIST_INIT l = l\<lparr>slh_first := 0\<rparr>"

definition SLIST_EMPTY :: "clist \<Rightarrow> bool" where
  "SLIST_EMPTY l \<longleftrightarrow> slh_first l = 0"

definition deref_node :: "clist \<Rightarrow> nat \<Rightarrow> cnode run" where
  "deref_node l p =
     (if p = 0 then fault NullDeref else case store l p of None \<Rightarrow> fault BadPointer | Some x \<Rightarrow> ret x)"

definition SLIST_INSERT_HEAD :: "nat \<Rightarrow> clist \<Rightarrow> clist run" where
  "SLIST_INSERT_HEAD p l =
     bindx (deref_node l p) (\<lambda>x.
       ret (l\<lparr>store := (store l)(p \<mapsto> x\<lparr>entries := slh_first l\<rparr>), slh_first := p\<rparr>))"

text \<open>The search for the predecessor in \<^verbatim>\<open>SLIST_REMOVE\<close>, and the unlinking.\<close>

fun remove_after :: "nat \<Rightarrow> nat \<Rightarrow> nat \<Rightarrow> clist \<Rightarrow> clist run" where
  "remove_after 0 cur elm l = None"
| "remove_after (Suc n) cur elm l =
     bindx (deref_node l cur) (\<lambda>x.
       if entries x \<noteq> elm then remove_after n (entries x) elm l
       else bindx (deref_node l elm) (\<lambda>y.
              ret (l\<lparr>store := (store l)(cur \<mapsto> x\<lparr>entries := entries y\<rparr>)\<rparr>)))"

definition SLIST_REMOVE :: "nat \<Rightarrow> nat \<Rightarrow> clist \<Rightarrow> clist run" where
  "SLIST_REMOVE fuel elm l =
     (if slh_first l = elm
      then bindx (deref_node l elm) (\<lambda>x. ret (l\<lparr>slh_first := entries x\<rparr>))
      else remove_after fuel (slh_first l) elm l)"

text \<open>\<open>newElement\<close>: \<open>p\<close> is what \<open>malloc\<close> returned; the members not assigned are indeterminate.\<close>

definition newElement :: "nat \<Rightarrow> cnode \<Rightarrow> clist \<Rightarrow> nat \<times> clist" where
  "newElement p junk l =
     (if p = 0 then (0, l)
      else (p, l\<lparr>store := (store l)(p \<mapsto> junk\<lparr>node := (node junk)\<lparr>conn_done := False, pid := 0\<rparr>\<rparr>)\<rparr>))"

text \<open>\<open>delElement\<close> closes the socket and the stream of the connection; \<open>fclose\<close> of a null stream is undefined.\<close>

definition delElement :: "nat \<Rightarrow> nat \<Rightarrow> clist \<Rightarrow> clist run" where
  "delElement fuel conn l =
     bindx (SLIST_REMOVE fuel conn l) (\<lambda>l.
     bindx (deref_node l conn) (\<lambda>x.
       let l = l\<lparr>closed_fds := closed_fds l @ [Descriptor (istream (node x))]\<rparr>
       in if ostream (node x) = 0 then fault NullDeref
          else ret (l\<lparr>store := (store l)(conn := None),
                      closed_fds := closed_fds l @ [Stream (ostream (node x))]\<rparr>)))"

text \<open>
  The loop of \<^verbatim>\<open>SLIST_FOREACH(current, &head, entries)\<close> with a body that may delete
  \<open>current\<close>: the step to the next node reads \<open>current->entries\<close> after the body.
\<close>

fun foreach_conn :: "nat \<Rightarrow> (nat \<Rightarrow> Connections_t \<Rightarrow> bool) \<Rightarrow> nat \<Rightarrow> clist \<Rightarrow> clist run" where
  "foreach_conn 0 del current l = None"
| "foreach_conn (Suc n) del current l =
     (if current = 0 then ret l
      else bindx (deref_node l current) (\<lambda>x.
           bindx (if del current (node x) then delElement n current l else ret l) (\<lambda>l.
           bindx (deref_node l current) (\<lambda>x. foreach_conn n del (entries x) l))))"

definition check_completed_threads :: "nat \<Rightarrow> clist \<Rightarrow> clist run" where
  "check_completed_threads fuel l =
     (if SLIST_EMPTY l then foreach_conn fuel (\<lambda>_ c. conn_done c) (slh_first l) l else ret l)"

subsection \<open>The list as a sequence\<close>

text \<open>The nodes of a well-formed list, in order: distinct allocated nodes ending in null.\<close>

fun chain :: "(nat \<rightharpoonup> cnode) \<Rightarrow> nat \<Rightarrow> nat list \<Rightarrow> bool" where
  "chain s p [] \<longleftrightarrow> p = 0"
| "chain s p (q # qs) \<longleftrightarrow> p = q \<and> q \<noteq> 0 \<and> (\<exists>x. s q = Some x \<and> chain s (entries x) qs)"

lemma chain_upd [simp]: "p \<notin> set ps \<Longrightarrow> chain (s(p := x)) q ps = chain s q ps"
  by (induction ps arbitrary: q) auto

lemma chain_upd_entries:
  "s a = Some x \<Longrightarrow> entries y = entries x \<Longrightarrow> chain (s(a \<mapsto> y)) q ps = chain s q ps"
  by (induction ps arbitrary: q) auto

definition slist :: "clist \<Rightarrow> nat list \<Rightarrow> bool" where
  "slist l ps \<longleftrightarrow> chain (store l) (slh_first l) ps \<and> distinct ps"

lemma slist_insert:
  assumes "slist l ps" and "p \<noteq> 0" and "store l p = Some x" and "p \<notin> set ps"
  shows "\<exists>l'. SLIST_INSERT_HEAD p l = ret l' \<and> slist l' (p # ps)"
  using assms by (auto simp: SLIST_INSERT_HEAD_def deref_node_def slist_def)

lemma remove_after_ok:
  "chain (store l) cur (cur # qs) \<Longrightarrow> distinct (cur # qs) \<Longrightarrow> elm \<in> set qs \<Longrightarrow> length qs \<le> n \<Longrightarrow>
   \<exists>l'. remove_after n cur elm l = ret l' \<and> chain (store l') cur (cur # remove1 elm qs) \<and>
        slh_first l' = slh_first l \<and> closed_fds l' = closed_fds l \<and>
        (\<forall>p. p \<notin> set (cur # qs) \<longrightarrow> store l' p = store l p) \<and>
        (\<forall>p. map_option node (store l' p) = map_option node (store l p))"
proof (induction qs arbitrary: cur n)
  case (Cons q qs)
  obtain x where x: "cur \<noteq> 0" "store l cur = Some x" "entries x = q" "chain (store l) q (q # qs)"
    using Cons.prems(1) by auto
  obtain m where n: "n = Suc m" "length qs \<le> m" using Cons.prems(4) by (cases n) auto
  show ?case
  proof (cases "q = elm")
    case True
    obtain y where y: "store l q = Some y" "chain (store l) (entries y) qs" "q \<noteq> 0"
      using x(4) by auto
    then show ?thesis
      using x True n Cons.prems(2) by (auto simp: deref_node_def)
  next
    case False
    then obtain l' where l': "remove_after m q elm l = ret l'" "chain (store l') q (q # remove1 elm qs)"
      "slh_first l' = slh_first l" "closed_fds l' = closed_fds l"
      "\<forall>p. p \<notin> set (q # qs) \<longrightarrow> store l' p = store l p"
      "\<forall>p. map_option node (store l' p) = map_option node (store l p)"
      using Cons.IH [OF x(4), of m] Cons.prems(2,3) n(2) by auto
    have "store l' cur = Some x" using l'(5) Cons.prems(2) x(2) by auto
    then show ?thesis
      using l' x n False by (auto simp: deref_node_def)
  qed
qed simp

lemma slist_remove:
  assumes "slist l ps" and "elm \<in> set ps" and "length ps \<le> fuel"
  shows "\<exists>l'. SLIST_REMOVE fuel elm l = ret l' \<and> slist l' (remove1 elm ps) \<and> closed_fds l' = closed_fds l \<and>
     (\<forall>p. map_option node (store l' p) = map_option node (store l p))"
proof -
  obtain q qs where ps: "ps = q # qs" using assms(2) by (cases ps) auto
  have q: "slh_first l = q" "chain (store l) q (q # qs)" "distinct (q # qs)"
    using assms(1) by (auto simp: slist_def ps)
  show ?thesis
  proof (cases "q = elm")
    case True
    then show ?thesis
      using q by (auto simp: SLIST_REMOVE_def deref_node_def slist_def ps)
  next
    case False
    obtain l' where l': "remove_after fuel q elm l = ret l'" "chain (store l') q (q # remove1 elm qs)"
      "slh_first l' = slh_first l" "closed_fds l' = closed_fds l"
      "\<forall>p. map_option node (store l' p) = map_option node (store l p)"
      using remove_after_ok [OF q(2,3), of elm fuel] assms(2,3) False by (auto simp: ps)
    then show ?thesis
      using q False by (auto simp: SLIST_REMOVE_def slist_def ps distinct_remove1 dest: notin_set_remove1)
  qed
qed

text \<open>
  Claim C34: Deleting a connection from a well-formed list. If the stream of the connection is
  open, \<open>delElement\<close> returns, the list holds the other connections in the same order, the node is
  freed, no other node is, and the connection's socket and stream have been closed. If the stream
  is null, because \<open>recieve_text\<close> could not open the device, \<open>delElement\<close> closes a null stream,
  which is undefined.
\<close>

theorem delElement_correct:
  assumes "slist l ps" and "p \<in> set ps" and "store l p = Some x" and "length ps \<le> fuel"
  shows "if ostream (node x) = 0 then delElement fuel p l = fault NullDeref
     else \<exists>l'. delElement fuel p l = ret l' \<and> slist l' (remove1 p ps) \<and> store l' p = None \<and>
       (\<forall>q. q \<noteq> p \<longrightarrow> map_option node (store l' q) = map_option node (store l q)) \<and>
       closed_fds l' = closed_fds l @ [Descriptor (istream (node x)), Stream (ostream (node x))]"
proof -
  obtain l1 where l1: "SLIST_REMOVE fuel p l = ret l1" "slist l1 (remove1 p ps)" "closed_fds l1 = closed_fds l"
    "\<forall>q. map_option node (store l1 q) = map_option node (store l q)"
    using slist_remove [OF assms(1,2,4)] by blast
  obtain y where y: "store l1 p = Some y" "node y = node x"
    using l1(4) assms(3) by (metis map_option_eq_Some)
  have "p \<noteq> 0"
  proof -
    have "chain s q rs \<Longrightarrow> p \<in> set rs \<Longrightarrow> p \<noteq> 0" for s q rs
      by (induction rs arbitrary: q) auto
    then show ?thesis using assms(1,2) by (auto simp: slist_def)
  qed
  moreover have "p \<notin> set (remove1 p ps)"
    using assms(1) by (simp add: slist_def)
  ultimately show ?thesis
    using l1 y by (auto simp: delElement_def deref_node_def slist_def)
qed

definition two_conns :: clist where
  "two_conns =
     \<lparr>store = [8 \<mapsto> \<lparr>node = \<lparr>conn_done = True, ostream = 3, filename = FILENAME, istream = 7, pid = 1, conn_s = []\<rparr>, entries = 9\<rparr>,
               9 \<mapsto> \<lparr>node = \<lparr>conn_done = True, ostream = 4, filename = FILENAME, istream = 6, pid = 2, conn_s = []\<rparr>, entries = 0\<rparr>],
      slh_first = 8, closed_fds = []\<rparr>"

theorem delElement_correct_witness:
  "\<exists>l'. delElement 2 9 two_conns = ret l' \<and> slist l' [8] \<and> closed_fds l' = [Descriptor 6, Stream 4]"
proof -
  have "slist two_conns [8, 9]" by (simp add: slist_def two_conns_def)
  from delElement_correct [OF this, of 9 "the (store two_conns 9)" 2] show ?thesis
    by (simp add: two_conns_def) blast
qed

text \<open>
  Finished connections are never cleaned up. The test in \<open>check_completed_threads\<close> is
  the wrong way round, so it does nothing to any list, whatever connections in it are done.
\<close>

theorem check_completed_threads_noop: "check_completed_threads (Suc n) l = ret l"
  by (simp add: check_completed_threads_def SLIST_EMPTY_def)

end
