(* ===== verification/Server_Main.thy ===== *)
theory Server_Main
  imports Server_List
begin

section \<open>The server: start and end of the process\<close>

text \<open>
  \<open>open_connection\<close>, \<open>closeconnection\<close>, \<open>setupsigaction\<close>, \<open>sigetrm_handler\<close>, \<open>start_daemon\<close>,
  \<open>deleteFile\<close> and the part of \<open>main\<close> before the accept loop, of
  \<^verbatim>\<open>server/aesdsocket_linkedlists.c\<close>. The return values of the system calls are the fields of
  the record \<open>answers\<close>; what the calls do to the process is in the record \<open>process\<close>. A call of
  \<open>exit\<close> ends the process and is a result of its own.
\<close>

datatype 'a outcome = Return 'a | Exit int

definition EXIT_SUCCESS :: int where "EXIT_SUCCESS = 0"
definition EXIT_FAILURE :: int where "EXIT_FAILURE = 1"
definition SIGINT :: int where "SIGINT = 2"
definition SIGTERM :: int where "SIGTERM = 15"

record answers =
  getaddrinfo_r :: int
  addrinfo_n :: nat      \<comment> \<open>the number of structures \<open>getaddrinfo\<close> allocates\<close>
  socket_r :: int
  setsockopt_r :: int
  bind_r :: int
  listen_r :: int
  sigaction_r :: "int \<Rightarrow> int"
  fork_r :: int
  setsid_r :: int
  chdir_r :: int

text \<open>
  The global \<open>Context\<close>: whether its pointers are null; \<open>socfd\<close> points to the variable of that
  name in \<open>main\<close>, which is indeterminate (\<open>None\<close>) until it is assigned.
\<close>

record Context =
  backstream_buffer :: bool
  ctx_socfd :: bool
  servinfo :: bool

record process =
  global_ctx :: Context
  socfd :: "int option"
  open_sockets :: "int list"
  listening :: bool
  addrinfos :: nat
  sig_handlers :: "int set"
  conns :: clist
  mutexes_live :: bool
  umask_val :: nat
  cwd :: string
  std_fds :: bool
  heap_buffers :: nat   \<comment> \<open>blocks from \<open>malloc\<close> that the \<open>Context\<close> points to\<close>

definition fresh_process :: process where
  "fresh_process =
     \<lparr>global_ctx = \<lparr>backstream_buffer = False, ctx_socfd = False, servinfo = False\<rparr>, socfd = None,
      open_sockets = [], listening = False, addrinfos = 0, sig_handlers = {},
      conns = \<lparr>store = Map.empty, slh_first = 0, closed_fds = []\<rparr>, mutexes_live = True,
      umask_val = 18, cwd = ''.'', std_fds = True, heap_buffers = 0\<rparr>"

abbreviation set_servinfo :: "bool \<Rightarrow> process \<Rightarrow> process" where
  "set_servinfo b s \<equiv> s\<lparr>global_ctx := (global_ctx s)\<lparr>servinfo := b\<rparr>\<rparr>"

text \<open>\<open>freeaddrinfo\<close> releases the whole list, \<open>free\<close> its first structure only.\<close>

definition freeaddrinfo :: "process \<Rightarrow> process" where
  "freeaddrinfo s = s\<lparr>addrinfos := 0\<rparr>"

definition free_servinfo :: "process \<Rightarrow> process" where
  "free_servinfo s = s\<lparr>addrinfos := addrinfos s - 1\<rparr>"

definition open_connection :: "answers \<Rightarrow> process \<Rightarrow> (int \<times> process) outcome" where
  "open_connection a s =
     (if getaddrinfo_r a \<noteq> 0 then Return (-1, s)
      else
        let s = set_servinfo True (s\<lparr>addrinfos := addrinfo_n a\<rparr>);
            fd = socket_r a;
            s = s\<lparr>socfd := Some fd\<rparr>
        in if fd = -1 then Return (-1, set_servinfo False (freeaddrinfo s))
           else
             let s = s\<lparr>open_sockets := fd # open_sockets s\<rparr>
             in if setsockopt_r a \<noteq> 0 then Exit EXIT_FAILURE
                else if bind_r a = -1 then Return (-1, s)
                else
                  let s = set_servinfo False (free_servinfo s)
                  in if listen_r a = -1 then Return (-1, s)
                     else Return (0, s\<lparr>listening := True\<rparr>))"

text \<open>
  \<open>closeconnection\<close>: closing through \<open>socfd\<close> reads the variable it points to. The loop over the
  connections has the same test as \<open>check_completed_threads\<close>.
\<close>

definition closeconnection :: "nat \<Rightarrow> process \<Rightarrow> (int \<times> process) run" where
  "closeconnection fuel s =
     bindx (if ctx_socfd (global_ctx s)
            then (case socfd s of
                    None \<Rightarrow> fault Uninitialised
                  | Some fd \<Rightarrow> ret (s\<lparr>open_sockets := remove1 fd (open_sockets s), listening := False\<rparr>))
            else ret s) (\<lambda>s.
     let s = (if servinfo (global_ctx s) then free_servinfo s else s);
         s = (if backstream_buffer (global_ctx s) then s\<lparr>heap_buffers := heap_buffers s - 1\<rparr> else s)
     in bindx (if SLIST_EMPTY (conns s)
               then foreach_conn fuel (\<lambda>_ _. True) (slh_first (conns s)) (conns s)
               else ret (conns s)) (\<lambda>l.
          ret (0, s\<lparr>conns := l, mutexes_live := False\<rparr>)))"

definition sigetrm_handler :: "nat \<Rightarrow> int \<Rightarrow> process \<Rightarrow> process outcome run" where
  "sigetrm_handler fuel signum s =
     (if signum = SIGINT \<or> signum = SIGTERM
      then bindx (closeconnection fuel s) (\<lambda>_. ret (Exit EXIT_SUCCESS))
      else ret (Return s))"

definition setupsigaction :: "answers \<Rightarrow> process \<Rightarrow> int \<times> process" where
  "setupsigaction a s =
     (if sigaction_r a SIGINT = -1 then (-1, s)
      else
        let s = s\<lparr>sig_handlers := insert SIGINT (sig_handlers s)\<rparr>
        in if sigaction_r a SIGTERM = -1 then (-1, s)
           else (0, s\<lparr>sig_handlers := insert SIGTERM (sig_handlers s)\<rparr>))"

definition start_daemon :: "answers \<Rightarrow> process \<Rightarrow> process outcome" where
  "start_daemon a s =
     (if fork_r a < 0 then Exit EXIT_FAILURE
      else if 0 < fork_r a then Exit EXIT_SUCCESS
      else if setsid_r a < 0 then Exit EXIT_FAILURE
      else Return (s\<lparr>umask_val := 0, cwd := (if chdir_r a = 0 then ''/'' else cwd s), std_fds := False\<rparr>))"

text \<open>\<open>deleteFile\<close>: the answers of \<open>access\<close> and \<open>remove\<close>; the second result tells whether \<open>remove\<close> ran.\<close>

definition deleteFile :: "int \<Rightarrow> int \<Rightarrow> int \<times> bool" where
  "deleteFile access_r remove_r =
     (if access_r \<noteq> -1 then if remove_r \<noteq> 0 then (-1, True) else (0, True) else (0, False))"

text \<open>
  \<open>main\<close> up to the accept loop. The result is how the process ended, with its state, or the
  state in which the accept loop starts; \<open>opts\<close> are the options \<open>getopt\<close> finds.
\<close>

datatype startup = Returned int process | Exited int | Accepting process

definition main_startup :: "nat \<Rightarrow> answers \<Rightarrow> string \<Rightarrow> process \<Rightarrow> startup run" where
  "main_startup fuel a opts s =
     (case setupsigaction a s of
        (r, s) \<Rightarrow>
          if r = -1 then ret (Exited EXIT_FAILURE)
          else
            let daemon = (CHR ''d'' \<in> set opts);
                s = s\<lparr>global_ctx := (global_ctx s)\<lparr>ctx_socfd := True\<rparr>\<rparr>
            in case open_connection a s of
                 Exit c \<Rightarrow> ret (Exited c)
               | Return (r, s) \<Rightarrow>
                   if r = -1 then bindx (closeconnection fuel s) (\<lambda>(_, s). ret (Returned (-1) s))
                   else if daemon
                        then (case start_daemon a s of
                                Exit c \<Rightarrow> ret (Exited c)
                              | Return s \<Rightarrow> ret (Accepting (s\<lparr>conns := SLIST_INIT (conns s)\<rparr>)))
                        else ret (Accepting (s\<lparr>conns := SLIST_INIT (conns s)\<rparr>)))"

subsection \<open>Properties\<close>

lemma closeconnection_eq:
  assumes "ctx_socfd (global_ctx s)"
  shows "closeconnection (Suc n) s =
    (case socfd s of
       None \<Rightarrow> fault Uninitialised
     | Some fd \<Rightarrow> ret (0, s\<lparr>open_sockets := remove1 fd (open_sockets s), listening := False,
                            addrinfos := addrinfos s - (if servinfo (global_ctx s) then 1 else 0),
                            heap_buffers := heap_buffers s - (if backstream_buffer (global_ctx s) then 1 else 0),
                            mutexes_live := False\<rparr>))"
  using assms
  by (simp add: closeconnection_def SLIST_EMPTY_def free_servinfo_def Let_def split: option.split)

definition network_ok :: "answers \<Rightarrow> bool" where
  "network_ok a \<longleftrightarrow> getaddrinfo_r a = 0 \<and> socket_r a \<noteq> -1 \<and> setsockopt_r a = 0 \<and> bind_r a \<noteq> -1 \<and> listen_r a \<noteq> -1"

definition signals_ok :: "answers \<Rightarrow> bool" where
  "signals_ok a \<longleftrightarrow> sigaction_r a SIGINT \<noteq> -1 \<and> sigaction_r a SIGTERM \<noteq> -1"

lemmas startup_defs = main_startup_def setupsigaction_def open_connection_def closeconnection_eq
  start_daemon_def signals_ok_def network_ok_def SLIST_INIT_def SLIST_EMPTY_def fresh_process_def
  free_servinfo_def freeaddrinfo_def Let_def

text \<open>
  Claim C27: The server starts accepting exactly when every call it needs succeeds. Then it
  listens on the one socket it has opened, both signal handlers are installed, the list of
  connections is empty and no pointer to the address list is left; asked to be a daemon, it
  accepts only in the child that has become a session leader, in the root directory if \<open>chdir\<close>
  worked, whose result the code ignores.
\<close>

theorem main_startup_accepts:
  "((\<exists>s. main_startup (Suc n) a opts fresh_process = ret (Accepting s)) \<longleftrightarrow>
      signals_ok a \<and> network_ok a \<and> (CHR ''d'' \<in> set opts \<longrightarrow> fork_r a = 0 \<and> 0 \<le> setsid_r a)) \<and>
   (\<forall>s. main_startup (Suc n) a opts fresh_process = ret (Accepting s) \<longrightarrow>
      open_sockets s = [socket_r a] \<and> listening s \<and> sig_handlers s = {SIGINT, SIGTERM} \<and>
      SLIST_EMPTY (conns s) \<and> \<not> servinfo (global_ctx s) \<and> mutexes_live s \<and>
      (CHR ''d'' \<in> set opts \<longrightarrow> cwd s = (if chdir_r a = 0 then ''/'' else cwd fresh_process) \<and> \<not> std_fds s))"
  by (auto simp: startup_defs split: if_splits option.splits)

definition good_answers :: answers where
  "good_answers = \<lparr>getaddrinfo_r = 0, addrinfo_n = 2, socket_r = 3, setsockopt_r = 0, bind_r = 0,
     listen_r = 0, sigaction_r = (\<lambda>_. 0), fork_r = 0, setsid_r = 1, chdir_r = 0\<rparr>"

theorem main_startup_accepts_witness:
  "\<exists>s. main_startup 1 good_answers ''d'' fresh_process = ret (Accepting s) \<and> open_sockets s = [3] \<and> cwd s = ''/''"
proof -
  have "\<exists>s. main_startup (Suc 0) good_answers ''d'' fresh_process = ret (Accepting s)"
    using main_startup_accepts [of 0 good_answers "''d''"]
    by (simp add: good_answers_def signals_ok_def network_ok_def)
  then show ?thesis
    using main_startup_accepts [of 0 good_answers "''d''"] by (auto simp: good_answers_def)
qed

text \<open>
  What a failed start leaves. If the address lookup fails, the cleanup closes the
  descriptor in a variable that was never set. If a later call fails, the process ends with
  -1 and no socket open; but once the socket exists, the address list is released with
  \<open>free\<close>, so all its structures but the first stay allocated.
\<close>

theorem main_startup_failure:
  assumes "signals_ok a" and "setsockopt_r a = 0" and "\<not> network_ok a"
  shows "if getaddrinfo_r a \<noteq> 0 then main_startup (Suc n) a opts fresh_process = fault Uninitialised
         else \<exists>s. main_startup (Suc n) a opts fresh_process = ret (Returned (-1) s) \<and> open_sockets s = [] \<and>
                 addrinfos s = (if socket_r a = -1 then 0 else addrinfo_n a - 1)"
  using assms by (auto simp: startup_defs)

theorem main_startup_failure_witness:
  "\<exists>s. main_startup 1 (good_answers\<lparr>bind_r := -1\<rparr>) [] fresh_process = ret (Returned (-1) s) \<and> addrinfos s = 1"
  using main_startup_failure [of "good_answers\<lparr>bind_r := -1\<rparr>" 0 "[]"]
  by (simp add: good_answers_def signals_ok_def network_ok_def) blast

text \<open>A signal ends an accepting server, whatever connections it has; it closes its socket first.\<close>

lemma sigterm_exits:
  assumes "ctx_socfd (global_ctx s)" and "socfd s = Some fd"
  shows "sigetrm_handler (Suc n) signum s =
    ret (if signum = SIGINT \<or> signum = SIGTERM then Exit EXIT_SUCCESS else Return s)"
  using assms by (simp add: sigetrm_handler_def closeconnection_eq)

end
