(* ===== verification/Server_Earlier.thy ===== *)
theory Server_Earlier
  imports Server_Properties Server_Main
begin

section \<open>The earlier, forking server\<close>

text \<open>
  \<^verbatim>\<open>server/aesdsocket.c\<close>, the variant with one process per connection, which the makefile no
  longer builds. It does not compile either: \<open>recieve_text\<close> dereferences \<open>istream\<close>, which its
  header declares an \<^verbatim>\<open>int\<close>, and calls \<open>print\<close>, which nothing declares. The model takes
  \<open>istream\<close> for what \<open>main\<close> stores in it, the address of the accepted descriptor, and \<open>print\<close> for
  output. The functions \<open>deleteFile\<close> and \<open>get_in_addr\<close> have the same text in both variants and
  are modelled with the other one; the timer is commented out. Unlike its successor, this variant opens the device again for every line
  it stores and for every answer, keeps the packets in one buffer that it searches for a
  command before terminating it, and does nothing after a seek.
\<close>

subsection \<open>The child's thread\<close>

text \<open>
  A process that serves a connection: its thread, and the fields of the \<open>Context\<close> that the
  thread and the end of the process use.
\<close>

record 'w child =
  thr :: "'w thread"
  ctx_ostream :: file_ptr
  backstream :: file_ptr
  backstream_buf :: bool   \<comment> \<open>whether \<open>backstream_buffer\<close> is set\<close>

definition savetofile_v1 :: "'w os \<Rightarrow> u8 list \<Rightarrow> 'w thread \<Rightarrow> (int \<times> 'w thread) run" where
  "savetofile_v1 os buffer t =
     (let (f, w) = os_fopen os FILENAME ''a+'' (world t); t = set_world w t
      in if f = 0 then ret (-1, t)
         else bindx (pthread_mutex_lock Filemutex (acquire (Stream f) t)) (\<lambda>t.
           let (ok, w) = os_fputs os (c_string buffer) f (world t);
               t = pthread_mutex_unlock Filemutex (set_world w t)
           in if \<not> ok then bindx (fclose os f t) (\<lambda>t. ret (-1, t))
              else bindx (fclose os f (set_world (os_fflush os f (world t)) t)) (\<lambda>t. ret (0, t))))"

text \<open>The loop of \<open>sendfile\<close>; the result tells whether it met the end of the file.\<close>

fun send_loop_v1 :: "nat \<Rightarrow> 'w os \<Rightarrow> file_ptr \<Rightarrow> fd \<Rightarrow> bool \<Rightarrow> 'w thread \<Rightarrow> (bool \<times> 'w thread) run" where
  "send_loop_v1 0 os f stream have_buf t = None"
| "send_loop_v1 (Suc n) os f stream have_buf t =
     (let (bs, w) = os_fread os f MAXBUFFER (world t); t = set_world w t
      in if bs = [] then ret (True, t)
         else if \<not> have_buf then fault NullDeref
         else
           let (sent, w) = os_send os stream bs (world t); t = set_world w t
           in if sent \<noteq> int (length bs) then ret (False, t)
              else send_loop_v1 n os f stream have_buf t)"

definition sendfile_v1 :: "nat \<Rightarrow> 'w os \<Rightarrow> string \<Rightarrow> 'w child \<Rightarrow> (int \<times> 'w child) run" where
  "sendfile_v1 fuel os name ch =
     (let t = thr ch;
          (g, w) = os_fopen os name ''r'' (world t);
          t = set_world w t
      in if g = 0 then ret (-1, ch\<lparr>thr := t, backstream := 0\<rparr>)
         else
           let t = acquire (Stream g) t;
               (have_buf, w) = os_malloc os MAXBUFFER (world t);
               t = set_world w t;
               t = (if have_buf then acquire Heap_block t else t);
               ch = ch\<lparr>backstream := g, backstream_buf := have_buf\<rparr>
           in bindx (send_loop_v1 fuel os g (istream (params t)) have_buf t) (\<lambda>(complete, t).
              if \<not> complete then ret (-1, ch\<lparr>thr := t\<rparr>)
              else bindx (fclose os g t) (\<lambda>t.
                ret (0, ch\<lparr>thr := (if have_buf then release Heap_block t else t),
                           backstream := 0, backstream_buf := False\<rparr>))))"

definition seek_v1 :: "'w os \<Rightarrow> aesd_seekto \<Rightarrow> 'w thread \<Rightarrow> 'w thread" where
  "seek_v1 os seekto t =
     (let (device_fd, w) = os_open os FILENAME (world t); t = set_world w t
      in if device_fd = -1 then t
         else
           let t = acquire (Descriptor device_fd) t;
               (r, w) = os_ioctl os device_fd AESDCHAR_IOCSEEKTO seekto (world t);
               t = set_world w t
           in if r = -1 then close_fd os device_fd t else close_fd os device_fd t)"

text \<open>
  The body of the receive loop for a packet that is not a command; \<open>buffer\<close> is the whole
  array, already terminated after the bytes received.
\<close>

definition store_v1 :: "nat \<Rightarrow> 'w os \<Rightarrow> u8 list \<Rightarrow> 'w child \<Rightarrow> 'w child run" where
  "store_v1 fuel os buffer ch =
     bindx (savetofile_v1 os buffer (thr ch)) (\<lambda>(_, t).
       let ch = ch\<lparr>thr := t\<rparr>
       in if NEWLINE \<in> set (c_string buffer)
          then bindx (sendfile_v1 fuel os FILENAME ch) (\<lambda>(_, ch). ret ch)
          else ret ch)"

text \<open>
  One pass of the receive loop, whether it goes on, and the loop. The array has \<open>MAXBUFFER + 1\<close> bytes, of which a packet replaces the first
  ones; \<open>sscanf\<close> reads it before it is terminated, so what earlier packets left there counts,
  and there is no string if no NUL is left. The return value -1 of \<open>recv\<close>, stored in a
  \<open>size_t\<close>, passes the loop test and is the index \<open>SIZE_MAX\<close>.
\<close>

definition recv_pass_v1 :: "nat \<Rightarrow> 'w os \<Rightarrow> u8 list \<Rightarrow> 'w child \<Rightarrow> (bool \<times> u8 list \<times> 'w child) run" where
  "recv_pass_v1 n os buffer ch =
     (let (r, w) = os_recv os (istream (params (thr ch))) MAXBUFFER (world (thr ch));
          ch = ch\<lparr>thr := set_world w (thr ch)\<rparr>;
          bs = (case r of None \<Rightarrow> [] | Some bs \<Rightarrow> bs);
          buffer = bs @ drop (length bs) buffer
      in if r = Some [] then ret (False, buffer, ch)
         else if MAXBUFFER < length bs \<or> 0 \<notin> set buffer then fault OutOfBounds
         else case parse_seek (scan_overflow os) buffer of
                Some seekto \<Rightarrow> ret (True, buffer, ch\<lparr>thr := seek_v1 os seekto (thr ch)\<rparr>)
              | None \<Rightarrow>
                  if r = None then fault OutOfBounds
                  else
                    let buffer = buffer[length bs := 0]
                    in bindx (store_v1 n os buffer ch) (\<lambda>ch. ret (True, buffer, ch)))"

fun recv_loop_v1 :: "nat \<Rightarrow> 'w os \<Rightarrow> u8 list \<Rightarrow> 'w child \<Rightarrow> 'w child run" where
  "recv_loop_v1 0 os buffer ch = None"
| "recv_loop_v1 (Suc n) os buffer ch =
     bindx (recv_pass_v1 n os buffer ch) (\<lambda>(again, buffer, ch).
       if again then recv_loop_v1 n os buffer ch else ret ch)"

text \<open>\<open>recieve_text\<close>; \<open>garbage\<close> is what the block that \<open>malloc\<close> returns holds.\<close>

definition recieve_text_v1 :: "nat \<Rightarrow> 'w os \<Rightarrow> u8 list \<Rightarrow> 'w child \<Rightarrow> 'w child run" where
  "recieve_text_v1 fuel os garbage ch =
     (let t = thr ch
      in if ostream (params t) = 0 then ret ch
         else
           let (have_buf, w) = os_malloc os (MAXBUFFER + 1) (world t); t = set_world w t
           in if \<not> have_buf then ret (ch\<lparr>thr := t\<rparr>)
              else bindx (pthread_mutex_lock Mutex (acquire Heap_block t)) (\<lambda>t.
                   bindx (recv_loop_v1 fuel os garbage (ch\<lparr>thr := t\<rparr>)) (\<lambda>ch.
                     ret (ch\<lparr>thr := release Heap_block (pthread_mutex_unlock Mutex (thr ch))\<rparr>))))"

subsection \<open>The child process\<close>

definition closeActiveConnection :: "'w os \<Rightarrow> 'w child \<Rightarrow> 'w child run" where
  "closeActiveConnection os ch =
     (let t = close_fd os (istream (params (thr ch))) (thr ch)
      in bindx (fclose os (ctx_ostream ch) t) (\<lambda>t. ret (ch\<lparr>thr := t, ctx_ostream := 0\<rparr>)))"

text \<open>
  What \<open>main\<close> does in the child, until it exits. \<open>create_r\<close> is the result of \<open>pthread_create\<close>,
  which is positive when it fails: then \<open>thread_id\<close> is not set when it is joined.
\<close>

definition child_main :: "nat \<Rightarrow> 'w os \<Rightarrow> u8 list \<Rightarrow> int \<Rightarrow> 'w child \<Rightarrow> (int \<times> 'w child) run" where
  "child_main fuel os garbage create_r ch =
     (let t = thr ch;
          (f, w) = os_fopen os FILENAME ''a+'' (world t);
          t = set_world w t;
          t = (if f = 0 then t else acquire (Stream f) t);
          ch = ch\<lparr>ctx_ostream := f\<rparr>;
          (have_args, w) = os_malloc os 32 (world t);
          t = set_world w t
      in if \<not> have_args then fault NullDeref
         else
           let t = (acquire Params t)\<lparr>params := (params t)\<lparr>ostream := f\<rparr>\<rparr>
           in if create_r < 0
              then bindx (closeActiveConnection os (ch\<lparr>thr := release Params t\<rparr>)) (\<lambda>ch. ret (EXIT_FAILURE, ch))
              else if 0 < create_r then fault Uninitialised
              else bindx (recieve_text_v1 fuel os garbage (ch\<lparr>thr := t\<rparr>)) (\<lambda>ch.
                   bindx (closeActiveConnection os ch) (\<lambda>ch. ret (EXIT_SUCCESS, ch))))"

subsection \<open>Specification\<close>

text \<open>
  One packet: the bytes left by earlier packets belong to the text in which a command is
  looked for. A command has no effect at all. Anything else is appended to the device, and
  every packet with a newline is answered with the whole contents.
\<close>

definition chunk_spec_v1 ::
  "(bool \<Rightarrow> nat \<Rightarrow> u32) \<Rightarrow> 'd device \<Rightarrow> u8 list \<Rightarrow> u8 list \<times> 'd \<Rightarrow> (u8 list \<times> 'd) \<times> u8 list" where
  "chunk_spec_v1 ovf D c s =
     (case s of (buffer, d) \<Rightarrow>
        let buffer = c @ drop (length c) buffer
        in case parse_seek ovf buffer of
             Some _ \<Rightarrow> ((buffer, d), [])
           | None \<Rightarrow>
               let d' = d_write D (c_string c) d
               in ((buffer[length c := 0], d'), if NEWLINE \<in> set (c_string c) then d_contents D d' else []))"

fun connection_spec_v1 ::
  "(bool \<Rightarrow> nat \<Rightarrow> u32) \<Rightarrow> 'd device \<Rightarrow> u8 list list \<Rightarrow> u8 list \<times> 'd \<Rightarrow> (u8 list \<times> 'd) \<times> u8 list" where
  "connection_spec_v1 ovf D [] s = (s, [])"
| "connection_spec_v1 ovf D (c # cs) s =
     (let (s, out) = chunk_spec_v1 ovf D c s; (s, out') = connection_spec_v1 ovf D cs s
      in (s, out @ out'))"

text \<open>
  The array of the receive loop. Nothing initialises it, so whether it holds a NUL beyond the first
  \<open>n\<close> bytes, which the packets overwrite, depends on what the block held before.
\<close>

definition buffer_ok :: "nat \<Rightarrow> u8 list \<Rightarrow> bool" where
  "buffer_ok n buffer \<longleftrightarrow> length buffer = Suc MAXBUFFER \<and> 0 \<in> set (drop n buffer)"

lemma c_string_terminated: "c_string (c @ 0 # xs) = c_string c"
  by (induction c) (auto simp: c_string_def)

lemma buffer_ok_packet:
  assumes ok: "buffer_ok n buffer" and c: "length c \<le> n"
  shows "buffer_ok n (c @ drop (length c) buffer)" and "0 \<in> set (c @ drop (length c) buffer)"
    and "buffer_ok n ((c @ drop (length c) buffer)[length c := 0])"
    and "c_string ((c @ drop (length c) buffer)[length c := 0]) = c_string c" and "length c \<le> MAXBUFFER"
proof -
  let ?b = "c @ drop (length c) buffer"
  have len: "length buffer = Suc MAXBUFFER" and nul: "0 \<in> set (drop n buffer)"
    using ok by (simp_all add: buffer_ok_def)
  from nul have "n < length buffer" by (metis drop_eq_Nil empty_iff list.set(1) not_le)
  then show le: "length c \<le> MAXBUFFER" using c len by simp
  have "drop n ?b = drop n buffer" using c by simp
  then show b: "buffer_ok n ?b" using len nul le by (simp add: buffer_ok_def)
  then show "0 \<in> set ?b" unfolding buffer_ok_def by (metis in_set_dropD)
  have "0 \<in> set (drop n (?b[length c := 0]))"
  proof (cases "length c < n")
    case True
    then show ?thesis using b by (simp add: buffer_ok_def)
  next
    case False
    then have "drop n (?b[length c := 0]) = (drop n ?b)[0 := 0]" using c by (simp add: drop_update_swap)
    moreover obtain y ys where "drop n ?b = y # ys"
      using b by (cases "drop n ?b") (auto simp: buffer_ok_def simp del: drop_append)
    ultimately have "drop n (?b[length c := 0]) = 0 # ys" by (simp only: list_update_code)
    then show ?thesis by (simp only: list.set insertI1)
  qed
  then show "buffer_ok n (?b[length c := 0])" using b by (simp add: buffer_ok_def)
  have "drop (length c) buffer \<noteq> []" using len le by simp
  then obtain x xs where "drop (length c) buffer = x # xs"
    by (cases "drop (length c) buffer") auto
  then show "c_string (?b[length c := 0]) = c_string c"
    by (simp add: list_update_append c_string_terminated)
qed

subsection \<open>More fuel gives the same result\<close>

lemma send_loop_v1_mono:
  "send_loop_v1 n os f s b t = Some r \<Longrightarrow> n \<le> m \<Longrightarrow> send_loop_v1 m os f s b t = Some r"
proof (induction n arbitrary: m t b)
  case (Suc n)
  then obtain m' where m: "m = Suc m'" "n \<le> m'" by (cases m) auto
  show ?case
    using Suc.prems(1)
    by (auto simp: m Let_def split: if_splits prod.splits intro: Suc.IH [OF _ m(2)])
qed simp

lemma sendfile_v1_mono:
  "sendfile_v1 n os name ch = Some r \<Longrightarrow> n \<le> m \<Longrightarrow> sendfile_v1 m os name ch = Some r"
  by (auto simp: sendfile_v1_def Let_def split: prod.splits if_splits
      elim!: bindx_mono intro: send_loop_v1_mono)

lemma store_v1_mono: "store_v1 n os b ch = Some r \<Longrightarrow> n \<le> m \<Longrightarrow> store_v1 m os b ch = Some r"
  unfolding store_v1_def Let_def
  by (erule bindx_mono) (auto split: if_splits elim!: bindx_mono intro: sendfile_v1_mono)

lemma recv_pass_v1_mono:
  "recv_pass_v1 n os b ch = Some r \<Longrightarrow> n \<le> m \<Longrightarrow> recv_pass_v1 m os b ch = Some r"
  by (auto simp: recv_pass_v1_def Let_def split: prod.splits if_splits option.splits
      elim!: bindx_mono intro: store_v1_mono)

lemma recv_loop_v1_mono:
  "recv_loop_v1 n os b ch = Some r \<Longrightarrow> n \<le> m \<Longrightarrow> recv_loop_v1 m os b ch = Some r"
proof (induction n arbitrary: m ch b r)
  case (Suc n)
  then obtain m' where m: "m = Suc m'" "n \<le> m'" by (cases m) auto
  show ?case
    using Suc.prems(1)
    by (auto simp: m split: prod.splits if_splits
        elim!: bindx_mono intro: recv_pass_v1_mono [OF _ m(2)] Suc.IH [OF _ m(2)])
qed simp

subsection \<open>Refinement\<close>

context connection_env
begin

text \<open>A part of the thread that leaves nothing open, with what it did to the device and sent.\<close>

definition effect :: "u8 list list \<Rightarrow> 'd \<Rightarrow> u8 list \<Rightarrow> 'w thread \<Rightarrow> 'w thread \<Rightarrow> bool" where
  "effect ins d out t u \<longleftrightarrow>
     inv (world u) \<and> quiet (view (world u)) \<and> v_in (view (world u)) = ins \<and>
     v_dev (view (world u)) = d \<and> v_out (view (world u)) = v_out (view (world t)) @ out \<and>
     same_thread t u \<and> owned u = owned t"

lemma savetofile_v1_refines:
  assumes "inv (world t)" and "quiet (view (world t))" and "calm t" and "length (c_string b) \<le> MAXBUFFER"
  shows "\<exists>u. savetofile_v1 os b t = ret (0, u) \<and> effect (v_in (view (world t))) (d_write D (c_string b) (v_dev (view (world t)))) [] t u"
proof -
  obtain f w where f: "os_fopen os FILENAME ''a+'' (world t) = (f, w)" "f \<noteq> 0" "inv w"
    and vf: "view w = (view (world t))\<lparr>v_left := (v_left (view (world t)))(f := Ended),
      v_app := insert f (v_app (view (world t)))\<rparr>"
    using fopen_append [OF assms(1)] by blast
  have "quiet (view w)" "f \<in> v_app (view w)"
    using assms(2) by (simp_all add: vf quiet_def)
  from fputs_flush [OF f(3) this assms(4)] obtain w' where
    w': "os_fputs os (c_string b) f w = (True, w')" "inv (os_fflush os f w')"
    and v': "view (os_fflush os f w') = (view w)\<lparr>v_dev := d_write D (c_string b) (v_dev (view w))\<rparr>" by blast
  show ?thesis
    using f w' v' vf fclose_ok [OF w'(2), of f] assms(2,3)
    by (auto simp: savetofile_v1_def effect_def Let_def thread_defs calm_def quiet_def same_thread_def)
qed

lemma send_loop_v1_refines:
  "inv (world t) \<Longrightarrow> length (left_of D (view (world t)) g) < n \<Longrightarrow>
    \<exists>u. send_loop_v1 n os g sock True t = ret (True, u) \<and> inv (world u) \<and> same_thread t u \<and> owned u = owned t \<and>
        view (world u) = (view (world t))
          \<lparr>v_out := v_out (view (world t)) @ left_of D (view (world t)) g,
           v_left := (v_left (view (world t)))(g := Ended)\<rparr>"
proof (induction n arbitrary: t)
  case (Suc n)
  let ?r = "left_of D (view (world t)) g"
  obtain w where rd: "os_fread os g MAXBUFFER (world t) = (take MAXBUFFER ?r, w)" "inv w"
    and vw: "view w = (view (world t))\<lparr>v_left := (v_left (view (world t)))(g :=
      if length ?r < MAXBUFFER then Ended else Left (drop MAXBUFFER ?r))\<rparr>"
    using fread_next [OF Suc.prems(1), of MAXBUFFER g] by (auto simp: MAXBUFFER_def)
  show ?case
  proof (cases "?r = []")
    case True
    then show ?thesis
      using rd vw by (simp add: MAXBUFFER_def fun_upd_def)
  next
    case False
    obtain w' where sd: "os_send os sock (take MAXBUFFER ?r) w = (int (length (take MAXBUFFER ?r)), w')" "inv w'"
      and vw': "view w' = (view w)\<lparr>v_out := v_out (view w) @ take MAXBUFFER ?r\<rparr>"
      using send_all [OF rd(2)] by blast
    have left: "left_of D (view w') g = drop MAXBUFFER ?r"
      by (simp add: vw' vw left_of_def)
    have short: "length (left_of D (view w') g) < n"
      using Suc.prems(2) False unfolding left by (cases ?r) (auto simp: MAXBUFFER_def)
    have loop: "send_loop_v1 (Suc n) os g sock True t = send_loop_v1 n os g sock True (set_world w' t)"
      using rd(1) sd(1) False by (simp add: MAXBUFFER_def)
    obtain x where x: "send_loop_v1 n os g sock True (set_world w' t) = ret (True, x)" "inv (world x)"
      "same_thread t x" "owned x = owned t"
      and vx: "view (world x) = (view w')\<lparr>v_out := v_out (view w') @ drop MAXBUFFER ?r,
           v_left := (v_left (view w'))(g := Ended)\<rparr>"
      using Suc.IH [of "set_world w' t"] sd(2) short left by (auto simp: fun_upd_def)
    have "view (world x) = (view (world t))\<lparr>v_out := v_out (view (world t)) @ ?r,
           v_left := (v_left (view (world t)))(g := Ended)\<rparr>"
      unfolding vx vw' vw by simp
    with x show ?thesis unfolding loop by blast
  qed
qed simp

lemma sendfile_v1_refines:
  assumes "inv (world (thr ch))" and "quiet (view (world (thr ch)))" and "istream (params (thr ch)) = sock"
  shows "\<exists>n u. sendfile_v1 n os FILENAME ch = ret (0, u) \<and> ctx_ostream u = ctx_ostream ch \<and>
    effect (v_in (view (world (thr ch)))) (v_dev (view (world (thr ch)))) (d_contents D (v_dev (view (world (thr ch))))) (thr ch) (thr u)"
proof -
  let ?t = "thr ch" and ?v = "view (world (thr ch))"
  obtain g w where g: "os_fopen os FILENAME ''r'' (world ?t) = (g, w)" "g \<noteq> 0" "inv w"
    and vg: "view w = ?v\<lparr>v_left := (v_left ?v)(g := Unread)\<rparr>"
    using fopen_read [OF assms(1)] by blast
  obtain w' where m: "os_malloc os MAXBUFFER w = (True, w')" "inv w'" "view w' = view w"
    using malloc_ok [OF g(3)] by blast
  let ?s = "acquire Heap_block (set_world w' (acquire (Stream g) (set_world w ?t)))"
  have s: "world ?s = w'" "owned ?s = Heap_block # Stream g # owned ?t" "params ?s = params ?t"
    by (simp_all add: acquire_def)
  have left: "left_of D (view w') g = d_contents D (v_dev ?v)"
    by (simp add: m(3) vg left_of_def)
  let ?n = "Suc (length (d_contents D (v_dev ?v)))"
  obtain u where u: "send_loop_v1 ?n os g sock True ?s = ret (True, u)" "inv (world u)" "same_thread ?t u"
    "owned u = Heap_block # Stream g # owned ?t"
    and vu: "view (world u) = ?v\<lparr>v_out := v_out ?v @ d_contents D (v_dev ?v), v_left := (v_left ?v)(g := Ended)\<rparr>"
    using send_loop_v1_refines [of ?s g ?n] unfolding s left
    by (auto simp: m vg left simp del: send_loop_v1.simps)
  let ?u = "release Heap_block (release (Stream g) (set_world (os_fclose os g (world u)) u))"
  have "sendfile_v1 ?n os FILENAME ch = ret (0, ch\<lparr>thr := ?u, backstream := 0, backstream_buf := False\<rparr>)"
    using g(1,2) m(1) u(1) assms(3) s(3)
    by (simp add: sendfile_v1_def Let_def acquire_def fclose_def del: send_loop_v1.simps)
  moreover have "effect (v_in ?v) (v_dev ?v) (d_contents D (v_dev ?v)) ?t ?u"
    using fclose_ok [OF u(2), of g] u(3,4) vu assms(2)
    by (auto simp: effect_def quiet_def release_def same_thread_def)
  ultimately show ?thesis
    by (intro exI [of _ ?n] exI) auto
qed

lemma seek_v1_refines:
  assumes "inv (world t)" and "quiet (view (world t))"
  shows "effect (v_in (view (world t))) (v_dev (view (world t))) [] t (seek_v1 os seekto t)"
proof -
  let ?v = "view (world t)"
  obtain d w1 r w2 where op: "os_open os FILENAME (world t) = (d, w1)" "d \<noteq> -1"
    and io: "os_ioctl os d AESDCHAR_IOCSEEKTO seekto w1 = (r, w2)" "inv w2"
    and res: "\<exists>q. view w2 = ?v\<lparr>v_fd := (v_fd ?v)(d \<mapsto> q)\<rparr>"
    using open_seek [OF assms(1), of seekto] by (cases "d_seek D seekto (v_dev ?v)") fastforce+
  then show ?thesis
    using close_ok [OF io(2), of d] assms(2)
    by (auto simp: effect_def seek_v1_def Let_def thread_defs quiet_def same_thread_def)
qed

lemma effect_trans: "effect i d1 o1 t u \<Longrightarrow> effect j d2 o2 u v \<Longrightarrow> effect j d2 (o1 @ o2) t v"
  by (auto simp: effect_def intro: same_thread_trans)

lemma effectD:
  assumes "effect i d out t u"
  shows "inv (world u)" and "quiet (view (world u))" and "v_in (view (world u)) = i" and "v_dev (view (world u)) = d"
    and "params u = params t" and "calm u = calm t" and "owned u = owned t" and "held u = held t"
  using assms same_thread_calm same_thread_params by (auto simp: effect_def same_thread_def)

lemma store_v1_refines:
  assumes "inv (world (thr ch))" and "quiet (view (world (thr ch)))" and "calm (thr ch)"
    and "istream (params (thr ch)) = sock" and "length (c_string b) \<le> MAXBUFFER"
    and d': "d' = d_write D (c_string b) (v_dev (view (world (thr ch))))"
  shows "\<exists>n u. store_v1 n os b ch = ret u \<and> ctx_ostream u = ctx_ostream ch \<and>
    effect (v_in (view (world (thr ch)))) d' (if NEWLINE \<in> set (c_string b) then d_contents D d' else []) (thr ch) (thr u)"
proof -
  obtain t where t: "savetofile_v1 os b (thr ch) = ret (0, t)" and e: "effect (v_in (view (world (thr ch)))) d' [] (thr ch) t"
    using savetofile_v1_refines [OF assms(1-3,5)] d' by blast
  show ?thesis
  proof (cases "NEWLINE \<in> set (c_string b)")
    case True
    obtain n u where u: "sendfile_v1 n os FILENAME (ch\<lparr>thr := t\<rparr>) = ret (0, u)" "ctx_ostream u = ctx_ostream ch"
      "effect (v_in (view (world (thr ch)))) d' (d_contents D d') t (thr u)"
      using sendfile_v1_refines [of "ch\<lparr>thr := t\<rparr>"] effectD [OF e] assms(4) by auto
    show ?thesis
      using t u(1,2) True effect_trans [OF e u(3)]
      by (intro exI [of _ n] exI [of _ u]) (simp add: store_v1_def)
  next
    case False
    then show ?thesis
      using t e by (intro exI [of _ 0] exI [of _ "ch\<lparr>thr := t\<rparr>"]) (simp add: store_v1_def)
  qed
qed

lemma recv_pass_v1_end:
  assumes "inv (world (thr ch))" and "istream (params (thr ch)) = sock" and "v_in (view (world (thr ch))) = []"
  shows "\<exists>w. (\<forall>n. recv_pass_v1 n os b ch = ret (False, b, ch\<lparr>thr := set_world w (thr ch)\<rparr>)) \<and>
    inv w \<and> view w = view (world (thr ch))"
proof -
  obtain w where "os_recv os sock MAXBUFFER (world (thr ch)) = (Some [], w)" "inv w" "view w = view (world (thr ch))"
    using recv_end [OF assms(1,3)] by blast
  then show ?thesis using assms(2) by (auto simp: recv_pass_v1_def)
qed

lemma recv_pass_v1_refines:
  assumes inv: "inv (world (thr ch))" and q: "quiet (view (world (thr ch)))" and calm: "calm (thr ch)"
    and sock: "istream (params (thr ch)) = sock" and b: "buffer_ok N b"
    and ins: "v_in (view (world (thr ch))) = c # cs" and c': "c \<noteq> []" "length c \<le> N"
    and spec: "chunk_spec_v1 (scan_overflow os) D c (b, v_dev (view (world (thr ch)))) = ((b1, d1), o1)"
  shows "\<exists>n u. (\<forall>m \<ge> n. recv_pass_v1 m os b ch = ret (True, b1, u)) \<and> ctx_ostream u = ctx_ostream ch \<and>
    effect cs d1 o1 (thr ch) (thr u) \<and> buffer_ok N b1"
proof -
  note buf = buffer_ok_packet [OF b c'(2)]
  have c: "c \<noteq> []" "length c \<le> MAXBUFFER" using c'(1) buf(5) by simp_all
  obtain w where w: "os_recv os sock MAXBUFFER (world (thr ch)) = (Some c, w)" "inv w"
    and vw: "view w = (view (world (thr ch)))\<lparr>v_in := cs\<rparr>"
    using recv_next [OF inv ins c(2)] by blast
  let ?ch = "ch\<lparr>thr := set_world w (thr ch)\<rparr>" and ?b = "c @ drop (length c) b"
  have pre: "inv (world (thr ?ch))" "quiet (view (world (thr ?ch)))" "calm (thr ?ch)"
    "istream (params (thr ?ch)) = sock"
    using w q calm sock by (simp_all add: vw quiet_def)
  show ?thesis
  proof (cases "parse_seek (scan_overflow os) ?b")
    case (Some seekto)
    let ?u = "?ch\<lparr>thr := seek_v1 os seekto (thr ?ch)\<rparr>"
    have "effect cs d1 o1 (thr ch) (thr ?u)" "b1 = ?b"
      using seek_v1_refines [OF pre(1,2), of seekto] spec Some
      by (simp_all add: effect_def vw chunk_spec_v1_def)
    moreover have "recv_pass_v1 m os b ch = ret (True, ?b, ?u)" for m
      using w(1) c buf(2) Some sock by (simp add: recv_pass_v1_def Let_def)
    ultimately show ?thesis
      using buf(1) by (intro exI [of _ 0] exI [of _ ?u]) simp
  next
    case None
    let ?b1 = "?b[length c := 0]"
    have b1: "b1 = ?b1" "d1 = d_write D (c_string ?b1) (v_dev (view w))"
      "o1 = (if NEWLINE \<in> set (c_string ?b1) then d_contents D d1 else [])"
      using spec None unfolding buf(4) by (auto simp: chunk_spec_v1_def Let_def vw)
    have "length (c_string ?b1) \<le> MAXBUFFER"
      unfolding buf(4) using c(2) length_takeWhile_le [of "\<lambda>x. x \<noteq> 0" c] by (simp add: c_string_def)
    from store_v1_refines [OF pre this, of d1] obtain n u where
      u: "store_v1 n os ?b1 ?ch = ret u" "ctx_ostream u = ctx_ostream ch" "effect cs d1 o1 (thr ch) (thr u)"
      using b1 by (auto simp: effect_def vw)
    have "\<forall>m \<ge> n. recv_pass_v1 m os b ch = ret (True, b1, u)"
      using w(1) c buf(2) None sock store_v1_mono [OF u(1)] b1(1) by (simp add: recv_pass_v1_def Let_def)
    then show ?thesis using u(2,3) buf(3) b1(1) by blast
  qed
qed

lemma recv_loop_v1_refines:
  "inv (world (thr ch)) \<Longrightarrow> quiet (view (world (thr ch))) \<Longrightarrow> calm (thr ch) \<Longrightarrow>
   istream (params (thr ch)) = sock \<Longrightarrow> buffer_ok N b \<Longrightarrow> v_in (view (world (thr ch))) = cs \<Longrightarrow>
   \<forall>c \<in> set cs. c \<noteq> [] \<and> length c \<le> N \<Longrightarrow>
   connection_spec_v1 (scan_overflow os) D cs (b, v_dev (view (world (thr ch)))) = ((b', d'), out) \<Longrightarrow>
   \<exists>n u. recv_loop_v1 n os b ch = ret u \<and> ctx_ostream u = ctx_ostream ch \<and> effect [] d' out (thr ch) (thr u)"
proof (induction cs arbitrary: ch b out)
  case Nil
  from recv_pass_v1_end [OF Nil.prems(1,4,6)] obtain w where
    "recv_pass_v1 0 os b ch = ret (False, b, ch\<lparr>thr := set_world w (thr ch)\<rparr>)" "inv w"
    "view w = view (world (thr ch))" by blast
  then show ?case
    using Nil.prems
    by (intro exI [of _ 1] exI [of _ "ch\<lparr>thr := set_world w (thr ch)\<rparr>"]) (simp add: effect_def)
next
  case (Cons c cs)
  obtain b1 d1 o1 o2 where s1: "chunk_spec_v1 (scan_overflow os) D c (b, v_dev (view (world (thr ch)))) = ((b1, d1), o1)"
    and s2: "connection_spec_v1 (scan_overflow os) D cs (b1, d1) = ((b', d'), o2)" and out: "out = o1 @ o2"
    using Cons.prems(8) by (auto split: prod.splits)
  obtain n u where u: "ctx_ostream u = ctx_ostream ch" "effect cs d1 o1 (thr ch) (thr u)" "buffer_ok N b1"
    and pass: "\<forall>m \<ge> n. recv_pass_v1 m os b ch = ret (True, b1, u)"
    using recv_pass_v1_refines [OF Cons.prems(1-6) _ _ s1] Cons.prems(7) by auto
  obtain n' v where v: "recv_loop_v1 n' os b1 u = ret v" "ctx_ostream v = ctx_ostream u" "effect [] d' o2 (thr u) (thr v)"
    using Cons.IH [of u b1 o2] effectD [OF u(2)] u(3) Cons.prems(3,4,7) s2 by auto
  have "recv_loop_v1 (Suc (max n n')) os b ch = ret v"
    using pass recv_loop_v1_mono [OF v(1)] by simp
  then show ?case
    using u(1) v(2) effect_trans [OF u(2) v(3)] out by metis
qed

lemma child_main_refines:
  assumes inv: "inv (world (thr ch))" and q: "quiet (view (world (thr ch)))"
    and held: "held (thr ch) = {}" and par: "istream (params (thr ch)) = sock" and buf: "buffer_ok N garbage"
    and packets: "\<forall>c \<in> set (v_in (view (world (thr ch)))). c \<noteq> [] \<and> length c \<le> N"
    and spec: "connection_spec_v1 (scan_overflow os) D (v_in (view (world (thr ch))))
      (garbage, v_dev (view (world (thr ch)))) = ((b', d'), out)"
  shows "\<exists>n u. (\<forall>m \<ge> n. child_main m os garbage 0 ch = ret (EXIT_SUCCESS, u)) \<and> held (thr u) = {} \<and>
     owned (thr u) = Params # remove1 (Descriptor sock) (owned (thr ch)) \<and>
     v_in (view (world (thr u))) = [] \<and> v_dev (view (world (thr u))) = d' \<and>
     v_out (view (world (thr u))) = v_out (view (world (thr ch))) @ out"
proof -
  let ?v = "view (world (thr ch))"
  obtain f w where f: "os_fopen os FILENAME ''a+'' (world (thr ch)) = (f, w)" "f \<noteq> 0" "inv w"
    and vf: "view w = ?v\<lparr>v_left := (v_left ?v)(f := Ended), v_app := insert f (v_app ?v)\<rparr>"
    using fopen_append [OF inv] by blast
  obtain w1 where m1: "os_malloc os 32 w = (True, w1)" "inv w1" "view w1 = view w"
    using malloc_ok [OF f(3)] by blast
  obtain w2 where m2: "os_malloc os (MAXBUFFER + 1) w1 = (True, w2)" "inv w2" "view w2 = view w1"
    using malloc_ok [OF m1(2)] by blast
  let ?t = "(thr ch)\<lparr>world := w2, held := {Mutex}, owned := Heap_block # Params # Stream f # owned (thr ch),
    params := (params (thr ch))\<lparr>ostream := f\<rparr>\<rparr>"
  let ?ch = "ch\<lparr>thr := ?t, ctx_ostream := f\<rparr>"
  have run: "child_main n os garbage 0 ch =
      bindx (recv_loop_v1 n os garbage ?ch) (\<lambda>ch.
      bindx (closeActiveConnection os (ch\<lparr>thr := release Heap_block (pthread_mutex_unlock Mutex (thr ch))\<rparr>)) (\<lambda>ch.
        ret (EXIT_SUCCESS, ch)))" for n
    using f(1,2) m1(1) m2(1) held
    by (cases ch; cases "thr ch")
      (simp add: child_main_def recieve_text_v1_def acquire_def pthread_mutex_lock_def Let_def bindx_assoc)
  have v2: "view w2 = ?v\<lparr>v_left := (v_left ?v)(f := Ended), v_app := insert f (v_app ?v)\<rparr>"
    by (simp add: m2(3) m1(3) vf)
  then have "calm ?t" "quiet (view (world ?t))" using q by (simp_all add: calm_def quiet_def)
  then obtain n u where u: "recv_loop_v1 n os garbage ?ch = ret u" "ctx_ostream u = f" "effect [] d' out ?t (thr u)"
    using recv_loop_v1_refines [of ?ch N garbage "v_in ?v" b' d' out] par buf packets spec m2(2) by (auto simp: v2)
  let ?w = "os_close os sock (world (thr u))"
  note e = effectD [OF u(3)]
  note c1 = close_ok [OF e(1), of sock]
  note c2 = fclose_ok [OF conjunct1 [OF c1], of f]
  let ?u = "u\<lparr>thr := (thr u)\<lparr>held := {}, world := os_fclose os f ?w,
    owned := Params # remove1 (Descriptor sock) (owned (thr ch))\<rparr>, ctx_ostream := 0\<rparr>"
  have "child_main m os garbage 0 ch = ret (EXIT_SUCCESS, ?u)" if "n \<le> m" for m
    unfolding run using recv_loop_v1_mono [OF u(1) that] e(5,7,8) u(2) f(2) par
    by (cases u; cases "thr u") (simp add: closeActiveConnection_def thread_defs remove1_commute)
  moreover have "v_out (view (world (thr u))) = v_out ?v @ out"
    using u(3) by (simp add: effect_def v2)
  ultimately show ?thesis
    using e c1 c2 by (intro exI [of _ n] exI [of _ ?u]) simp
qed

end

subsection \<open>What a client of the earlier server gets\<close>

lemma child_runs:
  assumes "connection_start k (thr ch)" and "buffer_ok N garbage"
    and "\<forall>c \<in> set (w_inbox (world (thr ch))). length c \<le> N"
    and "connection_spec_v1 (scan_overflow (driver_os k)) (driver_device k) (w_inbox (world (thr ch)))
           (garbage, w_dev (world (thr ch))) = ((b', d'), out)"
  shows "\<exists>n u. (\<forall>m \<ge> n. child_main m (driver_os k) garbage 0 ch = ret (EXIT_SUCCESS, u)) \<and>
     w_dev (world (thr u)) = d' \<and> w_outbox (world (thr u)) = w_outbox (world (thr ch)) @ out"
proof -
  have start: "drv_inv k (world (thr ch))" "quiet (drv_view (world (thr ch)))" "held (thr ch) = {}"
    and packets: "\<forall>c \<in> set (w_inbox (world (thr ch))). c \<noteq> []"
    using assms(1) by (simp_all add: connection_start_def)
  with assms(3) have "\<forall>c \<in> set (v_in (drv_view (world (thr ch)))). c \<noteq> [] \<and> length c \<le> N" by simp
  from on_driver.child_main_refines [OF start refl assms(2) this] assms(4) show ?thesis
    unfolding driver_os_sel by simp blast
qed

text \<open>If the array has no NUL behind the first packet, the search for a command leaves it.\<close>

lemma child_overruns:
  assumes "connection_start k (thr ch)" and "w_inbox (world (thr ch)) = c # cs"
    and "0 \<notin> set c" and "0 \<notin> set (drop (length c) garbage)"
  shows "child_main (Suc m) (driver_os k) garbage 0 ch = fault OutOfBounds"
proof -
  let ?w = "snd (drv_fopen FILENAME ''a+'' (world (thr ch)))"
  have start: "held (thr ch) = {}" "w_next (world (thr ch)) \<noteq> 0" "length c \<le> MAXBUFFER" "c \<noteq> []"
    using assms(1,2) by (auto simp: connection_start_def drv_inv_def)
  have "drv_recv sock MAXBUFFER ?w = (Some c, ?w\<lparr>w_inbox := cs\<rparr>)" for sock
    using assms(2) start(3) by (simp add: drv_recv_def drv_fopen_def)
  then show ?thesis
    using start assms(3,4)
    by (cases ch; cases "thr ch")
      (simp add: child_main_def recieve_text_v1_def recv_pass_v1_def acquire_def pthread_mutex_lock_def
        Let_def drv_fopen_def)
qed

text \<open>A line that cannot be taken for a command, whatever follows it in the buffer.\<close>

definition text_line :: "u8 list \<Rightarrow> bool" where
  "text_line l \<longleftrightarrow> is_line l \<and> length l \<le> MAXBUFFER \<and> hd l \<noteq> hd SEEK_PREFIX"

lemma no_command_start:
  assumes "l \<noteq> []" and "hd l \<noteq> hd SEEK_PREFIX"
  shows "parse_seek ovf (l @ rest) = None"
proof (rule ccontr)
  assume "parse_seek ovf (l @ rest) \<noteq> None"
  then obtain q where q: "c_string (l @ rest) = SEEK_PREFIX @ q"
    using parse_seek_prefix by blast
  have pre: "SEEK_PREFIX = hd SEEK_PREFIX # tl SEEK_PREFIX"
    by (simp add: SEEK_PREFIX_def ascii_def)
  have "hd (c_string (l @ rest)) = hd l \<or> c_string (l @ rest) = []"
    using assms(1) by (cases l) (auto simp: c_string_def)
  then show False
    using q pre assms(2) by (metis append_Cons append_is_Nil_conv list.distinct(1) list.sel(1))
qed

lemma text_line_no_command: "text_line l \<Longrightarrow> parse_seek ovf (l @ rest) = None"
  by (rule no_command_start) (auto simp: text_line_def is_line_def)

lemma spec_v1_lines:
  "kernel_ok k \<Longrightarrow> dev_inv s \<Longrightarrow> pending s = null_entry \<Longrightarrow> \<forall>l \<in> set ls. text_line l \<Longrightarrow> memory_for k s ls \<Longrightarrow>
   \<exists>b' s'. connection_spec_v1 ovf (driver_device k) ls (b, Some s) =
     ((b', Some s'), concat (map (\<lambda>i. concat (window (dev_records s @ take (Suc i) ls))) [0..<length ls])) \<and>
     dev_records s' = window (dev_records s @ ls)"
proof (induction ls arbitrary: b s)
  case Nil
  then show ?case by (simp add: dev_records_window)
next
  case (Cons l ls)
  have l: "is_line l" "length l \<le> MAXBUFFER" and mem: "fst (kzalloc k (kheap s) (of_nat (length l))) \<noteq> 0"
    using Cons.prems(4,5) by (auto simp: text_line_def)
  obtain s1 where s1: "driver_write k l (Some s) = Some s1" "dev_records s1 = window (dev_records s @ [l])"
    "pending s1 = null_entry"
    using driver_write_line [OF Cons.prems(1-3) l mem] by blast
  have inv1: "dev_inv s1"
    using driver_write_inv [OF Cons.prems(1,2) _ s1(1)] l(2) by (simp add: MAX_RW_COUNT_def MAXBUFFER_def)
  have nl: "NEWLINE \<in> set l" using l(1) by (rule is_lineE) simp
  have "\<exists>b1. chunk_spec_v1 ovf (driver_device k) l (b, Some s) =
      ((b1, Some s1), concat (window (dev_records s @ [l])))"
    using text_line_no_command Cons.prems(4) c_string_line [OF l(1)] s1 nl
    by (simp add: chunk_spec_v1_def Let_def driver_contents_def dev_contents_def)
  then obtain b1 where c: "chunk_spec_v1 ovf (driver_device k) l (b, Some s) =
      ((b1, Some s1), concat (window (dev_records s @ [l])))" by blast
  obtain b' s' where ih: "connection_spec_v1 ovf (driver_device k) ls (b1, Some s1) =
     ((b', Some s'), concat (map (\<lambda>i. concat (window (dev_records s1 @ take (Suc i) ls))) [0..<length ls]))"
    "dev_records s' = window (dev_records s1 @ ls)"
    using Cons.IH [OF Cons.prems(1) inv1 s1(3), of b1] Cons.prems(4,5) s1(1) by auto
  show ?case
    unfolding window_history using c ih s1(2) by (simp add: window_window)
qed

text \<open>
  Claim C31: The earlier server answers every line, if the memory it is given lets it. Let a child
  process receive any number of lines, none beginning with the first letter of a command, with
  memory available. The array for the packets comes uninitialised from \<open>malloc\<close>. If it happens to
  hold a NUL behind the longest line, the child ends successfully; the device then holds the last
  ten lines, and for each line the client has received the contents of the device after that line.
  (Its successor answers only the first line of a connection.) If it holds no NUL behind the first
  line, the search for a command leaves the array, which is undefined.
\<close>

theorem earlier_answers_every_line:
  assumes "connection_start k (thr ch)" and "length garbage = Suc MAXBUFFER" and "w_inbox (world (thr ch)) = ls"
    and "w_dev (world (thr ch)) = Some s" and "pending s = null_entry"
    and "\<forall>l \<in> set ls. text_line l" and "memory_for k s ls"
  shows "((\<exists>n. (\<forall>l \<in> set ls. length l \<le> n) \<and> 0 \<in> set (drop n garbage)) \<longrightarrow>
      (\<exists>n u s'. (\<forall>m \<ge> n. child_main m (driver_os k) garbage 0 ch = ret (EXIT_SUCCESS, u)) \<and>
        w_dev (world (thr u)) = Some s' \<and> dev_records s' = window (dev_records s @ ls) \<and>
        w_outbox (world (thr u)) = w_outbox (world (thr ch)) @
          concat (map (\<lambda>i. concat (window (dev_records s @ take (Suc i) ls))) [0..<length ls]))) \<and>
    (ls \<noteq> [] \<and> 0 \<notin> set (drop (length (hd ls)) garbage) \<longrightarrow>
      (\<forall>m. child_main (Suc m) (driver_os k) garbage 0 ch = fault OutOfBounds))"
proof (intro conjI impI allI)
  have "kernel_ok k" "dev_inv s"
    using assms(1,4) by (auto simp: connection_start_def drv_inv_def)
  from spec_v1_lines [OF this assms(5-7)] obtain b' s' where
    spec: "connection_spec_v1 (scan_overflow (driver_os k)) (driver_device k) ls (garbage, Some s) =
     ((b', Some s'), concat (map (\<lambda>i. concat (window (dev_records s @ take (Suc i) ls))) [0..<length ls]))"
    and rec: "dev_records s' = window (dev_records s @ ls)" by blast
  assume "\<exists>n. (\<forall>l \<in> set ls. length l \<le> n) \<and> 0 \<in> set (drop n garbage)"
  then obtain n where "\<forall>l \<in> set ls. length l \<le> n" "buffer_ok n garbage"
    using assms(2) by (auto simp: buffer_ok_def)
  with child_runs [OF assms(1), of n garbage, unfolded assms(3,4), OF _ _ spec] rec
  show "\<exists>n u s'. (\<forall>m \<ge> n. child_main m (driver_os k) garbage 0 ch = ret (EXIT_SUCCESS, u)) \<and>
        w_dev (world (thr u)) = Some s' \<and> dev_records s' = window (dev_records s @ ls) \<and>
        w_outbox (world (thr u)) = w_outbox (world (thr ch)) @
          concat (map (\<lambda>i. concat (window (dev_records s @ take (Suc i) ls))) [0..<length ls])" by blast
next
  fix m
  assume l: "ls \<noteq> [] \<and> 0 \<notin> set (drop (length (hd ls)) garbage)"
  then obtain c cs where ls: "ls = c # cs" by (cases ls) auto
  then have "is_line c" using assms(6) by (simp add: text_line_def)
  then have "0 \<notin> set c" by (rule is_lineE) (auto simp: NEWLINE_def)
  then show "child_main (Suc m) (driver_os k) garbage 0 ch = fault OutOfBounds"
    using child_overruns [OF assms(1), of c cs garbage m] assms(3) l ls by simp
qed

lemma sample_text_lines: "\<forall>l \<in> set [[120, 10], [121, 10]]. text_line l"
  by (simp add: text_line_def is_line_def NEWLINE_def MAXBUFFER_def SEEK_PREFIX_def ascii_def)

definition new_child :: "kstate \<Rightarrow> u8 list list \<Rightarrow> drv_world child" where
  "new_child s packets =
     \<lparr>thr = new_connection s packets, ctx_ostream = 0, backstream = 0, backstream_buf = False\<rparr>"

lemma new_child_start:
  "\<forall>c \<in> set ps. c \<noteq> [] \<and> length c \<le> MAXBUFFER \<Longrightarrow>
   connection_start (sample_kernel [] []) (thr (new_child fresh_state ps))"
  unfolding new_child_def by (simp add: new_connection_start sample_kernel_ok)

lemma zero_buffer: "n \<le> MAXBUFFER \<Longrightarrow> buffer_ok n (replicate (Suc MAXBUFFER) 0)"
  by (simp add: buffer_ok_def del: replicate_Suc)

theorem earlier_answers_every_line_witness:
  "\<exists>n u. child_main n (driver_os (sample_kernel [] [])) (replicate (Suc MAXBUFFER) 0) 0
        (new_child fresh_state [[120, 10], [121, 10]]) = ret (EXIT_SUCCESS, u) \<and>
     w_outbox (world (thr u)) = [120, 10, 120, 10, 121, 10]"
proof -
  let ?k = "sample_kernel [] []" and ?ls = "[[120, 10], [121, 10]] :: u8 list list"
  have start: "connection_start ?k (thr (new_child fresh_state ?ls))"
    by (rule new_child_start) (simp add: MAXBUFFER_def)
  have sel: "w_inbox (world (thr (new_child fresh_state ?ls))) = ?ls"
    "w_dev (world (thr (new_child fresh_state ?ls))) = Some fresh_state"
    "w_outbox (world (thr (new_child fresh_state ?ls))) = []"
    by (simp_all add: new_child_def)
  have "buffer_ok 2 (replicate (Suc MAXBUFFER) 0)" by (rule zero_buffer) (simp add: MAXBUFFER_def)
  then have nul: "(\<forall>l \<in> set ?ls. length l \<le> 2) \<and> 0 \<in> set (drop 2 (replicate (Suc MAXBUFFER) (0 :: u8)))"
    unfolding buffer_ok_def by simp
  have fresh: "dev_records fresh_state = []" "pending fresh_state = null_entry"
    by simp_all
  note run = earlier_answers_every_line [OF start length_replicate sel(1,2) fresh(2) sample_text_lines
      sample_memory_for(1), THEN conjunct1, THEN mp, OF exI, OF nul]
  obtain n u where "\<forall>m \<ge> n. child_main m (driver_os ?k) (replicate (Suc MAXBUFFER) 0) 0
        (new_child fresh_state ?ls) = ret (EXIT_SUCCESS, u)"
    "w_outbox (world (thr u)) = [120, 10, 120, 10, 121, 10]"
    using run fresh(1) by (auto simp: sel(3) window_def simp del: replicate_Suc)
  then show ?thesis by blast
qed

text \<open>
  A packet can be lost. After a seek command in the same connection, a packet that repeats
  the beginning of the command leaves the buffer as it was: it is taken for the command again,
  the device does not change and nothing is sent, although the packet alone is no command.
\<close>

lemma stale_buffer:
  assumes "length p \<le> length c" and "p = take (length p) c"
  shows "p @ drop (length p) (c @ rest) = c @ rest"
  using assms by (metis append_take_drop_id drop_append drop_0 diff_is_0_eq append.assoc)

theorem earlier_stale_command:
  assumes "connection_start k (thr ch)" and "buffer_ok (Suc (length (print_seek c))) garbage"
    and "w_inbox (world (thr ch)) = [print_seek c @ [NEWLINE], p]"
    and "length p \<le> length (print_seek c)" and "p = take (length p) (print_seek c)"
  shows "\<exists>n u. (\<forall>m \<ge> n. child_main m (driver_os k) garbage 0 ch = ret (EXIT_SUCCESS, u)) \<and>
     w_dev (world (thr u)) = w_dev (world (thr ch)) \<and> w_outbox (world (thr u)) = w_outbox (world (thr ch))"
proof -
  let ?b = "print_seek c @ NEWLINE # drop (Suc (length (print_seek c))) garbage"
  have cmd: "parse_seek ovf ?b = Some c" for ovf
    by (rule parse_printed) (simp add: no_digit_next_def c_string_def is_digit_def NEWLINE_def)
  have "connection_spec_v1 (scan_overflow (driver_os k)) (driver_device k) (w_inbox (world (thr ch)))
      (garbage, w_dev (world (thr ch))) = ((?b, w_dev (world (thr ch))), [])"
    using cmd stale_buffer [OF assms(4,5)] unfolding assms(3) by (simp add: chunk_spec_v1_def)
  from child_runs [OF assms(1,2) _ this] show ?thesis using assms(3,4) by auto
qed

subsection \<open>The parent process\<close>

text \<open>
  The state of \<open>main\<close>: what both variants have, the variable \<open>acceptfd\<close>, indeterminate
  (\<open>None\<close>) until a connection is accepted, and the other fields of the \<open>Context\<close>. \<open>children\<close> counts
  the processes that were started and never waited for.
\<close>

record server_v1 =
  base :: process
  ctx_acceptfd :: bool
  acceptfd :: "int option"
  ctx_istream :: file_ptr
  main_ostream :: file_ptr
  ctx_buffer :: bool
  open_streams :: "file_ptr list"
  heap_blocks :: nat
  children :: nat

definition fresh_server :: server_v1 where
  "fresh_server =
     \<lparr>base = fresh_process, ctx_acceptfd = False, acceptfd = None, ctx_istream = 0, main_ostream = 0,
      ctx_buffer = False, open_streams = [], heap_blocks = 0, children = 0\<rparr>"

definition close_socket :: "int \<Rightarrow> server_v1 \<Rightarrow> server_v1" where
  "close_socket fd s = s\<lparr>base := (base s)\<lparr>open_sockets := remove1 fd (open_sockets (base s))\<rparr>\<rparr>"

definition closeconnection_v1 :: "server_v1 \<Rightarrow> (int \<times> server_v1) run" where
  "closeconnection_v1 s =
     bindx (if ctx_acceptfd s
            then (case acceptfd s of None \<Rightarrow> fault Uninitialised | Some fd \<Rightarrow> ret (close_socket fd s))
            else ret s) (\<lambda>s.
     bindx (if ctx_socfd (global_ctx (base s))
            then (case socfd (base s) of
                    None \<Rightarrow> fault Uninitialised
                  | Some fd \<Rightarrow> ret (close_socket fd (s\<lparr>base := (base s)\<lparr>listening := False\<rparr>\<rparr>)))
            else ret s) (\<lambda>s.
     let s = (if ctx_istream s \<noteq> 0 then s\<lparr>open_streams := remove1 (ctx_istream s) (open_streams s)\<rparr> else s);
         s = (if main_ostream s \<noteq> 0 then s\<lparr>open_streams := remove1 (main_ostream s) (open_streams s)\<rparr> else s);
         s = (if servinfo (global_ctx (base s)) then s\<lparr>base := free_servinfo (base s)\<rparr> else s);
         s = (if ctx_buffer s then s\<lparr>heap_blocks := heap_blocks s - 1\<rparr> else s)
     in ret (0, s)))"

definition sigetrm_handler_v1 :: "int \<Rightarrow> server_v1 \<Rightarrow> server_v1 outcome run" where
  "sigetrm_handler_v1 signum s =
     (if signum = SIGINT \<or> signum = SIGTERM
      then bindx (closeconnection_v1 s) (\<lambda>_. ret (Exit EXIT_SUCCESS))
      else ret (Return s))"

text \<open>The parts of the start that the next variant took over; \<open>b\<close> stands for the state both have.\<close>

definition setupsigaction_v1 :: "answers \<Rightarrow> server_v1 \<Rightarrow> int \<times> server_v1" where
  "setupsigaction_v1 a s =
     (if sigaction_r a SIGINT = -1 then (-1, s)
      else
        let s = s\<lparr>base := (base s)\<lparr>sig_handlers := insert SIGINT (sig_handlers (base s))\<rparr>\<rparr>
        in if sigaction_r a SIGTERM = -1 then (-1, s)
           else (0, s\<lparr>base := (base s)\<lparr>sig_handlers := insert SIGTERM (sig_handlers (base s))\<rparr>\<rparr>))"

definition open_connection_v1 :: "answers \<Rightarrow> server_v1 \<Rightarrow> (int \<times> server_v1) outcome" where
  "open_connection_v1 a s =
     (if getaddrinfo_r a \<noteq> 0 then Return (-1, s)
      else
        let fd = socket_r a;
            b = (set_servinfo True ((base s)\<lparr>addrinfos := addrinfo_n a\<rparr>))\<lparr>socfd := Some fd\<rparr>
        in if fd = -1 then Return (-1, s\<lparr>base := set_servinfo False (freeaddrinfo b)\<rparr>)
           else
             let b = b\<lparr>open_sockets := fd # open_sockets b\<rparr>
             in if setsockopt_r a \<noteq> 0 then Exit EXIT_FAILURE
                else if bind_r a = -1 then Return (-1, s\<lparr>base := b\<rparr>)
                else
                  let b = set_servinfo False (free_servinfo b)
                  in if listen_r a = -1 then Return (-1, s\<lparr>base := b\<rparr>)
                     else Return (0, s\<lparr>base := b\<lparr>listening := True\<rparr>\<rparr>))"

definition start_daemon_v1 :: "answers \<Rightarrow> server_v1 \<Rightarrow> server_v1 outcome" where
  "start_daemon_v1 a s =
     (if fork_r a < 0 then Exit EXIT_FAILURE
      else if 0 < fork_r a then Exit EXIT_SUCCESS
      else if setsid_r a < 0 then Exit EXIT_FAILURE
      else Return (s\<lparr>base := (base s)\<lparr>umask_val := 0, cwd := (if chdir_r a = 0 then ''/'' else cwd (base s)), std_fds := False\<rparr>\<rparr>))"

text \<open>\<open>main\<close> up to the accept loop; leaving it with -1 is \<open>Exit (-1)\<close>.\<close>

definition main_startup_v1 :: "answers \<Rightarrow> string \<Rightarrow> server_v1 \<Rightarrow> server_v1 outcome run" where
  "main_startup_v1 a opts s =
     (case setupsigaction_v1 a s of
        (r, s) \<Rightarrow>
          if r = -1 then ret (Exit EXIT_FAILURE)
          else
            let daemon = (CHR ''d'' \<in> set opts);
                s = s\<lparr>base := (base s)\<lparr>global_ctx := (global_ctx (base s))\<lparr>ctx_socfd := True\<rparr>\<rparr>, ctx_acceptfd := True\<rparr>
            in case open_connection_v1 a s of
                 Exit c \<Rightarrow> ret (Exit c)
               | Return (r, s) \<Rightarrow>
                   if r = -1 then bindx (closeconnection_v1 s) (\<lambda>_. ret (Exit (-1)))
                   else if daemon then ret (start_daemon_v1 a s)
                        else ret (Return s))"

lemmas startup_v1_defs = main_startup_v1_def setupsigaction_v1_def open_connection_v1_def start_daemon_v1_def
  closeconnection_v1_def fresh_server_def startup_defs

text \<open>
  One pass of the accept loop, with the results of \<open>accept\<close> and \<open>fork\<close>: the child leaves the
  loop with its descriptor (\<open>Inl\<close>). When \<open>fork\<close> fails, the stream \<open>ctx->istream\<close> is closed.
\<close>

definition accept_v1 :: "int \<Rightarrow> int \<Rightarrow> server_v1 \<Rightarrow> (fd + server_v1) run" where
  "accept_v1 accept_r fork_res s =
     (let s = s\<lparr>acceptfd := Some accept_r\<rparr>
      in if accept_r = -1 then ret (Inr s)
         else
           let s = s\<lparr>base := (base s)\<lparr>open_sockets := accept_r # open_sockets (base s)\<rparr>\<rparr>
           in if fork_res < 0
              then if ctx_istream s = 0 then fault NullDeref
                   else ret (Inr (close_socket accept_r
                          (s\<lparr>open_streams := remove1 (ctx_istream s) (open_streams s)\<rparr>)))
              else if fork_res = 0 then ret (Inl accept_r)
              else ret (Inr (close_socket accept_r (s\<lparr>children := Suc (children s)\<rparr>))))"

fun accept_loop_v1 :: "(int \<times> int) list \<Rightarrow> server_v1 \<Rightarrow> (fd + server_v1) run" where
  "accept_loop_v1 [] s = ret (Inr s)"
| "accept_loop_v1 ((a, p) # rs) s =
     bindx (accept_v1 a p s) (\<lambda>r. case r of Inl fd \<Rightarrow> ret (Inl fd) | Inr s \<Rightarrow> accept_loop_v1 rs s)"

definition fork_fails :: "int \<times> int \<Rightarrow> bool" where
  "fork_fails r \<longleftrightarrow> (case r of (a, p) \<Rightarrow> a \<noteq> -1 \<and> p < 0)"

definition forks :: "int \<times> int \<Rightarrow> bool" where
  "forks r \<longleftrightarrow> (case r of (a, p) \<Rightarrow> a \<noteq> -1)"

lemma accept_loop_v1_runs:
  "ctx_istream s = 0 \<Longrightarrow> \<forall>(a, p) \<in> set rs. p \<noteq> 0 \<Longrightarrow>
   (if \<exists>r \<in> set rs. fork_fails r then accept_loop_v1 rs s = fault NullDeref
    else \<exists>s'. accept_loop_v1 rs s = ret (Inr s') \<and> open_sockets (base s') = open_sockets (base s) \<and>
           listening (base s') = listening (base s) \<and> children s' = children s + length (filter forks rs))"
proof (induction rs arbitrary: s)
  case (Cons r rs)
  obtain a p where r: "r = (a, p)" by force
  show ?case
  proof (cases "fork_fails r")
    case True
    then show ?thesis using Cons.prems r by (auto simp: fork_fails_def accept_v1_def Let_def)
  next
    case False
    have "\<exists>s1. accept_v1 a p s = ret (Inr s1) \<and> ctx_istream s1 = 0 \<and>
      open_sockets (base s1) = open_sockets (base s) \<and> listening (base s1) = listening (base s) \<and>
      children s1 = children s + (if forks r then 1 else 0)"
      using Cons.prems r False
      by (cases "a = -1") (auto simp: fork_fails_def forks_def accept_v1_def close_socket_def Let_def)
    then obtain s1 where "accept_v1 a p s = ret (Inr s1)" "ctx_istream s1 = 0"
      "open_sockets (base s1) = open_sockets (base s)" "listening (base s1) = listening (base s)"
      "children s1 = children s + (if forks r then 1 else 0)" by blast
    then show ?thesis
      using Cons.IH [of s1] Cons.prems(2) r False by (auto split: if_splits)
  qed
qed simp

text \<open>
  The accept loop of the earlier server keeps only its own socket. For any results of
  \<open>accept\<close>, as long as \<open>fork\<close> never fails, the parent is back in the loop with no descriptor
  left over and one more child for every connection accepted (children it never waits for).
  The first failure of \<open>fork\<close> ends the server by closing a null stream.
\<close>

theorem earlier_accept_loop:
  assumes "main_startup_v1 a opts fresh_server = ret (Return s)" and "\<forall>(c, p) \<in> set rs. p \<noteq> 0"
  shows "if \<exists>r \<in> set rs. fork_fails r then accept_loop_v1 rs s = fault NullDeref
    else \<exists>s'. accept_loop_v1 rs s = ret (Inr s') \<and> open_sockets (base s') = [socket_r a] \<and>
           listening (base s') \<and> children s' = length (filter forks rs)"
proof -
  have "ctx_istream s = 0" "open_sockets (base s) = [socket_r a]" "listening (base s)" "children s = 0"
    using assms(1)
    by (auto simp: startup_v1_defs split: if_splits)
  with accept_loop_v1_runs [of s rs] assms(2) show ?thesis by (auto split: if_splits)
qed

theorem earlier_accept_loop_witness:
  "\<exists>s s'. main_startup_v1 good_answers ''d'' fresh_server = ret (Return s) \<and>
     accept_loop_v1 [(5, 41), (-1, 7), (5, 42)] s = ret (Inr s') \<and> open_sockets (base s') = [3] \<and> children s' = 2"
proof -
  obtain s where s: "main_startup_v1 good_answers ''d'' fresh_server = ret (Return s)"
    by (simp add: startup_v1_defs good_answers_def)
  from earlier_accept_loop [OF this, of "[(5, 41), (-1, 7), (5, 42)]"] show ?thesis
    using s by (auto simp: fork_fails_def forks_def good_answers_def)
qed

text \<open>
  Until the first connection is accepted, every cleanup reads a descriptor that was never
  set: after a failed start, and when a signal ends the server.
\<close>

theorem earlier_cleanup_uninitialised:
  assumes "signals_ok a" and "setsockopt_r a = 0"
  shows "\<not> network_ok a \<Longrightarrow> main_startup_v1 a opts fresh_server = fault Uninitialised"
    and "main_startup_v1 a opts fresh_server = ret (Return s) \<Longrightarrow> signum \<in> {SIGINT, SIGTERM} \<Longrightarrow>
      sigetrm_handler_v1 signum s = fault Uninitialised"
  using assms
  by (auto simp: startup_v1_defs sigetrm_handler_v1_def split: if_splits)

text \<open>
  Both variants of the server start alike: with the same answers of the system one comes to
  accept connections exactly when the other does, and then in the same state.
\<close>

theorem variants_start_alike:
  "main_startup_v1 a opts fresh_server = ret (Return (fresh_server\<lparr>base := b, ctx_acceptfd := True\<rparr>)) \<longleftrightarrow>
   main_startup (Suc n) a opts fresh_process = ret (Accepting b)"
  by (auto simp: startup_v1_defs split: if_splits)

end
