(* ===== verification/Server_Forked.thy ===== *)
theory Server_Forked
  imports Server_Earlier Server_Concurrent
begin

section \<open>Children of the earlier server at the same time\<close>

text \<open>
  The processes that \<^verbatim>\<open>server/aesdsocket.c\<close> forks, one per connection, run at the same time
  on one device. The mutexes are variables of the program, so each process has its own: a child
  in its receive loop holds \<open>mutex\<close>, and this keeps no other child out of its own loop. A step is
  one pass of the receive loop of one child during which no other child touches the device. The
  processes share no lock, so the real ones can be interleaved more finely: every run of
  \<open>fork_step\<close> is a run of the program, and not the other way round. The theory therefore states
  no property of all runs; it shows that already these runs tear the lines of two clients apart,
  which \<open>Server_Concurrent\<close> excludes for the variant with threads.
\<close>

subsection \<open>Children in their receive loops\<close>

text \<open>The child when it enters its receive loop: the stream is open, both blocks are allocated.\<close>

definition loop_start :: "drv_world child \<Rightarrow> drv_world child" where
  "loop_start ch =
     (let f = w_next (world (thr ch))
      in ch\<lparr>thr := (thr ch)\<lparr>world := snd (drv_fopen FILENAME ''a+'' (world (thr ch))), held := {Mutex},
              owned := Heap_block # Params # Stream f # owned (thr ch),
              params := (params (thr ch))\<lparr>ostream := f\<rparr>\<rparr>, ctx_ostream := f\<rparr>)"

lemma child_main_loop:
  assumes "held (thr ch) = {}" and "0 < w_next (world (thr ch))"
  shows "child_main n (driver_os k) garbage 0 ch =
      bindx (recv_loop_v1 n (driver_os k) garbage (loop_start ch)) (\<lambda>ch.
      bindx (closeActiveConnection (driver_os k)
        (ch\<lparr>thr := release Heap_block (pthread_mutex_unlock Mutex (thr ch))\<rparr>)) (\<lambda>ch.
        ret (EXIT_SUCCESS, ch)))"
  using assms
  by (cases ch; cases "thr ch")
    (simp add: child_main_def recieve_text_v1_def loop_start_def acquire_def pthread_mutex_lock_def
      Let_def bindx_assoc drv_fopen_def)

text \<open>
  The children share the device and the numbers of streams; the packets to come and the bytes
  sent belong to the socket of each.
\<close>

record fork_site =
  fshared :: drv_world
  kids :: "nat \<rightharpoonup> u8 list \<times> drv_world child"   \<comment> \<open>the array of the receive loop and the process\<close>

definition kid_load :: "fork_site \<Rightarrow> drv_world child \<Rightarrow> drv_world child" where
  "kid_load S ch =
     ch\<lparr>thr := (thr ch)\<lparr>world := (fshared S)\<lparr>w_inbox := w_inbox (world (thr ch)), w_outbox := w_outbox (world (thr ch))\<rparr>\<rparr>\<rparr>"

inductive fork_step :: "kernel \<Rightarrow> fork_site \<Rightarrow> fork_site \<Rightarrow> bool" for k where
  kid_pass: "kids S c = Some (b, ch) \<Longrightarrow> recv_pass_v1 n (driver_os k) b (kid_load S ch) = ret (True, b', u) \<Longrightarrow>
     fork_step k S (S\<lparr>fshared := world (thr u), kids := (kids S)(c \<mapsto> (b', u))\<rparr>)"
| kid_leaves: "kids S c = Some (b, ch) \<Longrightarrow> recv_pass_v1 n (driver_os k) b (kid_load S ch) = ret (False, b', u) \<Longrightarrow>
     fork_step k S (S\<lparr>fshared := world (thr u), kids := (kids S)(c := None)\<rparr>)"

definition kid_ok :: "u8 list \<Rightarrow> drv_world child \<Rightarrow> bool" where
  "kid_ok b ch \<longleftrightarrow> held (thr ch) = {Mutex} \<and> packets_ok (w_inbox (world (thr ch))) \<and>
     (\<exists>n. buffer_ok n b \<and> (\<forall>p \<in> set (w_inbox (world (thr ch))). length p \<le> n))"

definition forked_ok :: "kernel \<Rightarrow> fork_site \<Rightarrow> bool" where
  "forked_ok k S \<longleftrightarrow> drv_inv k (fshared S) \<and> quiet (drv_view (fshared S)) \<and>
     (\<forall>c b ch. kids S c = Some (b, ch) \<longrightarrow> kid_ok b ch)"

lemma kid_load_sel [simp]:
  "world (thr (kid_load S ch)) = (fshared S)\<lparr>w_inbox := w_inbox (world (thr ch)), w_outbox := w_outbox (world (thr ch))\<rparr>"
  "held (thr (kid_load S ch)) = held (thr ch)" "params (thr (kid_load S ch)) = params (thr ch)"
  by (simp_all add: kid_load_def)

text \<open>What a pass of a child does, with enough fuel.\<close>

lemma kid_pass_spec:
  assumes ok: "forked_ok k S" and c: "kids S c = Some (b, ch)" and ins: "w_inbox (world (thr ch)) = p # ps"
    and spec: "chunk_spec_v1 (ovf_of k) (driver_device k) p (b, w_dev (fshared S)) = ((b1, d1), o1)"
  shows "\<exists>n u. (\<forall>m \<ge> n. recv_pass_v1 m (driver_os k) b (kid_load S ch) = ret (True, b1, u)) \<and>
     forked_ok k (S\<lparr>fshared := world (thr u), kids := (kids S)(c \<mapsto> (b1, u))\<rparr>) \<and>
     w_dev (world (thr u)) = d1 \<and> w_inbox (world (thr u)) = ps \<and>
     w_outbox (world (thr u)) = w_outbox (world (thr ch)) @ o1"
proof -
  have "kid_ok b ch" using ok c by (simp add: forked_ok_def)
  then obtain N where kid: "buffer_ok N b" "held (thr ch) = {Mutex}" "packets_ok (p # ps)"
    and N: "\<forall>q \<in> set (p # ps). length q \<le> N"
    unfolding kid_ok_def ins by blast
  have calm: "calm (thr (kid_load S ch))" using kid(2) by (simp add: calm_def)
  have pk: "p \<noteq> []" "length p \<le> N" using kid(3) N by (simp_all add: packets_ok_def)
  have w: "drv_inv k (world (thr (kid_load S ch)))" "quiet (drv_view (world (thr (kid_load S ch))))"
    "v_in (drv_view (world (thr (kid_load S ch)))) = p # ps"
    using ok ins by (simp_all add: forked_ok_def)
  have "chunk_spec_v1 (scan_overflow (driver_os k)) (driver_device k) p
      (b, v_dev (drv_view (world (thr (kid_load S ch))))) = ((b1, d1), o1)"
    using spec by (simp add: drv_view_def)
  from on_driver.recv_pass_v1_refines [OF w(1,2) calm refl kid(1) w(3) pk this]
  obtain n u where pass: "\<forall>m \<ge> n. recv_pass_v1 m (driver_os k) b (kid_load S ch) = ret (True, b1, u)"
    and e: "on_driver.effect k ps d1 o1 (thr (kid_load S ch)) (thr u)" and b1: "buffer_ok N b1" by blast
  have u: "drv_inv k (world (thr u))" "quiet (drv_view (world (thr u)))" "w_inbox (world (thr u)) = ps"
    "w_dev (world (thr u)) = d1" "held (thr u) = {Mutex}"
    using on_driver.effectD [OF e] kid(2) by (simp_all add: drv_view_def)
  have "forked_ok k (S\<lparr>fshared := world (thr u), kids := (kids S)(c \<mapsto> (b1, u))\<rparr>)"
    using ok u b1 kid(3) N by (auto simp: forked_ok_def kid_ok_def packets_ok_def)
  moreover have "w_outbox (world (thr u)) = w_outbox (world (thr ch)) @ o1"
    using e by (simp add: on_driver.effect_def drv_view_def)
  ultimately show ?thesis using pass u by blast
qed

subsection \<open>A site with two children\<close>

definition two_children :: "u8 list list \<Rightarrow> u8 list list \<Rightarrow> fork_site" where
  "two_children ps qs =
     (let zeros = replicate (Suc MAXBUFFER) 0;
          A = loop_start (new_child fresh_state ps);
          B = loop_start (kid_load \<lparr>fshared = world (thr A), kids = Map.empty\<rparr> (new_child fresh_state qs))
      in \<lparr>fshared = world (thr B), kids = [0 \<mapsto> (zeros, A), 1 \<mapsto> (zeros, B)]\<rparr>)"

lemma two_children_ok:
  assumes "packets_ok ps" and "packets_ok qs"
  shows "forked_ok (sample_kernel [] sl) (two_children ps qs)"
proof -
  have "\<exists>n. buffer_ok n (replicate (Suc MAXBUFFER) 0) \<and> (\<forall>p \<in> set rs. length p \<le> n)"
    if "packets_ok rs" for rs
    using that zero_buffer [OF order_refl] by (auto simp: packets_ok_def)
  from this [OF assms(1)] this [OF assms(2)] assms show ?thesis
  by (auto simp: forked_ok_def two_children_def Let_def kid_ok_def loop_start_def kid_load_def new_child_def
      drv_fopen_def drv_inv_def quiet_def drv_view_def stream_status_def sample_kernel_ok
      simp del: replicate_Suc)
qed

lemma two_children_sel:
  "\<exists>b A B. kids (two_children ps qs) 0 = Some (b, A) \<and> kids (two_children ps qs) 1 = Some (b, B) \<and>
     b = replicate (Suc MAXBUFFER) 0 \<and>
     w_inbox (world (thr A)) = ps \<and> w_outbox (world (thr A)) = [] \<and>
     w_inbox (world (thr B)) = qs \<and> w_outbox (world (thr B)) = []"
  "w_dev (fshared (two_children ps qs)) = Some fresh_state"
  by (simp_all add: two_children_def Let_def loop_start_def kid_load_def new_child_def drv_fopen_def del: replicate_Suc)

subsection \<open>Lines torn apart\<close>

text \<open>Memory for each of a list of writes, none of which faults.\<close>

fun room_for :: "kernel \<Rightarrow> kstate \<Rightarrow> u8 list list \<Rightarrow> bool" where
  "room_for k s [] = True"
| "room_for k s (t # ts) \<longleftrightarrow>
     fst (entry_alloc k (kheap s) (pending s) (of_nat (length t))) \<noteq> 0 \<and>
     (case driver_write k t (Some s) of None \<Rightarrow> False | Some s' \<Rightarrow> room_for k s' ts)"

lemma chunk_v1_text:
  assumes "c \<noteq> []" and "hd c \<noteq> hd SEEK_PREFIX" and "0 \<notin> set c" and "driver_write k c d = Some s'"
  shows "\<exists>b1. chunk_spec_v1 ovf (driver_device k) c (b, d) =
    ((b1, Some s'), if NEWLINE \<in> set c then dev_contents s' else [])"
proof -
  have "c_string c = c" using assms(3) by (auto simp: c_string_def takeWhile_eq_all_conv)
  then show ?thesis
    using no_command_start [OF assms(1,2)] assms(4)
    by (simp add: chunk_spec_v1_def Let_def driver_contents_def)
qed

lemma kid_serves_text:
  assumes "forked_ok k S" and "kids S c = Some (b, ch)" and "w_inbox (world (thr ch)) = p # ps"
    and "p \<noteq> []" and "hd p \<noteq> hd SEEK_PREFIX" and "0 \<notin> set p" and "driver_write k p (w_dev (fshared S)) = Some s'"
  shows "\<exists>T b1 u. fork_step k S T \<and> forked_ok k T \<and> w_dev (fshared T) = Some s' \<and>
    kids T = (kids S)(c \<mapsto> (b1, u)) \<and> w_inbox (world (thr u)) = ps \<and>
    w_outbox (world (thr u)) = w_outbox (world (thr ch)) @ (if NEWLINE \<in> set p then dev_contents s' else [])"
proof -
  obtain b1 where "chunk_spec_v1 (ovf_of k) (driver_device k) p (b, w_dev (fshared S)) =
    ((b1, Some s'), if NEWLINE \<in> set p then dev_contents s' else [])"
    using chunk_v1_text [OF assms(4-7)] by blast
  from kid_pass_spec [OF assms(1-3) this] obtain n u where
    u: "recv_pass_v1 n (driver_os k) b (kid_load S ch) = ret (True, b1, u)"
      "forked_ok k (S\<lparr>fshared := world (thr u), kids := (kids S)(c \<mapsto> (b1, u))\<rparr>)"
      "w_dev (world (thr u)) = Some s'" "w_inbox (world (thr u)) = ps"
      "w_outbox (world (thr u)) = w_outbox (world (thr ch)) @ (if NEWLINE \<in> set p then dev_contents s' else [])"
    by blast
  show ?thesis
    using kid_pass [OF assms(2) u(1)] u
    by (intro exI [of _ "S\<lparr>fshared := world (thr u), kids := (kids S)(c \<mapsto> (b1, u))\<rparr>"] exI [of _ b1] exI [of _ u]) simp
qed

text \<open>Three writes of which the first has no newline.\<close>

lemma torn_writes:
  assumes "kernel_ok k" and "dev_inv s" and "pending s = null_entry" and "\<And>h p. \<exists>zs. slack k h p = 0 # zs"
    and "x \<noteq> []" and "NEWLINE \<notin> set x" and "0 \<notin> set x" and "is_line l" and "is_line y"
    and "length x \<le> MAXBUFFER" and "length l \<le> MAXBUFFER" and "length y \<le> MAXBUFFER" and "room_for k s [x, l, y]"
  shows "\<exists>s1 s2 s3. driver_write k x (Some s) = Some s1 \<and> driver_write k l (Some s1) = Some s2 \<and>
    driver_write k y (Some s2) = Some s3 \<and>
    dev_records s2 = window (dev_records s @ [x @ l]) \<and> dev_records s3 = window (dev_records s @ [x @ l, y])"
proof -
  have line: "l \<noteq> []" "y \<noteq> []" "is_line (x @ l)"
    using assms(5-9) by (auto simp: is_line_def butlast_append)
  from driver_write_text(2) [OF assms(1,2) _ assms(5,10)] obtain s1 where
    s1: "driver_write k x (Some s) = Some s1" "dev_inv s1" "dev_records s1 = dev_records s"
      "pending_bytes s1 = x" "buffptr (pending s1) \<noteq> 0"
    using assms(3,4,6,7,13) pending_null [OF assms(3)] by (auto simp: null_entry_def)
  from driver_write_text(1) [OF assms(1) s1(2) _ line(1) assms(11)] obtain s2 where
    s2: "driver_write k l (Some s1) = Some s2" "dev_inv s2" "dev_records s2 = window (dev_records s @ [x @ l])"
      "pending s2 = null_entry"
    using assms(13) s1 line(3) by auto
  from driver_write_text(1) [OF assms(1) s2(2) _ line(2) assms(12)] obtain s3 where
    s3: "driver_write k y (Some s2) = Some s3" "dev_records s3 = window (dev_records s2 @ [y])"
    using assms(9,13) s1(1) s2(1,4) pending_null [OF s2(4)] by (auto simp: null_entry_def)
  then show ?thesis using s1(1) s2(1,3) by (simp add: window_window)
qed

text \<open>
  Claim C32: The earlier server can tear lines apart. One client sends a line in two packets,
  another one a line in one packet. There is a run of their two children, each with its own mutex
  locked, that serves the second client between the two packets: the device then holds a record
  made of the beginning of the first line and the whole second line, and one made of the rest of
  the first. No order of the two connections gives these records, and the second client receives
  as its own line one that it did not send.
\<close>

theorem forked_lines_torn:
  assumes "forked_ok k S" and "w_dev (fshared S) = Some s" and "pending s = null_entry"
    and "\<And>h p. \<exists>zs. slack k h p = 0 # zs"
    and "kids S 0 = Some (b, A)" and "w_inbox (world (thr A)) = [x, y]"
    and "kids S 1 = Some (c, B)" and "w_inbox (world (thr B)) = [l]"
    and "is_line (x @ y)" and "hd x \<noteq> hd SEEK_PREFIX" and "hd y \<noteq> hd SEEK_PREFIX" and "text_line l" and "y \<noteq> l"
    and "room_for k s [x, l, y]"
  shows "\<exists>T s' c' B'. (fork_step k)\<^sup>*\<^sup>* S T \<and> w_dev (fshared T) = Some s' \<and>
    dev_records s' = window (dev_records s @ [x @ l, y]) \<and>
    dev_records s' \<notin> {window (dev_records s @ [x @ y, l]), window (dev_records s @ [l, x @ y])} \<and>
    kids T 1 = Some (c', B') \<and>
    w_outbox (world (thr B')) = w_outbox (world (thr B)) @ concat (window (dev_records s @ [x @ l]))"
proof -
  have inv: "kernel_ok k" "dev_inv s"
    using assms(1,2) by (auto simp: forked_ok_def drv_inv_def)
  have "packets_ok [x, y]" "packets_ok [l]"
    using assms(1) assms(5-8) unfolding forked_ok_def kid_ok_def by metis+
  then have pk: "x \<noteq> []" "y \<noteq> []" "l \<noteq> []" "length x \<le> MAXBUFFER" "length y \<le> MAXBUFFER" "length l \<le> MAXBUFFER"
    by (simp_all add: packets_ok_def)
  have l: "is_line l" "hd l \<noteq> hd SEEK_PREFIX" using assms(12) by (simp_all add: text_line_def)
  have x: "NEWLINE \<notin> set x" "0 \<notin> set x" and y: "is_line y"
    using assms(9) pk(1,2) by (auto simp: is_line_def butlast_append)
  have no0: "0 \<notin> set z \<and> NEWLINE \<in> set z" if "is_line z" for z
    using that by (rule is_lineE) (auto simp: NEWLINE_def)
  obtain s1 s2 s3 where w: "driver_write k x (Some s) = Some s1" "driver_write k l (Some s1) = Some s2"
    "driver_write k y (Some s2) = Some s3"
    and r: "dev_records s2 = window (dev_records s @ [x @ l])" "dev_records s3 = window (dev_records s @ [x @ l, y])"
    using torn_writes [OF inv assms(3,4) pk(1) x l(1) y pk(4,6,5) assms(14)] by blast
  obtain T1 b1 A1 where T1: "fork_step k S T1" "forked_ok k T1" "w_dev (fshared T1) = Some s1"
    "kids T1 = (kids S)(0 \<mapsto> (b1, A1))" "w_inbox (world (thr A1)) = [y]"
    using kid_serves_text [OF assms(1,5,6) pk(1) assms(10) x(2)] w(1) assms(2) by metis
  have "kids T1 1 = Some (c, B)" using T1(4) assms(7) by simp
  from kid_serves_text [OF T1(2) this assms(8) pk(3) l(2)] obtain T2 c2 B2 where
    T2: "fork_step k T1 T2" "forked_ok k T2" "w_dev (fshared T2) = Some s2" "kids T2 = (kids T1)(1 \<mapsto> (c2, B2))"
      "w_outbox (world (thr B2)) = w_outbox (world (thr B)) @ dev_contents s2"
    using w(2) T1(3) no0 [OF l(1)] by auto
  have "kids T2 0 = Some (b1, A1)" using T2(4) T1(4) by simp
  from kid_serves_text [OF T2(2) this T1(5) pk(2) assms(11)] obtain T3 b3 A3 where
    T3: "fork_step k T2 T3" "w_dev (fshared T3) = Some s3" "kids T3 = (kids T2)(0 \<mapsto> (b3, A3))"
    using w(3) T2(3) no0 [OF y] by auto
  have run: "(fork_step k)\<^sup>*\<^sup>* S T3"
    using T1(1) T2(1) T3(1) by (meson converse_rtranclp_into_rtranclp rtranclp.rtrancl_refl)
  have lasts: "last (window (zs @ [u, v])) = v" for zs :: "u8 list list" and u v
    by (simp add: window_def)
  have "dev_records s3 \<notin> {window (dev_records s @ [x @ y, l]), window (dev_records s @ [l, x @ y])}"
    using arg_cong [where f = last, of "dev_records s3"] assms(13) pk(1) lasts unfolding r(2)
    by (metis append_self_conv2 emptyE insertE)
  then show ?thesis
    using run T3(2,3) T2(4,5) r
    by (intro exI [of _ T3] exI [of _ s3] exI [of _ c2] exI [of _ B2]) (simp add: dev_contents_def)
qed

theorem forked_lines_torn_witness:
  "\<exists>T s'. (fork_step (sample_kernel [] [0]))\<^sup>*\<^sup>* (two_children [[97], [98, 10]] [[99, 10]]) T \<and>
     w_dev (fshared T) = Some s' \<and> dev_records s' = [[97, 99, 10], [98, 10]]"
proof -
  let ?k = "sample_kernel [] [0]" and ?S = "two_children [[97], [98, 10]] [[99, 10]]"
  have ok: "forked_ok ?k ?S"
    by (rule two_children_ok) (simp_all add: packets_ok_def MAXBUFFER_def)
  obtain b A B where k: "kids ?S 0 = Some (b, A)" "w_inbox (world (thr A)) = [[97], [98, 10]]"
    "kids ?S 1 = Some (b, B)" "w_inbox (world (thr B)) = [[99, 10]]"
    using two_children_sel(1) [of "[[97], [98, 10]]" "[[99, 10]]"] by blast
  have room: "room_for ?k fresh_state [[97], [99, 10], [98, 10]]" by code_simp
  have sl: "\<exists>zs. slack ?k h p = 0 # zs" for h p by (simp add: sample_kernel_def)
  show ?thesis
    using forked_lines_torn [OF ok two_children_sel(2) _ sl k _ _ _ _ _ room]
    by (auto simp: is_line_def text_line_def NEWLINE_def MAXBUFFER_def SEEK_PREFIX_def ascii_def window_def)
qed

end
