(* ===== verification/Driver_Module.thy ===== *)
theory Driver_Module
  imports Device_Runs
begin

section \<open>Loading and unloading the driver\<close>

text \<open>
  \<^verbatim>\<open>aesd_setup_cdev\<close>, \<^verbatim>\<open>aesd_init_module\<close> and \<^verbatim>\<open>aesd_cleanup_module\<close> of
  \<^verbatim>\<open>aesd-char-driver/main.c\<close>. The state has the two globals with the device number, the
  device numbers registered with the kernel, the number under which the embedded \<open>cdev\<close> is
  live, if it is, and the state of the driver itself. The answers of the registration
  services are a parameter.
\<close>

unbundle bit_operations_syntax

type_synonym dev_t = u32

text \<open>Device numbers: 12 bits of major and 20 bits of minor number.\<close>

definition MKDEV :: "u32 \<Rightarrow> u32 \<Rightarrow> dev_t" where "MKDEV ma mi = push_bit 20 ma OR mi"
definition MAJOR :: "dev_t \<Rightarrow> u32" where "MAJOR d = drop_bit 20 d"
definition MINOR :: "dev_t \<Rightarrow> u32" where "MINOR d = d AND mask 20"

record chrdev_services =
  alloc_chrdev_region :: "dev_t set \<Rightarrow> u32 \<Rightarrow> 32 word \<times> dev_t option"
    \<comment> \<open>the return value, and the number stored in the first argument, if one is\<close>
  cdev_add :: "dev_t \<Rightarrow> 32 word"

text \<open>
  \<open>alloc_chrdev_region\<close> returns 0 and stores a number that was free, with the minor number
  asked for; or it returns a negative error code and stores nothing.
\<close>

definition chrdev_ok :: "chrdev_services \<Rightarrow> bool" where
  "chrdev_ok v \<longleftrightarrow> (\<forall>used mi.
     case alloc_chrdev_region v used mi of
       (r, None) \<Rightarrow> sint r < 0
     | (r, Some d) \<Rightarrow> r = 0 \<and> d \<notin> used \<and> MINOR d = mi)"

record module_state =
  aesd_major :: u32
  aesd_minor :: u32
  chrdev_regions :: "dev_t set"
  live_cdev :: "dev_t option"
  drv :: kstate

abbreviation set_mtx :: "mutex \<Rightarrow> module_state \<Rightarrow> module_state" where
  "set_mtx x m \<equiv> m\<lparr>drv := (drv m)\<lparr>aesd_device := (aesd_device (drv m))\<lparr>mtx := x\<rparr>\<rparr>\<rparr>"

text \<open>
  The part of \<open>aesd_setup_cdev\<close> up to \<open>cdev_add\<close>. When \<open>cdev_add\<close> succeeds the device is live
  at once: files can be opened and the handlers called before the next statement runs.
\<close>

definition setup_cdev_add :: "chrdev_services \<Rightarrow> module_state \<Rightarrow> 32 word \<times> module_state" where
  "setup_cdev_add v m =
     (let devno = MKDEV (aesd_major m) (aesd_minor m);
          err = cdev_add v devno
      in (err, if err = 0 then m\<lparr>live_cdev := Some devno\<rparr> else m))"

definition aesd_setup_cdev :: "chrdev_services \<Rightarrow> module_state \<Rightarrow> 32 word \<times> module_state" where
  "aesd_setup_cdev v m = (let (err, m) = setup_cdev_add v m in (err, set_mtx Unlocked m))"

text \<open>\<open>memset(&aesd_device, 0, sizeof(struct aesd_dev))\<close>: every member, the mutex included.\<close>

definition zeroed_device :: aesd_dev where
  "zeroed_device =
     \<lparr>circular_buffer = \<lparr>entry = replicate AESDCHAR_MAX_WRITE_OPERATIONS_SUPPORTED null_entry,
                         in_offs = 0, out_offs = 0, full = False\<rparr>,
      dev_entry = null_entry, mtx = MutexUninit\<rparr>"

definition unregister_chrdev_region :: "dev_t \<Rightarrow> module_state \<Rightarrow> module_state" where
  "unregister_chrdev_region d m = m\<lparr>chrdev_regions := chrdev_regions m - {d}\<rparr>"

text \<open>The module up to the call of \<open>aesd_setup_cdev\<close>, once the region \<open>dev\<close> is allocated.\<close>

definition module_with_region :: "dev_t \<Rightarrow> module_state \<Rightarrow> module_state" where
  "module_with_region dev m =
     m\<lparr>aesd_major := MAJOR dev, chrdev_regions := insert dev (chrdev_regions m),
       drv := (drv m)\<lparr>aesd_device := zeroed_device\<rparr>\<rparr>"

definition aesd_init_module :: "chrdev_services \<Rightarrow> module_state \<Rightarrow> 32 word \<times> module_state" where
  "aesd_init_module v m =
     (case alloc_chrdev_region v (chrdev_regions m) (aesd_minor m) of
        (result, stored) \<Rightarrow>
          let dev = (case stored of None \<Rightarrow> 0 | Some d \<Rightarrow> d) in
          if sint result < 0 then (result, m\<lparr>aesd_major := MAJOR dev\<rparr>)
          else
            let (result, m) = aesd_setup_cdev v (module_with_region dev m)
            in if result \<noteq> 0 then (result, unregister_chrdev_region dev m) else (result, m))"

definition aesd_cleanup_module :: "module_state \<Rightarrow> module_state" where
  "aesd_cleanup_module m =
     (let devno = MKDEV (aesd_major m) (aesd_minor m)
      in unregister_chrdev_region devno (m\<lparr>live_cdev := None\<rparr>))"

subsection \<open>Device numbers\<close>

lemma MKDEV_MAJOR_MINOR [simp]: "MKDEV (MAJOR d) (MINOR d) = d"
  unfolding MKDEV_def MAJOR_def MINOR_def
  by (rule bit_word_eqI) (auto simp: bit_simps)

lemma MKDEV_MAJOR: "MINOR d = mi \<Longrightarrow> MKDEV (MAJOR d) mi = d"
  using MKDEV_MAJOR_MINOR by blast

lemma alloc_cases:
  assumes "chrdev_ok v"
  obtains (failed) r where "alloc_chrdev_region v used mi = (r, None)" and "sint r < 0"
  | (got) d where "alloc_chrdev_region v used mi = (0, Some d)" and "d \<notin> used" and "MINOR d = mi"
proof -
  obtain r x where a: "alloc_chrdev_region v used mi = (r, x)" by fastforce
  have l: "case (r, x) of (r, None) \<Rightarrow> sint r < 0 | (r, Some d) \<Rightarrow> r = 0 \<and> d \<notin> used \<and> MINOR d = mi"
    using assms a unfolding chrdev_ok_def by (auto dest!: spec [of _ used] spec [of _ mi])
  show thesis
  proof (cases x)
    case None
    with a l show thesis by (simp add: failed)
  next
    case (Some d)
    with a l show thesis by (simp add: got)
  qed
qed

text \<open>The state a successful load leaves.\<close>

definition loaded_module :: "dev_t \<Rightarrow> module_state \<Rightarrow> module_state" where
  "loaded_module d m = set_mtx Unlocked ((module_with_region d m)\<lparr>live_cdev := Some d\<rparr>)"

lemma init_module_got:
  assumes "alloc_chrdev_region v (chrdev_regions m) (aesd_minor m) = (0, Some d)"
    and "d \<notin> chrdev_regions m" and "MINOR d = aesd_minor m"
  shows "aesd_init_module v m =
    (if cdev_add v d = 0 then (0, loaded_module d m)
     else (cdev_add v d, m\<lparr>aesd_major := MAJOR d, drv := (drv m)\<lparr>aesd_device := zeroed_device\<lparr>mtx := Unlocked\<rparr>\<rparr>\<rparr>))"
  using assms
  by (simp add: aesd_init_module_def aesd_setup_cdev_def setup_cdev_add_def module_with_region_def
      MKDEV_MAJOR unregister_chrdev_region_def loaded_module_def Let_def)

lemma zeroed_unlocked: "zeroed_device\<lparr>mtx := Unlocked\<rparr> = aesd_device fresh_state"
  by (simp add: zeroed_device_def fresh_state_def AESDCHAR_MAX_WRITE_OPERATIONS_SUPPORTED_def)

lemma empty_device_inv:
  assumes "aesd_device s = aesd_device fresh_state" and "kheap s ZERO_SIZE_PTR = None"
  shows "dev_inv s" and "dev_contents s = []"
  using assms fresh_inv
  by (simp_all add: dev_inv_def pending_ok_def dev_records_def dev_contents_def)

lemma loaded_module_facts:
  "aesd_device (drv (loaded_module d m)) = aesd_device fresh_state"
  "kheap (drv (loaded_module d m)) = kheap (drv m)"
  "chrdev_regions (loaded_module d m) = insert d (chrdev_regions m)"
  "live_cdev (loaded_module d m) = Some d"
  "aesd_major (loaded_module d m) = MAJOR d" "aesd_minor (loaded_module d m) = aesd_minor m"
  by (simp_all add: loaded_module_def module_with_region_def zeroed_unlocked)

subsection \<open>Properties\<close>

definition sample_services :: chrdev_services where
  "sample_services =
     \<lparr>alloc_chrdev_region = (\<lambda>used mi. if MKDEV 240 mi \<notin> used \<and> MINOR (MKDEV 240 mi) = mi
                                        then (0, Some (MKDEV 240 mi)) else (- 16, None)),
      cdev_add = (\<lambda>d. 0)\<rparr>"

lemma sample_services_ok: "chrdev_ok sample_services"
  by (simp add: chrdev_ok_def sample_services_def)

definition sample_module :: module_state where
  "sample_module = \<lparr>aesd_major = 0, aesd_minor = 0, chrdev_regions = {5}, live_cdev = None,
                    drv = fresh_state\<rparr>"

abbreviation sample_loaded :: module_state where
  "sample_loaded \<equiv> loaded_module (MKDEV 240 0) sample_module"

lemma sample_init: "aesd_init_module sample_services sample_module = (0, sample_loaded)"
proof -
  have d: "MINOR (MKDEV 240 0) = 0" "MKDEV 240 0 \<noteq> 5"
    by (simp_all add: MKDEV_def MINOR_def push_bit_eq_mult mask_eq_exp_minus_1)
  show ?thesis
    using init_module_got [of sample_services sample_module "MKDEV 240 0"] d
    by (simp add: sample_services_def sample_module_def)
qed

text \<open>
  Claim C26: Loading the module either succeeds or leaves nothing behind. On success (return
  value 0) one free device number, with the module's major and minor numbers, is registered
  and live, and the device is empty with its invariant established; otherwise the registered
  numbers are as before and no \<open>cdev\<close> is live.
\<close>

theorem init_module_all_or_nothing:
  assumes "chrdev_ok v" and "live_cdev m = None" and "kheap (drv m) ZERO_SIZE_PTR = None"
    and "aesd_init_module v m = (r, m')"
  shows "if r = 0
         then \<exists>d. d \<notin> chrdev_regions m \<and> chrdev_regions m' = insert d (chrdev_regions m) \<and>
                  live_cdev m' = Some d \<and> d = MKDEV (aesd_major m') (aesd_minor m') \<and>
                  dev_inv (drv m') \<and> dev_contents (drv m') = []
         else chrdev_regions m' = chrdev_regions m \<and> live_cdev m' = None"
  using assms(1)
proof (cases rule: alloc_cases [where used = "chrdev_regions m" and mi = "aesd_minor m"])
  case (failed e)
  then show ?thesis
    using assms by (auto simp: aesd_init_module_def Let_def)
next
  case (got d)
  have inv: "dev_inv (drv (loaded_module d m)) \<and> dev_contents (drv (loaded_module d m)) = []"
    using empty_device_inv [of "drv (loaded_module d m)"] assms(3)
    by (simp add: loaded_module_facts)
  show ?thesis
    using init_module_got [OF got] got assms(2,4) inv
    by (auto simp: loaded_module_facts MKDEV_MAJOR split: if_splits)
qed

theorem init_module_all_or_nothing_witness:
  "dev_inv (drv sample_loaded) \<and> dev_contents (drv sample_loaded) = [] \<and>
   live_cdev sample_loaded \<noteq> None"
  using init_module_all_or_nothing [OF sample_services_ok _ _ sample_init]
  by (simp add: sample_module_def)

text \<open>
  Unloading undoes the registration, whatever the handlers did in between: the
  number registered by the load is the one released, no other registration changes and the
  \<open>cdev\<close> is gone. The blocks of the records are not freed: the heap is exactly what the
  handlers left, and the pointers to it are in a device structure that no longer exists.
\<close>

theorem cleanup_undoes_init:
  assumes "chrdev_ok v" and "aesd_init_module v m = (0, m')"
    and "used = m'\<lparr>drv := s\<rparr>"
  shows "chrdev_regions (aesd_cleanup_module used) = chrdev_regions m \<and>
         live_cdev (aesd_cleanup_module used) = None \<and>
         kheap (drv (aesd_cleanup_module used)) = kheap s"
  using assms(1)
proof (cases rule: alloc_cases [where used = "chrdev_regions m" and mi = "aesd_minor m"])
  case (failed e)
  then show ?thesis
    using assms(2) by (auto simp: aesd_init_module_def Let_def)
next
  case (got d)
  have "m' = loaded_module d m"
    using init_module_got [OF got] assms(2) by (simp split: if_splits)
  then show ?thesis
    using got assms(3)
    by (simp add: aesd_cleanup_module_def unregister_chrdev_region_def Let_def
        loaded_module_facts MKDEV_MAJOR)
qed

theorem cleanup_undoes_init_witness:
  "chrdev_regions (aesd_cleanup_module (sample_loaded\<lparr>drv := loaded_state\<rparr>)) = {5} \<and>
   kheap (drv (aesd_cleanup_module (sample_loaded\<lparr>drv := loaded_state\<rparr>))) 100 = Some [97, 98, 10]"
  using cleanup_undoes_init [OF sample_services_ok sample_init refl, of loaded_state]
  by (simp add: loaded_state_def sample_module_def)

text \<open>
  The mutex is initialised too late. Between \<open>cdev_add\<close>, which makes the device
  live, and \<open>mutex_init\<close>, every read and every write on an opened file locks a mutex that was
  never initialised.
\<close>

theorem setup_window_uninit_mutex:
  assumes "setup_cdev_add v (module_with_region d m) = (0, m')" and "private_data f = Some Aesd_device"
  shows "live_cdev m' \<noteq> None \<and>
         aesd_read k f buf count pos (drv m') = Inl UninitMutex \<and>
         aesd_write k f buf count (drv m') = Inl UninitMutex"
proof -
  have "mtx (aesd_device (drv m')) = MutexUninit" and "live_cdev m' \<noteq> None"
    using assms(1)
    by (auto simp: setup_cdev_add_def module_with_region_def zeroed_device_def Let_def split: if_splits)
  then show ?thesis
    using assms(2)
    by (simp add: aesd_read_def aesd_write_def deref_dev_def mutex_lock_def bindr_def)
qed

theorem setup_window_uninit_mutex_witness:
  "aesd_read (sample_kernel [] []) fresh_file 0 1 0
      (drv (snd (setup_cdev_add sample_services (module_with_region 0 sample_module)))) =
     Inl UninitMutex"
  using setup_window_uninit_mutex [of sample_services 0 sample_module
      "snd (setup_cdev_add sample_services (module_with_region 0 sample_module))" fresh_file
      "sample_kernel [] []" 0 1 0]
  by (simp add: setup_cdev_add_def sample_services_def Let_def)

end
