(* ===== verification/Server_Threads.thy ===== *)
theory Server_Threads
  imports Server_Main
begin

section \<open>The accept loop and its threads\<close>

text \<open>
  The accept loop of \<open>main\<close> in \<^verbatim>\<open>server/aesdsocket_linkedlists.c\<close> interleaved with the
  connection threads it creates. A thread is known by the address of its parameters and is
  before the global mutex, inside it, or past it: only the memory it shares with the accept loop matters here, and what the
  threads do to the device is the subject of \<open>Server_Concurrent\<close>. The
  main thread is waiting in \<open>accept\<close> or between \<open>pthread_create\<close> and the assignment to
  \<open>newthread->pid\<close>. The step relation gives every order in which they can run.
\<close>

datatype phase = Opening | Serving | Finishing

datatype main_pc = InAccept | Linking nat nat   \<comment> \<open>the new element and the thread id\<close>

record server =
  slist_of :: clist
  threads :: "nat \<rightharpoonup> phase"
  mutex_holder :: "nat option"
  active :: "32 word"
  pc :: main_pc

definition server_start :: server where
  "server_start = \<lparr>slist_of = \<lparr>store = Map.empty, slh_first = 0, closed_fds = []\<rparr>, threads = Map.empty,
     mutex_holder = None, active = 0, pc = InAccept\<rparr>"

text \<open>
  One pass of the loop up to \<open>pthread_create\<close>, with the results of \<open>malloc\<close> (\<open>p\<close>) and
  \<open>inet_ntop\<close>; \<open>created\<close> tells whether there is a thread. Only a negative return value of
  \<open>pthread_create\<close> counts as an error, and it has none: without a thread the loop goes on in
  the same way.
\<close>

definition accept_conn :: "fd \<Rightarrow> nat \<Rightarrow> cnode \<Rightarrow> string \<Rightarrow> nat \<Rightarrow> bool \<Rightarrow> server \<Rightarrow> server run" where
  "accept_conn acceptfd p junk addr tid created S =
     (case newElement p junk (slist_of S) of
        (newthread, l) \<Rightarrow>
          bindx (deref_node l newthread) (\<lambda>x.
            ret (S\<lparr>slist_of := l\<lparr>store := (store l)(newthread \<mapsto>
                       x\<lparr>node := (node x)\<lparr>istream := acceptfd, conn_s := addr, filename := FILENAME\<rparr>\<rparr>)\<rparr>,
                   threads := (if created then (threads S)(newthread \<mapsto> Opening) else threads S),
                   pc := Linking newthread tid\<rparr>)))"

text \<open>The rest of the pass: the thread id is stored, the element linked, the list checked.\<close>

definition link_conn :: "nat \<Rightarrow> nat \<Rightarrow> server \<Rightarrow> server run" where
  "link_conn newthread tid S =
     bindx (deref_node (slist_of S) newthread) (\<lambda>x.
     let l = (slist_of S)\<lparr>store := (store (slist_of S))(newthread \<mapsto> x\<lparr>node := (node x)\<lparr>pid := tid\<rparr>\<rparr>)\<rparr>
     in bindx (SLIST_INSERT_HEAD newthread l) (\<lambda>l.
        bindx (check_completed_threads 1 l) (\<lambda>l.
          ret (S\<lparr>slist_of := l, pc := InAccept\<rparr>))))"

text \<open>The last statements of \<open>recieve_text\<close>: \<open>done\<close>, the count of threads, and \<open>free(params)\<close>.\<close>

definition end_thread :: "nat \<Rightarrow> server \<Rightarrow> server" where
  "end_thread p S =
     S\<lparr>slist_of := (slist_of S)\<lparr>store := (store (slist_of S))(p := None)\<rparr>,
       threads := (threads S)(p := None), active := active S - 1\<rparr>"

inductive server_step :: "server \<Rightarrow> server run \<Rightarrow> bool" where
  no_connection: "pc S = InAccept \<Longrightarrow> server_step S (ret S)"
| connection: "pc S = InAccept \<Longrightarrow> store (slist_of S) p = None \<Longrightarrow>
     server_step S (accept_conn acceptfd p junk addr tid created S)"
| link: "pc S = Linking p tid \<Longrightarrow> server_step S (link_conn p tid S)"
| abandon: "threads S p = Some Opening \<Longrightarrow> server_step S (ret (S\<lparr>threads := (threads S)(p := None)\<rparr>))"
| enter: "threads S p = Some Opening \<Longrightarrow> mutex_holder S = None \<Longrightarrow>
     server_step S (ret (S\<lparr>threads := (threads S)(p \<mapsto> Serving), mutex_holder := Some p\<rparr>))"
| leave: "threads S p = Some Serving \<Longrightarrow>
     server_step S (ret (S\<lparr>threads := (threads S)(p \<mapsto> Finishing), mutex_holder := None\<rparr>))"
| finish: "threads S p = Some Finishing \<Longrightarrow> server_step S (ret (end_thread p S))"

inductive server_reach :: "server \<Rightarrow> bool" where
  start: "server_reach server_start"
| step: "server_reach S \<Longrightarrow> server_step S (ret T) \<Longrightarrow> server_reach T"

subsection \<open>Invariant\<close>

definition server_inv :: "server \<Rightarrow> bool" where
  "server_inv S \<longleftrightarrow>
     (\<forall>p. threads S p = Some Serving \<longleftrightarrow> mutex_holder S = Some p) \<and>
     (\<forall>p. threads S p \<noteq> None \<longrightarrow> p \<noteq> 0 \<and> store (slist_of S) p \<noteq> None)"

lemma accept_conn_ret:
  assumes "accept_conn acceptfd p junk addr tid created S = ret T" and "store (slist_of S) p = None"
  shows "p \<noteq> 0" and "mutex_holder T = mutex_holder S"
    and "threads T = (if created then (threads S)(p \<mapsto> Opening) else threads S)"
    and "store (slist_of T) q \<noteq> None \<longleftrightarrow> q = p \<or> store (slist_of S) q \<noteq> None"
  using assms
  by (auto simp: accept_conn_def newElement_def deref_node_def split: if_splits)

lemma link_conn_ret:
  assumes "link_conn p tid S = ret T"
  shows "mutex_holder T = mutex_holder S" and "threads T = threads S"
    and "store (slist_of T) q \<noteq> None \<longleftrightarrow> store (slist_of S) q \<noteq> None"
  using assms
  by (auto simp: link_conn_def SLIST_INSERT_HEAD_def deref_node_def check_completed_threads_def
      SLIST_EMPTY_def Let_def split: if_splits option.splits)

lemma not_holder: "server_inv S \<Longrightarrow> threads S p \<noteq> Some Serving \<Longrightarrow> mutex_holder S \<noteq> Some p"
  by (simp add: server_inv_def)

lemma server_step_inv:
  assumes "server_step S (ret T)" and "server_inv S"
  shows "server_inv T"
  using assms(1)
proof (cases rule: server_step.cases)
  case no_connection
  then show ?thesis using assms(2) by simp
next
  case (connection p acceptfd junk addr tid created)
  note T = connection(1) [symmetric]
  have p: "threads S p = None"
    using assms(2) connection(3) unfolding server_inv_def by blast
  then show ?thesis
    using assms(2) not_holder [OF assms(2), of p] accept_conn_ret [OF T connection(3)] by (auto simp: server_inv_def)
next
  case (link p tid)
  then show ?thesis
    using assms(2) link_conn_ret [of p tid S T] by (auto simp: server_inv_def)
next
  case (finish p)
  then show ?thesis
    using assms(2) not_holder [OF assms(2), of p] by (auto simp: server_inv_def end_thread_def)
next
  case (abandon p)
  then show ?thesis
    using assms(2) not_holder [OF assms(2), of p] by (auto simp: server_inv_def)
qed (use assms(2) in \<open>auto simp: server_inv_def\<close>)

lemma server_reach_inv: "server_reach S \<Longrightarrow> server_inv S"
proof (induction rule: server_reach.induct)
  case start
  show ?case by (simp add: server_inv_def server_start_def)
next
  case (step S T)
  then show ?case by (blast intro: server_step_inv)
qed

text \<open>The parameters of every thread that has not ended are allocated: only the thread itself frees them.\<close>

lemma live_parameters: "server_reach S \<Longrightarrow> threads S p \<noteq> None \<Longrightarrow> store (slist_of S) p \<noteq> None"
  using server_reach_inv by (auto simp: server_inv_def)

subsection \<open>Runs\<close>

definition conn_node :: cnode where
  "conn_node = \<lparr>node = \<lparr>conn_done = False, ostream = 0, filename = FILENAME, istream = 7, pid = 0, conn_s = []\<rparr>,
                entries = 0\<rparr>"

text \<open>States of a run with one connection whose parameters are at address 8.\<close>

definition conn_state :: "nat \<Rightarrow> (nat \<rightharpoonup> cnode) \<Rightarrow> phase option \<Rightarrow> 32 word \<Rightarrow> main_pc \<Rightarrow> server" where
  "conn_state first st ph n c =
     \<lparr>slist_of = \<lparr>store = st, slh_first = first, closed_fds = []\<rparr>, threads = (\<lambda>p. if p = 8 then ph else None),
      mutex_holder = (if ph = Some Serving then Some 8 else None), active = n, pc = c\<rparr>"

lemma conn_start: "server_start = conn_state 0 Map.empty None 0 InAccept"
  by (auto simp: server_start_def conn_state_def)

lemma run_connect:
  assumes "server_reach (conn_state first Map.empty None n InAccept)"
  shows "server_reach (conn_state first [8 \<mapsto> conn_node] (Some Opening) n (Linking 8 1))"
proof (rule step [OF assms])
  have "accept_conn 7 8 conn_node [] 1 True (conn_state first Map.empty None n InAccept) =
      ret (conn_state first [8 \<mapsto> conn_node] (Some Opening) n (Linking 8 1))"
    by (auto simp: accept_conn_def newElement_def deref_node_def conn_state_def conn_node_def)
  with connection [of "conn_state first Map.empty None n InAccept" 8 7 conn_node "[]" 1 True]
  show "server_step (conn_state first Map.empty None n InAccept)
      (ret (conn_state first [8 \<mapsto> conn_node] (Some Opening) n (Linking 8 1)))"
    by (simp add: conn_state_def)
qed

lemma run_serve:
  assumes "server_reach (conn_state first [8 \<mapsto> x] (Some Opening) n c)"
  shows "server_reach (conn_state first Map.empty None (n - 1) c)"
proof -
  have "server_reach (conn_state first [8 \<mapsto> x] (Some Serving) n c)"
    using step [OF assms enter [of _ 8]] by (simp add: conn_state_def fun_upd_def cong: if_cong)
  from step [OF this leave [of _ 8]]
  have "server_reach (conn_state first [8 \<mapsto> x] (Some Finishing) n c)"
    by (simp add: conn_state_def fun_upd_def cong: if_cong)
  from step [OF this finish [of _ 8]] show ?thesis
    by (simp add: conn_state_def end_thread_def fun_upd_def cong: if_cong)
qed

lemma run_link:
  assumes "server_reach (conn_state first [8 \<mapsto> x] ph n (Linking 8 t))"
  shows "server_reach (conn_state 8 [8 \<mapsto> x\<lparr>node := (node x)\<lparr>pid := t\<rparr>, entries := first\<rparr>] ph n InAccept)"
proof (rule step [OF assms])
  have "link_conn 8 t (conn_state first [8 \<mapsto> x] ph n (Linking 8 t)) =
      ret (conn_state 8 [8 \<mapsto> x\<lparr>node := (node x)\<lparr>pid := t\<rparr>, entries := first\<rparr>] ph n InAccept)"
    by (simp add: link_conn_def deref_node_def conn_state_def SLIST_INSERT_HEAD_def
        check_completed_threads_def SLIST_EMPTY_def)
  with link [of "conn_state first [8 \<mapsto> x] ph n (Linking 8 t)" 8 t]
  show "server_step (conn_state first [8 \<mapsto> x] ph n (Linking 8 t))
      (ret (conn_state 8 [8 \<mapsto> x\<lparr>node := (node x)\<lparr>pid := t\<rparr>, entries := first\<rparr>] ph n InAccept))"
    by (simp add: conn_state_def)
qed

text \<open>
  Claim C39: The accept loop can use freed memory. A connection can be served and ended
  between its creation and the assignment to \<open>newthread->pid\<close>: there is an interleaving in
  which that assignment goes to a block its thread has freed.
\<close>

theorem accept_loop_use_after_free: "\<exists>S. server_reach S \<and> server_step S (fault BadPointer)"
proof -
  let ?S = "conn_state 0 Map.empty None (- 1) (Linking 8 1)"
  have "server_reach ?S"
    using run_serve [OF run_connect [of 0 0]] start conn_start by simp
  moreover have "link_conn 8 1 ?S = fault BadPointer"
    by (simp add: link_conn_def deref_node_def conn_state_def)
  then have "server_step ?S (fault BadPointer)"
    using link [of ?S 8 1] by (simp add: conn_state_def)
  ultimately show ?thesis by blast
qed

lemma cyclic_walk: "store l p = Some x \<Longrightarrow> entries x = p \<Longrightarrow> p \<noteq> 0 \<Longrightarrow> foreach_conn n (\<lambda>_ _. False) p l = None"
  by (induction n) (simp_all add: deref_node_def)

text \<open>
  The list of connections can become a cycle. Threads free elements that stay in
  the list, so when \<open>malloc\<close> returns such an element again, inserting it links it to itself:
  there is a reachable state in which a walk over the list never ends.
\<close>

theorem conn_list_cyclic:
  "\<exists>S. server_reach S \<and> slh_first (slist_of S) \<noteq> 0 \<and>
       (\<forall>n. foreach_conn n (\<lambda>_ _. False) (slh_first (slist_of S)) (slist_of S) = None)"
proof -
  have "server_reach (conn_state 0 [8 \<mapsto> conn_node] (Some Opening) 0 (Linking 8 1))"
    using run_connect [of 0 0] start conn_start by simp
  from run_connect [OF run_serve [OF run_link [OF this]]]
  have "server_reach (conn_state 8 [8 \<mapsto> conn_node] (Some Opening) (- 1) (Linking 8 1))" by simp
  from run_link [OF this] show ?thesis
    by (intro exI conjI) (assumption, auto simp: conn_state_def intro: cyclic_walk)
qed

end
