(* ===== verification/Server_Timer.thy ===== *)
theory Server_Timer
  imports Server_Properties Server_Main
begin

section \<open>The timer of the server\<close>

text \<open>
  \<open>timer_handler\<close>, \<open>timer_thread\<close> and \<open>setuptimer\<close> of \<^verbatim>\<open>server/aesdsocket_linkedlists.c\<close>, which
  append a time stamp to the device every ten seconds (the call of \<open>setuptimer\<close> in \<open>main\<close> is
  commented out), and \<open>get_in_addr\<close>.
\<close>

definition WAITINGTIME :: nat where "WAITINGTIME = 10"

record tm =
  tm_year :: nat   \<comment> \<open>the year itself\<close>
  tm_mon :: nat    \<comment> \<open>1 to 12\<close>
  tm_mday :: nat
  tm_hour :: nat

definition two_digits :: "nat \<Rightarrow> u8 list" where
  "two_digits n = (if n < 10 then 48 # print_dec n else print_dec n)"

text \<open>\<^verbatim>\<open>strftime\<close> with the format \<^verbatim>\<open>timestamp:%Y %m %d %H\n\<close>.\<close>

definition timestamp :: "tm \<Rightarrow> u8 list" where
  "timestamp t = ascii ''timestamp:'' @ print_dec (tm_year t) @ 32 # two_digits (tm_mon t) @
     32 # two_digits (tm_mday t) @ 32 # two_digits (tm_hour t) @ [NEWLINE]"

definition timer_handler :: "'w os \<Rightarrow> tm \<Rightarrow> 'w thread \<Rightarrow> 'w thread run" where
  "timer_handler os timeinfo t = bindx (savetime os (timestamp timeinfo @ [0]) t) (\<lambda>(_, t). ret t)"

text \<open>The timer that is armed: first expiry and period in seconds; the thread then sleeps forever.\<close>

definition timer_thread :: "int \<Rightarrow> int \<Rightarrow> int \<Rightarrow> (nat \<times> nat) outcome" where
  "timer_thread sig_ret create_ret settime_ret =
     (if sig_ret = -1 then Exit EXIT_FAILURE
      else if create_ret = -1 then Exit EXIT_FAILURE
      else if settime_ret = -1 then Exit EXIT_FAILURE
      else Return (WAITINGTIME, WAITINGTIME))"

datatype timer_process = Parent_continues | Child_sleeps

definition setuptimer :: "int \<Rightarrow> int \<Rightarrow> timer_process outcome" where
  "setuptimer child create_ret =
     (if child < 0 then Exit EXIT_FAILURE
      else if child = 0
           then if create_ret < 0 then Exit EXIT_FAILURE else Return Child_sleeps
      else Return Parent_continues)"

text \<open>\<open>get_in_addr\<close>: the offset of the address in a socket address of the family.\<close>

definition get_in_addr :: "nat \<Rightarrow> nat" where
  "get_in_addr sa_family = (if sa_family = 2 then 4 else 8)"
    \<comment> \<open>\<open>AF_INET\<close> is 2; offsets of \<open>sin_addr\<close> and \<open>sin6_addr\<close>\<close>

subsection \<open>A tick adds a line\<close>

lemma print_dec_plain: "NEWLINE \<notin> set (print_dec n)" "0 \<notin> set (print_dec n)"
proof -
  have "b \<noteq> NEWLINE \<and> b \<noteq> 0" if d: "b \<in> set (print_dec n)" for b
  proof -
    obtain k where "k < 10" "b = 48 + of_nat k" using print_dec_digits [OF d] by blast
    moreover have "is_space NEWLINE" by (simp add: NEWLINE_def is_space_def)
    ultimately show ?thesis using digit_facts(3,4) [of k] by metis
  qed
  then show "NEWLINE \<notin> set (print_dec n)" "0 \<notin> set (print_dec n)" by blast+
qed

lemma timestamp_line: "is_line (timestamp t)"
  using print_dec_plain
  by (auto simp: is_line_def timestamp_def two_digits_def butlast_append ascii_def NEWLINE_def)

lemma savetime_leaks_stream:
  assumes "savetime os buffer t = ret (0, u)"
  shows "\<exists>f. owned u = Stream f # owned t"
  using assms
  by (auto simp: savetime_def acquire_def Let_def split: prod.splits if_splits dest!: savetofile_owned)

text \<open>
  A tick of the timer appends its time stamp and leaks a stream. On top of the
  driver, with nothing pending and memory available, \<open>timer_handler\<close> returns with the device
  holding the last ten of its records and the time stamp; the stream it opened is never
  closed.
\<close>

theorem timer_tick:
  assumes "drv_inv k (world t)" and "quiet (drv_view (world t))" and "held t = {}"
    and "w_dev (world t) = Some s" and "pending s = null_entry"
    and "length (timestamp tm) \<le> MAXBUFFER"
    and "fst (kzalloc k (kheap s) (of_nat (length (timestamp tm)))) \<noteq> 0"
  shows "\<exists>u s' f. timer_handler (driver_os k) tm t = ret u \<and> w_dev (world u) = Some s' \<and>
     dev_records s' = window (dev_records s @ [timestamp tm]) \<and> owned u = Stream f # owned t"
proof -
  have ok: "kernel_ok k" "dev_inv s"
    using assms(1,4) by (auto simp: drv_inv_def)
  obtain f w where f: "drv_fopen FILENAME ''a+'' (world t) = (f, w)" "f \<noteq> 0" "drv_inv k w"
    and vf: "drv_view w = (drv_view (world t))\<lparr>v_left := (v_left (drv_view (world t)))(f := Ended),
      v_app := insert f (v_app (drv_view (world t)))\<rparr>"
    using drv_open_close_laws(1) [OF assms(1)] by blast
  have cs: "c_string (timestamp tm) = timestamp tm"
    by (rule c_string_line [OF timestamp_line])
  have qw: "quiet (drv_view w)" "f \<in> v_app (drv_view w)"
    using assms(2) by (auto simp: vf quiet_def)
  obtain w' where w': "drv_fputs (timestamp tm) f w = (True, w')"
    "drv_view (drv_fflush k f w') = (drv_view w)\<lparr>v_dev := driver_write k (timestamp tm) (w_dev w)\<rparr>"
    using drv_save_law [OF f(3) qw assms(6)] by blast
  have dw: "w_dev w = Some s"
    using arg_cong [OF vf, of v_dev] assms(4) by simp
  obtain s' where s': "driver_write k (timestamp tm) (Some s) = Some s'"
    "dev_records s' = window (dev_records s @ [timestamp tm])"
    using driver_write_line [OF ok assms(5) timestamp_line assms(6,7)] by blast
  have "w_dev (drv_fflush k f w') = Some s'"
    using arg_cong [OF w'(2), of v_dev] s'(1) dw by simp
  moreover have "timer_handler (driver_os k) tm t =
      ret (t\<lparr>owned := Stream f # owned t, world := drv_fflush k f w'\<rparr>)"
    using f(1,2) w'(1) assms(3)
    by (cases t) (simp add: timer_handler_def savetime_def savetofile_def acquire_def pthread_mutex_lock_def
        pthread_mutex_unlock_def cs)
  ultimately show ?thesis
    using s'(2)
    by (intro exI [of _ "t\<lparr>owned := Stream f # owned t, world := drv_fflush k f w'\<rparr>"] exI [of _ s'] exI [of _ f]) simp
qed

definition noon :: tm where "noon = \<lparr>tm_year = 2024, tm_mon = 5, tm_mday = 17, tm_hour = 12\<rparr>"

lemma length_noon: "length (timestamp noon) = 24"
  by (simp add: timestamp_def noon_def two_digits_def ascii_def print_dec.simps)

theorem timer_tick_witness:
  "\<exists>u s'. timer_handler (driver_os (sample_kernel [] [])) noon (new_connection loaded_state []) = ret u \<and>
     w_dev (world u) = Some s' \<and> dev_records s' = [[97, 98, 10], [99, 10], timestamp noon]"
proof -
  let ?k = "sample_kernel [] []" and ?t = "new_connection loaded_state []"
  have "connection_start ?k ?t" by (rule sample_connection_start) simp
  then have "drv_inv ?k (world ?t)" "quiet (drv_view (world ?t))" by (simp_all add: connection_start_def)
  moreover have "fst (kzalloc ?k (kheap loaded_state) (of_nat (length (timestamp noon)))) \<noteq> 0"
    by (simp add: length_noon sample_kernel_def sample_kzalloc_def sample_addrs_def sample_max_def)
  ultimately show ?thesis
    using timer_tick [of ?k ?t loaded_state noon] by (auto simp: length_noon MAXBUFFER_def window_def)
qed

end
