(* ===== verification/System_Calls.thy ===== *)
theory System_Calls
  imports Prelude
begin

section \<open>The system call exercises\<close>

text \<open>
  \<open>do_system\<close>, \<open>do_exec\<close> and \<open>do_exec_redirect\<close> of \<^verbatim>\<open>examples/systemcalls/systemcalls.c\<close>. The
  return values of \<open>fork\<close>, \<open>waitpid\<close>, \<open>open\<close> and \<open>dup2\<close>, and what the executed program does,
  are the record \<open>sys_env\<close>; wait statuses are 32-bit words in the encoding of the C library.
\<close>

unbundle bit_operations_syntax

subsection \<open>Wait statuses\<close>

definition WIFEXITED :: "32 word \<Rightarrow> bool" where "WIFEXITED s \<longleftrightarrow> s AND 0x7f = 0"
definition WEXITSTATUS :: "32 word \<Rightarrow> 32 word" where "WEXITSTATUS s = drop_bit 8 s AND 0xff"

text \<open>How a process ends: \<open>exit\<close> with the low eight bits of its argument, or a signal (1 to 126).\<close>

datatype ended = Exited "8 word" | Killed "7 word"

definition wait_status :: "ended \<Rightarrow> 32 word" where
  "wait_status e = (case e of Exited c \<Rightarrow> push_bit 8 (ucast c) | Killed g \<Rightarrow> ucast g)"

lemma masks: "(0x7f :: 32 word) = mask 7" "(0xff :: 32 word) = mask 8"
  by (simp_all add: mask_eq_exp_minus_1)

lemma ucast_zero_iff: "(ucast (c :: 8 word) :: 32 word) = 0 \<longleftrightarrow> c = 0" "(ucast (g :: 7 word) :: 32 word) = 0 \<longleftrightarrow> g = 0"
  using bit_imp_le_length [of c] bit_imp_le_length [of g] by (fastforce simp: bit_eq_iff bit_simps)+

lemma wait_status_exited: "WIFEXITED (wait_status (Exited c))" "WEXITSTATUS (wait_status (Exited c)) = ucast c"
proof -
  show "WIFEXITED (wait_status (Exited c))"
    unfolding WIFEXITED_def wait_status_def ended.case masks
    by (rule bit_word_eqI) (auto simp: bit_simps)
  show "WEXITSTATUS (wait_status (Exited c)) = ucast c"
    unfolding WEXITSTATUS_def wait_status_def ended.case masks
    by (rule bit_word_eqI) (auto simp: bit_simps dest: bit_imp_le_length)
qed

lemma wait_status_killed: "WIFEXITED (wait_status (Killed g)) \<longleftrightarrow> g = 0"
proof -
  have "(ucast g :: 32 word) AND 0x7f = ucast g"
    unfolding masks by (rule bit_word_eqI) (auto simp: bit_simps dest: bit_imp_le_length)
  then show ?thesis
    by (simp add: WIFEXITED_def wait_status_def ucast_zero_iff)
qed

subsection \<open>Environment\<close>

type_synonym argv = "string option list"   \<comment> \<open>an array of strings; \<open>None\<close> is null\<close>

record sys_env =
  fork_pid :: int
  waitpid_r :: int
  program :: "argv \<Rightarrow> (ended \<times> string) option"
    \<comment> \<open>how a program ends and what it writes to its standard output; \<open>None\<close>: \<open>execv\<close> fails\<close>
  open_fd :: int
  dup2_r :: int

text \<open>\<open>execv\<close> followed by \<open>exit(-1)\<close>: the way the child ends, and its standard output.\<close>

definition exec_or_exit :: "sys_env \<Rightarrow> argv \<Rightarrow> ended \<times> string" where
  "exec_or_exit v command = (case program v command of None \<Rightarrow> (Exited (- 1), []) | Some r \<Rightarrow> r)"

text \<open>
  The array built from the variable arguments: \<open>args\<close> are the arguments passed. Reading more
  than were passed, and an array of no elements, are undefined.
\<close>

definition build_command :: "int \<Rightarrow> string list \<Rightarrow> argv result" where
  "build_command count args =
     (if count < 0 then Inl OutOfBounds
      else if int (length args) < count then Inl Uninitialised
      else Inr (map Some (take (nat count) args) @ [None]))"

subsection \<open>The functions\<close>

definition do_system :: "32 word \<Rightarrow> bool" where
  "do_system r = (if r = - 1 then False else if WIFEXITED r then True else False)"
    \<comment> \<open>\<open>r\<close> is the return value of \<open>system(cmd)\<close>\<close>

definition do_exec :: "sys_env \<Rightarrow> int \<Rightarrow> string list \<Rightarrow> bool result" where
  "do_exec v count args =
     bindr (build_command count args) (\<lambda>command.
       if fork_pid v = -1 then Inr False
       else
         let status = wait_status (fst (exec_or_exit v command))
         in if waitpid_r v = -1 then Inr False
            else if WIFEXITED status
                 then if WEXITSTATUS status = 0 then Inr True else Inr False
            else Inr False)"

text \<open>
  The child of \<open>do_exec_redirect\<close>: how it ends, and the output file, which is opened without
  truncation and written from its start.
\<close>

definition redirect_child :: "sys_env \<Rightarrow> argv \<Rightarrow> string option \<Rightarrow> ended \<times> string option" where
  "redirect_child v command file =
     (if open_fd v < 0 then (Exited (- 1), file)
      else
        let content = (case file of None \<Rightarrow> [] | Some c \<Rightarrow> c)
        in if dup2_r v < 0 then (Exited (- 1), Some content)
           else case exec_or_exit v command of
                  (e, out) \<Rightarrow> (e, Some (out @ drop (length out) content)))"

definition do_exec_redirect ::
  "sys_env \<Rightarrow> int \<Rightarrow> string list \<Rightarrow> string option \<Rightarrow> (bool \<times> string option) result" where
  "do_exec_redirect v count args file =
     bindr (build_command count args) (\<lambda>command.
       if fork_pid v = -1 then Inr (False, file)
       else
         case redirect_child v command file of
           (e, file) \<Rightarrow>
             if waitpid_r v = -1 then Inr (False, file)
             else if WIFEXITED (wait_status e) then Inr (True, file)
             else Inr (True, file))"

subsection \<open>Properties\<close>

text \<open>Signal numbers are positive.\<close>

definition signals_positive :: "sys_env \<Rightarrow> bool" where
  "signals_positive v \<longleftrightarrow> (\<forall>c out. program v c \<noteq> Some (Killed 0, out))"

text \<open>
  Claim C33: \<open>do_exec\<close> reports success exactly when the program ran and succeeded: it returns
  true if and only if \<open>fork\<close> and \<open>waitpid\<close> worked, \<open>execv\<close> started the program with exactly the
  given arguments, and the program exited with status 0. A program that could not be started,
  failed or was killed gives false.
\<close>

theorem do_exec_correct:
  assumes "count = int (length args)" and "signals_positive v"
  shows "do_exec v count args = Inr (fork_pid v \<noteq> -1 \<and> waitpid_r v \<noteq> -1 \<and>
     (\<exists>out. program v (map Some args @ [None]) = Some (Exited 0, out)))"
proof -
  obtain e out where "exec_or_exit v (map Some args @ [None]) = (e, out)" by force
  moreover have "g \<noteq> 0" if "program v c = Some (Killed g, out)" for g c out
    using assms(2) that by (auto simp: signals_positive_def)
  ultimately show ?thesis
    using assms(1)
    by (cases e)
      (auto simp: do_exec_def build_command_def exec_or_exit_def Let_def wait_status_exited wait_status_killed
        ucast_zero_iff split: option.splits)
qed

definition sample_env :: sys_env where
  "sample_env = \<lparr>fork_pid = 5, waitpid_r = 5,
     program = (\<lambda>c. if c = [Some ''/bin/echo'', Some ''hi'', None] then Some (Exited 0, ''hi'')
                    else if c = [Some ''/bin/false'', None] then Some (Exited 1, []) else None),
     open_fd = 3, dup2_r = 1\<rparr>"

theorem do_exec_correct_witness:
  "do_exec sample_env 2 [''/bin/echo'', ''hi''] = Inr True"
  using do_exec_correct [of 2 "[''/bin/echo'', ''hi'']" sample_env]
  by (simp add: sample_env_def signals_positive_def)

text \<open>
  \<open>do_exec_redirect\<close> does not report failures of the program. It returns true if and
  only if \<open>fork\<close> and \<open>waitpid\<close> worked, whether the program was started, failed or was killed,
  although it is documented to behave as \<open>do_exec\<close>. When the program runs, its output
  overwrites the start of the file; what the file held beyond that stays.
\<close>

theorem do_exec_redirect_ignores_failure:
  assumes "count = int (length args)"
  shows "\<exists>file'. do_exec_redirect v count args file = Inr (fork_pid v \<noteq> -1 \<and> waitpid_r v \<noteq> -1, file') \<and>
     (fork_pid v \<noteq> -1 \<and> 0 \<le> open_fd v \<and> 0 \<le> dup2_r v \<longrightarrow>
        (\<forall>e out old. program v (map Some args @ [None]) = Some (e, out) \<and> file = Some old \<longrightarrow>
           file' = Some (out @ drop (length out) old)))"
  using assms
  by (auto simp: do_exec_redirect_def build_command_def redirect_child_def exec_or_exit_def Let_def
      split: prod.splits option.splits)

theorem do_exec_redirect_ignores_failure_witness:
  "fst (projr (do_exec_redirect sample_env 1 [''/bin/false''] (Some ''old''))) \<and>
   \<not> projr (do_exec sample_env 1 [''/bin/false''])"
proof -
  have "do_exec sample_env 1 [''/bin/false''] = Inr False"
    by (simp add: do_exec_def build_command_def sample_env_def exec_or_exit_def Let_def wait_status_exited)
  then show ?thesis
    using do_exec_redirect_ignores_failure [of 1 "[''/bin/false'']" sample_env "Some ''old''"]
    by (auto simp: sample_env_def)
qed

text \<open>
  \<open>do_system\<close> ignores the exit status of the command. It returns true for every
  command that exited, with any status, and false for a command that was killed by a signal;
  its documentation says that a non-zero status gives false.
\<close>

theorem do_system_ignores_status:
  "do_system (wait_status (Exited c)) \<and> (g \<noteq> 0 \<longrightarrow> \<not> do_system (wait_status (Killed g))) \<and> \<not> do_system (- 1)"
proof -
  have "wait_status (Exited c) \<noteq> - 1"
  proof
    assume "wait_status (Exited c) = - 1"
    then have "WIFEXITED (- 1)" using wait_status_exited(1) [of c] by simp
    then show False by (simp add: WIFEXITED_def)
  qed
  then show ?thesis
    by (simp add: do_system_def wait_status_exited wait_status_killed)
qed

theorem do_system_ignores_status_witness:
  "do_system (wait_status (Exited 1)) \<and> \<not> do_system (wait_status (Killed 9))"
  using do_system_ignores_status [of 1 9] by simp

end
