(* ===== verification/Exercises.thy ===== *)
theory Exercises
  imports Prelude
begin

section \<open>The threading exercise and the writer\<close>

text \<open>
  \<^verbatim>\<open>examples/threading/threading.c\<close>: a thread that waits, takes a mutex, holds it and
  releases it; \<^verbatim>\<open>finder-app/writer.c\<close>: a program that writes a string to a file; and the
  constants and the program of \<^verbatim>\<open>examples/autotest-validate\<close> with the test of the user name in
  \<^verbatim>\<open>student-test/assignment1\<close>. The return values of the library calls are arguments.
\<close>

subsection \<open>A thread that obtains a mutex\<close>

record thread_data =
  wait_to_obtain_ms :: "32 word"
  wait_to_release_ms :: "32 word"
  mutex_ptr :: nat
  thread_complete_success :: "bool option"   \<comment> \<open>\<open>None\<close>: not yet assigned\<close>

datatype event = Usleep "32 word" | Lock_call nat | Unlock_call nat

text \<open>The product of two values of type \<open>int\<close>; a product out of range is undefined.\<close>

definition int_times :: "32 word \<Rightarrow> 32 word \<Rightarrow> 32 word result" where
  "int_times x y =
     (if - (2 ^ 31) \<le> sint x * sint y \<and> sint x * sint y < 2 ^ 31 then Inr (x * y) else Inl SignedOverflow)"

definition threadfunc :: "int \<Rightarrow> int \<Rightarrow> thread_data \<Rightarrow> (event list \<times> thread_data) result" where
  "threadfunc lock_r unlock_r args =
     bindr (int_times (wait_to_obtain_ms args) 1000) (\<lambda>obtain_us.
     bindr (if lock_r \<noteq> 0 then Inr (False, [])
            else bindr (int_times (wait_to_release_ms args) 1000) (\<lambda>release_us.
                   Inr (True, [Usleep release_us]))) (\<lambda>(success, held).
     let success = (if unlock_r \<noteq> 0 then False else success)
     in Inr ([Usleep obtain_us, Lock_call (mutex_ptr args)] @ held @ [Unlock_call (mutex_ptr args)],
             args\<lparr>thread_complete_success := Some success\<rparr>)))"

record thread_heap =
  blocks :: "nat \<rightharpoonup> thread_data"
  started_with :: "nat list"   \<comment> \<open>the arguments of the threads started\<close>

definition start_thread_obtaining_mutex ::
  "nat \<Rightarrow> int \<Rightarrow> nat \<Rightarrow> 32 word \<Rightarrow> 32 word \<Rightarrow> thread_heap \<Rightarrow> bool \<times> thread_heap" where
  "start_thread_obtaining_mutex p create_r mutex obtain_ms release_ms h =
     (if p = 0 then (False, h)
      else
        let h = h\<lparr>blocks := (blocks h)(p \<mapsto>
                   \<lparr>wait_to_obtain_ms = obtain_ms, wait_to_release_ms = release_ms, mutex_ptr = mutex,
                    thread_complete_success = None\<rparr>)\<rparr>
        in if create_r \<noteq> 0 then (False, h)
           else (True, h\<lparr>started_with := p # started_with h\<rparr>))"
    \<comment> \<open>\<open>p\<close> and \<open>create_r\<close> are what \<open>malloc\<close> and \<open>pthread_create\<close> return\<close>

lemma int_times_1000:
  assumes "0 \<le> sint x"
  shows "int_times x 1000 = (if sint x \<le> 2147483 then Inr (x * 1000) else Inl SignedOverflow)"
  using assms by (auto simp: int_times_def)

text \<open>
  A thread is started exactly when memory and the thread are available, and does
  what it is told. It sleeps the first time, calls the mutex it was given, sleeps the second
  time only if it got the mutex, and calls for its release in any case, also when it does not
  hold it; it reports success exactly when both calls succeeded. When the thread cannot be
  created, the structure allocated for it stays allocated.
\<close>

theorem thread_obtains_mutex:
  assumes "0 \<le> sint obtain_ms" "sint obtain_ms \<le> 2147483" "0 \<le> sint release_ms" "sint release_ms \<le> 2147483"
    and "start_thread_obtaining_mutex p create_r mutex obtain_ms release_ms h = (started, h')"
  shows "(started \<longleftrightarrow> p \<noteq> 0 \<and> create_r = 0) \<and>
    (p \<noteq> 0 \<longrightarrow> (\<exists>d. blocks h' p = Some d \<and>
       (started \<longrightarrow> threadfunc lock_r unlock_r d =
          Inr ([Usleep (obtain_ms * 1000), Lock_call mutex] @
               (if lock_r = 0 then [Usleep (release_ms * 1000)] else []) @ [Unlock_call mutex],
               d\<lparr>thread_complete_success := Some (lock_r = 0 \<and> unlock_r = 0)\<rparr>))))"
  using assms
  by (auto simp: start_thread_obtaining_mutex_def threadfunc_def int_times_1000 Let_def split: if_splits)

theorem thread_obtains_mutex_witness:
  "fst (start_thread_obtaining_mutex 8 0 4 10 20 \<lparr>blocks = Map.empty, started_with = []\<rparr>)"
  using thread_obtains_mutex [of 10 20 8 0 4 "\<lparr>blocks = Map.empty, started_with = []\<rparr>"
      "fst (start_thread_obtaining_mutex 8 0 4 10 20 \<lparr>blocks = Map.empty, started_with = []\<rparr>)"
      "snd (start_thread_obtaining_mutex 8 0 4 10 20 \<lparr>blocks = Map.empty, started_with = []\<rparr>)"]
  by simp

text \<open>
  The waiting times have a bound. A time of more than 2147483 milliseconds makes
  the conversion to microseconds overflow, before the mutex is asked for in the case of the
  first time, and with the mutex held in the case of the second.
\<close>

theorem threadfunc_overflow:
  assumes "2147483 < sint (wait_to_obtain_ms d) \<or>
           0 \<le> sint (wait_to_obtain_ms d) \<and> lock_r = 0 \<and> 2147483 < sint (wait_to_release_ms d)"
  shows "threadfunc lock_r unlock_r d = Inl SignedOverflow"
  using assms by (auto simp: threadfunc_def int_times_1000)

theorem threadfunc_overflow_witness:
  "threadfunc 0 0 \<lparr>wait_to_obtain_ms = 1, wait_to_release_ms = 3000000, mutex_ptr = 4,
     thread_complete_success = None\<rparr> = Inl SignedOverflow"
  by (rule threadfunc_overflow) simp

subsection \<open>The writer\<close>

text \<open>
  \<open>main\<close> of \<^verbatim>\<open>writer.c\<close>: \<open>argv\<close> without the program's name, whether the file can be opened for
  writing, and the file's contents before; opening for writing truncates. The result is the
  exit status and the contents after.
\<close>

definition writer_main :: "string list \<Rightarrow> bool \<Rightarrow> (string \<rightharpoonup> string) \<Rightarrow> int \<times> (string \<rightharpoonup> string)" where
  "writer_main argv can_open files =
     (case argv of
        [filename, text] \<Rightarrow>
          if \<not> can_open then (1, files) else (0, files(filename \<mapsto> text @ [CHR 0x0A]))
      | _ \<Rightarrow> (1, files))"

lemma writer_main_status:
  "fst (writer_main argv can_open files) = 0 \<longleftrightarrow> length argv = 2 \<and> can_open"
  "fst (writer_main argv can_open files) \<noteq> 0 \<Longrightarrow> snd (writer_main argv can_open files) = files"
  by (auto simp: writer_main_def split: list.splits)

lemma writer_main_writes:
  "writer_main [f, t] True files = (0, files') \<Longrightarrow>
   files' f = Some (t @ [CHR 0x0A]) \<and> (\<forall>g. g \<noteq> f \<longrightarrow> files' g = files g)"
  by (auto simp: writer_main_def)

subsection \<open>The validation exercise\<close>

definition this_function_returns_true :: bool where "this_function_returns_true = True"
definition this_function_returns_false :: bool where "this_function_returns_false = False"
definition my_username :: string where "my_username = ''Andrej220''"

text \<open>What \<open>main\<close> of \<^verbatim>\<open>autotest-validate-main.c\<close> prints.\<close>

definition validate_main :: string where
  "validate_main =
     ''this_function_returns_true returned '' @ (if this_function_returns_true then ''true'' else ''false'') @ [CHR 0x0A] @
     ''this_function_returns_false returned '' @ (if this_function_returns_false then ''true'' else ''false'') @ [CHR 0x0A]"

text \<open>
  The test of the user name. \<open>malloc_username_from_conf_file\<close> is in a submodule and the assertion
  in the Unity test framework, so both are parameters: the string obtained (\<open>None\<close> for a null
  pointer), and the assertion as a function of the two strings and the message, with the failure
  message, if any, as its result.
\<close>

definition test_validate_my_username ::
  "(string option \<Rightarrow> string option \<Rightarrow> string \<Rightarrow> string option) \<Rightarrow> string option \<Rightarrow> string option" where
  "test_validate_my_username assert_equal_string malloc_username_from_conf_file =
     assert_equal_string (Some my_username) malloc_username_from_conf_file ''AESD students''"

text \<open>The documented behaviour of the assertion: it passes exactly for equal strings.\<close>

definition assert_ok :: "(string option \<Rightarrow> string option \<Rightarrow> string \<Rightarrow> string option) \<Rightarrow> bool" where
  "assert_ok assert_equal_string \<longleftrightarrow> (\<forall>x y m. assert_equal_string x y m = (if x = y then None else Some m))"

lemma username_test_passes:
  "assert_ok eq \<Longrightarrow> test_validate_my_username eq conf = None \<longleftrightarrow> conf = Some ''Andrej220''"
  by (auto simp: test_validate_my_username_def assert_ok_def my_username_def)

lemma assert_ok_satisfiable: "assert_ok (\<lambda>x y m. if x = y then None else Some m)"
  by (simp add: assert_ok_def)

lemma validate_main_prints:
  "validate_main = ''this_function_returns_true returned true'' @ CHR 0x0A #
     ''this_function_returns_false returned false'' @ [CHR 0x0A]"
  by (simp add: validate_main_def this_function_returns_true_def this_function_returns_false_def)

end
