(* ===== verification/Spec2Isabelle.thy ===== *)
theory Spec2Isabelle
  imports Server_Concurrent Server_Earlier Server_Forked Driver_Module Server_Properties Server_Threads Server_Timer System_Calls Exercises
begin

text \<open>
  \<^bold>\<open>The AESD repository.\<close> A Linux character driver keeps the ten most recent
  newline-terminated writes (\<^verbatim>\<open>aesd-char-driver/\<close>); a socket server appends what its clients
  send to that device and sends the contents back (\<^verbatim>\<open>server/\<close>); and a few exercises stand
  beside them (\<^verbatim>\<open>examples/\<close>, \<^verbatim>\<open>finder-app/\<close>). The server reaches the driver through the
  file operations of \<^verbatim>\<open>/dev/aesdchar\<close>; the driver keeps its records in the circular buffer.

  \<^bold>\<open>Theories, in the order of the code.\<close>
  \<^item> \<open>Prelude\<close>: C integers as words, faults (undefined behaviour) and results, runs with
    fuel, a heap of byte blocks, \<open>strchr\<close>, searching a list of sizes.
  \<^item> \<open>Interfaces\<close>: the locales \<open>bounded_fifo\<close> (a queue that drops its oldest element),
    \<open>located_store\<close> (finding a byte position in a sequence of entries) and \<open>byte_source\<close>
    (reading until nothing comes), with what their clients may conclude.
  \<^item> \<open>Circular_Buffer\<close>: \<^verbatim>\<open>aesd-circular-buffer.h\<close> and \<^verbatim>\<open>.c\<close>, one definition per operation,
    and the interpretations of the first two locales.
  \<^item> \<open>Char_Driver\<close>: the handlers of \<^verbatim>\<open>main.c\<close> (\<open>aesd_open\<close>, \<open>aesd_release\<close>, \<open>aesd_read\<close>,
    \<open>aesd_write\<close>, \<open>aesd_llseek\<close>, \<open>aesd_ioctl\<close>, and their table \<open>aesd_fops\<close>) over a state with the device, its mutex and the
    heap. \<open>Driver_Correct\<close> and \<open>Driver_Write\<close> hold the invariant, the abstraction to a list
    of records and the lemmas on each handler; \<open>Sample_Kernel\<close> a concrete kernel and states
    for the witnesses; \<open>Driver_Properties\<close> the properties of single calls; \<open>Device_Runs\<close> the
    step relation of all interleaved calls, what is reachable, and reading back what was
    written. \<open>Driver_Module\<close>: loading and unloading of the module.
  \<^item> \<open>Server_Command\<close>: the seek command in a packet (\<open>sscanf\<close>). \<open>Server_Thread\<close>: \<open>recieve_text\<close>
    with \<open>savetofile\<close>, \<open>sendfile\<close> and \<open>savetime\<close> of \<^verbatim>\<open>aesdsocket_linkedlists.c\<close>.
    \<open>Server_Safety\<close>: its mutexes, resources and fuel in any environment. \<open>Server_Refinement\<close>:
    the specification of a connection, the locale \<open>connection_env\<close> between server and
    environment, and the refinement proof. \<open>Server_World\<close>: an environment made of the driver
    model, on which the locale is interpreted. \<open>Server_Properties\<close>: what a client gets.
    \<open>Server_Concurrent\<close>: the threads of several connections interleaved on one device, with
    the parts of \<open>recieve_text\<close> as their steps, and the clients, which connect, send and close
    at any time; a pass of the receive loop can be made only when its client has sent something
    or closed. The locale is interpreted a second time, with an invariant that bounds the
    streams in use.
  \<^item> \<open>Server_List\<close>: the linked list of connections. \<open>Server_Main\<close>: start and end of the
    process. \<open>Server_Threads\<close>: the accept loop interleaved with its threads, for the memory
    they share (here a thread is only a phase; what it does is in \<open>Server_Concurrent\<close>). \<open>Server_Timer\<close>:
    the time stamps. \<open>Server_Earlier\<close>: the forking variant \<^verbatim>\<open>aesdsocket.c\<close>, its own
    specification, and a second refinement inside \<open>connection_env\<close>. \<open>Server_Forked\<close>: its children
    at the same time, each step one undisturbed pass of a receive loop; this gives some of the
    runs of the program, and is used only to show that a bad one exists.
  \<^item> \<open>System_Calls\<close>: \<^verbatim>\<open>examples/systemcalls\<close>. \<open>Exercises\<close>: \<^verbatim>\<open>examples/threading\<close>,
    \<^verbatim>\<open>finder-app/writer.c\<close>, \<^verbatim>\<open>examples/autotest-validate\<close> and the test in \<^verbatim>\<open>student-test\<close>.

  \<^bold>\<open>State and operations.\<close> Structures are records with the members of the source, machine
  integers are words of their width, and an operation is one definition from state to state.
  Undefined behaviour (a null or dangling pointer, an index out of range, an uninitialised
  value, a signed overflow, locking a mutex twice) is the left side of a sum; the error codes
  a function returns are part of its result. The services of the kernel, the C library's
  streams and the system calls are arguments: \<open>kernel\<close> with \<open>kernel_ok\<close> for the driver,
  \<open>chrdev_services\<close> with \<open>chrdev_ok\<close> for the module, \<open>os\<close> for the connection thread, \<open>answers\<close>
  for the start of the server, \<open>sys_env\<close> for the exercises. What is assumed of them is what
  their documentation says, and a concrete instance satisfies it (\<open>sample_kernel\<close>,
  \<open>sample_services\<close>, \<open>driver_os\<close>).

  \<^bold>\<open>What the lemmas show.\<close> The buffer is a queue of at most ten entries and its position
  search is the search in the list of entries. The driver keeps an invariant in every
  reachable state, its calls return except where its newline test overruns, file positions and
  return values stay in their ranges, and reading it to the end gives the last ten lines written. The connection thread releases its mutexes and
  resources and refines a specification of a connection; with the driver below, a client gets
  back the device with its own line last, or the device from the place it asked for. The
  threads of any number of connections, interleaved in any way, leave the device and the
  clients as if the connections had been served one by one in the order of the mutex; they all
  end once their clients have closed, and neither they nor the driver fault as long as \<open>recv\<close>
  does not fail and every packet is a seek command or has a newline. The theorems at the end of this theory put all of this together for any
  number of clients, one after the other and at the same time. Where the code does not do what it means to,
  the property states what it does: dropped records are never freed, a failed reallocation
  loses the pending bytes, the newline test can leave its block, the seek command tests the
  wrong record once the buffer has wrapped, a connection is answered only once, one idle
  client keeps all others waiting, a failed \<open>recv\<close> writes outside the buffer, the accept loop can touch freed memory and the list of
  connections can become a cycle, two of the system call exercises do not report failures.
  The earlier variant answers every line, provided the array it gets from \<open>malloc\<close> happens to hold
  a NUL behind what it receives; it ignores seek commands, does not survive a failed
  \<open>fork\<close>, and its processes do not keep each other from the device, so that lines sent in
  pieces can be torn apart.

  \<^bold>\<open>Bounds and fuel.\<close> Loops over the ring run at most ten times, as in the code. A single read
  or write is at most \<open>MAX_RW_COUNT\<close> bytes, the limit of the kernel's VFS, and an allocation at
  most \<open>kmalloc_max\<close>, at most \<open>2 ^ 32\<close> bytes, so that the sizes of ten records never wrap. The
  receive loops, the loops that send, and the walks over the list of connections run on
  fuel; the refinement theorem says that enough fuel gives the result and that more fuel gives
  the same one (\<open>recieve_text_mono\<close>). A run of interleaved threads is at most as long as \<open>work\<close>
  of its first state.

  \<^bold>\<open>The world of the server.\<close> \<open>Server_Thread\<close> has every failure of the calls that the source can
  see, and \<open>Server_Safety\<close> is about any environment. The environment made of the driver
  (\<open>driver_os\<close>) is one in which opening, \<open>malloc\<close> and \<open>send\<close> succeed and \<open>recv\<close> does not fail; memory
  of the kernel may be short. \<open>recv\<close> reports the end of the stream when no packet is left, so a
  single connection in \<open>Server_Properties\<close> is one whose client closes its end after its packets;
  waiting is in \<open>Server_Concurrent\<close>. A fault of the driver leaves no device (\<open>None\<close>), which no later
  call brings back, so that theorems which end with a device exclude it.

  \<^bold>\<open>Not modelled.\<close> Logging; the contents of the C library and the kernel; the order of memory
  accesses of threads between two operations on mutexes; a signal that arrives in the middle
  of an operation; threads or processes that run between the calls of one step of another one (a step is
  the opening, one pass of the receive loop or the closing); the shared counter
  \<open>activethreads\<close>, which nothing reads; the functions of \<^verbatim>\<open>aesdsocket.c\<close> whose bodies are commented
  out (its timer); the Unity framework and the submodule of the user name test, which are parameters;
  shell scripts and build files.
\<close>

section \<open>Any number of clients\<close>

text \<open>
  Clients one after the other, as the server's mutex orders them: each connection is a run of
  \<open>recieve_text\<close> on the world the previous one left, with one packet to come. The result is
  what each client received and the world at the end.
\<close>

definition session_thread :: "drv_world \<Rightarrow> u8 list \<Rightarrow> drv_world thread" where
  "session_thread w l =
     \<lparr>world = w\<lparr>w_inbox := [l], w_outbox := []\<rparr>, held = {}, owned = [Params, Descriptor 7],
      params = \<lparr>conn_done = False, ostream = 0, filename = FILENAME, istream = 7, pid = 0, conn_s = []\<rparr>,
      activethreads = 0\<rparr>"

fun sessions :: "kernel \<Rightarrow> nat \<Rightarrow> drv_world \<Rightarrow> u8 list list \<Rightarrow> (u8 list list \<times> drv_world) run" where
  "sessions k fuel w [] = ret ([], w)"
| "sessions k fuel w (l # ls) =
     bindx (recieve_text fuel (driver_os k) (session_thread w l)) (\<lambda>u.
     bindx (sessions k fuel (world u) ls) (\<lambda>(replies, w').
       ret (w_outbox (world u) # replies, w')))"

definition plain_line :: "kernel \<Rightarrow> u8 list \<Rightarrow> bool" where
  "plain_line k l \<longleftrightarrow> is_line l \<and> length l \<le> MAXBUFFER \<and> parse_seek (scan_overflow (driver_os k)) l = None"

definition idle :: "kernel \<Rightarrow> drv_world \<Rightarrow> kstate \<Rightarrow> bool" where
  "idle k w s \<longleftrightarrow> drv_inv k w \<and> quiet (drv_view w) \<and> w_dev w = Some s \<and> pending s = null_entry"

lemma session_start:
  assumes "idle k w s" and "plain_line k l"
  shows "connection_start k (session_thread w l)"
proof -
  have "drv_inv k w" "quiet (drv_view w)" "l \<noteq> []" "length l \<le> MAXBUFFER"
    using assms by (auto simp: idle_def plain_line_def is_line_def)
  then show ?thesis
    by (simp add: connection_start_def session_thread_def drv_inv_def quiet_def drv_view_def stream_status_def)
qed

lemma session_run:
  assumes "idle k w s" and "plain_line k l" and "fst (kzalloc k (kheap s) (of_nat (length l))) \<noteq> 0"
  shows "\<exists>n u s'. (\<forall>m \<ge> n. recieve_text m (driver_os k) (session_thread w l) = ret u) \<and>
     idle k (world u) s' \<and> driver_write k l (Some s) = Some s' \<and>
     dev_records s' = window (dev_records s @ [l]) \<and>
     w_outbox (world u) = concat (window (dev_records s @ [l]))"
proof -
  have "w_dev (world (session_thread w l)) = Some s" "w_inbox (world (session_thread w l)) = [l]"
    "w_outbox (world (session_thread w l)) = []" "pending s = null_entry"
    "is_line l" "parse_seek (scan_overflow (driver_os k)) l = None"
    using assms(1,2) by (simp_all add: session_thread_def idle_def plain_line_def)
  with line_connection [OF session_start [OF assms(1,2)], of s l] assms(3) show ?thesis
    unfolding idle_def by (metis append_Nil)
qed

lemma sessions_run:
  "idle k w s \<Longrightarrow> \<forall>l \<in> set ls. plain_line k l \<Longrightarrow> memory_for k s ls \<Longrightarrow>
   \<exists>n w'. \<forall>m \<ge> n. sessions k m w ls =
     ret (map (\<lambda>i. concat (window (dev_records s @ take (Suc i) ls))) [0..<length ls], w')"
proof (induction ls arbitrary: w s)
  case (Cons l ls)
  obtain n u s' where u: "\<forall>m \<ge> n. recieve_text m (driver_os k) (session_thread w l) = ret u"
    "idle k (world u) s'" "driver_write k l (Some s) = Some s'" "dev_records s' = window (dev_records s @ [l])"
    "w_outbox (world u) = concat (window (dev_records s @ [l]))"
    using session_run [OF Cons.prems(1), of l] Cons.prems(2,3) by auto
  obtain n' w' where ih: "\<forall>m \<ge> n'. sessions k m (world u) ls =
     ret (map (\<lambda>i. concat (window (dev_records s' @ take (Suc i) ls))) [0..<length ls], w')"
    using Cons.IH [OF u(2)] Cons.prems(2,3) u(3) by auto
  have "map (\<lambda>i. concat (window (dev_records s @ take (Suc i) (l # ls)))) [0..<length (l # ls)] =
      concat (window (dev_records s @ [l])) #
      map (\<lambda>i. concat (window (dev_records s' @ take (Suc i) ls))) [0..<length ls]"
    unfolding u(4) by (rule window_history)
  then have "\<forall>m \<ge> max n n'. sessions k m w (l # ls) =
      ret (map (\<lambda>i. concat (window (dev_records s @ take (Suc i) (l # ls)))) [0..<length (l # ls)], w')"
    using u(1,5) ih by simp
  then show ?case by blast
qed simp

lemma sample_plain_lines: "\<forall>l \<in> set [[120, 10], [121, 10]]. plain_line (sample_kernel [] []) l"
  using sample_text_lines text_line_no_command [where rest = "[]"] by (auto simp: plain_line_def text_line_def)

text \<open>
  Claim C7: The system does what it is for. On a device with no records, let any number of
  clients connect one after the other, each sending one line that is not a command, with
  memory available. Then every connection ends, and the \<open>i\<close>-th client receives exactly the last
  ten lines sent up to and including its own, in the order they were sent.
\<close>

theorem clients_get_last_ten_lines:
  assumes "idle k w s" and "dev_records s = []" and "\<forall>l \<in> set ls. plain_line k l" and "memory_for k s ls"
  shows "\<exists>n replies w'. (\<forall>m \<ge> n. sessions k m w ls = ret (replies, w')) \<and>
     length replies = length ls \<and>
     (\<forall>i < length ls. replies ! i = concat (window (take (Suc i) ls)))"
  using sessions_run [OF assms(1,3,4)] assms(2) by fastforce

theorem clients_get_last_ten_lines_witness:
  "\<exists>n w'. sessions (sample_kernel [] []) n (world (new_connection fresh_state [])) [[120, 10], [121, 10]] =
     ret ([[120, 10], [120, 10, 121, 10]], w')"
proof -
  let ?k = "sample_kernel [] []" and ?w = "world (new_connection fresh_state [])"
  let ?ls = "[[120, 10], [121, 10]] :: u8 list list"
  have "connection_start ?k (new_connection fresh_state [])"
    by (rule new_connection_start) (simp_all add: sample_kernel_ok)
  then have idle: "idle ?k ?w fresh_state"
    by (simp add: idle_def connection_start_def)
  have plain: "\<forall>l \<in> set ?ls. plain_line ?k l"
    by (rule sample_plain_lines)
  obtain n r w' where r: "\<forall>m \<ge> n. sessions ?k m ?w ?ls = ret (r, w')" "length r = 2"
    "\<forall>i < 2. r ! i = concat (window (take (Suc i) ?ls))"
    using clients_get_last_ten_lines [OF idle _ plain sample_memory_for(1)] by auto
  then have "r = [r ! 0, r ! 1]"
    by (cases r; cases "tl r") auto
  with r(3) have "r = [[120, 10], [120, 10, 121, 10]]"
    by (simp add: window_def All_less_Suc numeral_2_eq_2)
  with r(1) show ?thesis by blast
qed

section \<open>Any number of clients at the same time\<close>

lemma serial_lines:
  "kernel_ok k \<Longrightarrow> dev_inv s \<Longrightarrow> pending s = null_entry \<Longrightarrow> \<forall>l \<in> set ls. plain_line k l \<Longrightarrow> memory_for k s ls \<Longrightarrow>
   \<exists>d'. serial (scan_overflow (driver_os k)) (driver_device k) (map (\<lambda>l. [l]) ls) (Some s) =
     (d', map (\<lambda>i. concat (window (dev_records s @ take (Suc i) ls))) [0..<length ls])"
proof (induction ls arbitrary: s)
  case (Cons l ls)
  have l: "is_line l" "length l \<le> MAXBUFFER" "parse_seek (scan_overflow (driver_os k)) l = None"
    and mem: "fst (kzalloc k (kheap s) (of_nat (length l))) \<noteq> 0"
    using Cons.prems(4,5) by (auto simp: plain_line_def)
  obtain s1 where s1: "connection_spec (scan_overflow (driver_os k)) (driver_device k) [l] (False, Some s) =
      ((True, Some s1), concat (window (dev_records s @ [l])))" "driver_write k l (Some s) = Some s1"
    "dev_records s1 = window (dev_records s @ [l])" "pending s1 = null_entry" "dev_inv s1"
    using line_spec [OF Cons.prems(1-3) l mem] by blast
  from Cons.IH [OF Cons.prems(1) s1(5,4)] obtain d' where
    "serial (scan_overflow (driver_os k)) (driver_device k) (map (\<lambda>l. [l]) ls) (Some s1) =
     (d', map (\<lambda>i. concat (window (dev_records s1 @ take (Suc i) ls))) [0..<length ls])"
    using Cons.prems(4,5) s1(2) by auto
  then show ?case
    unfolding window_history using s1(1,3) by (simp del: connection_spec.simps)
qed simp

text \<open>
  Claim C1: The system does what it is for, under any interleaving. Let any number of clients
  connect, at any time, to a server on a device with no records, each sending one line that
  is not a command, with memory available. Whenever no thread is in the mutex, the \<open>i\<close>-th
  client to have got it has received exactly the last ten lines up to and including its own,
  in the order in which the threads got the mutex.
\<close>

theorem concurrent_clients_get_last_ten_lines:
  assumes "site_reach k w S" and "idle k w s" and "dev_records s = []" and "\<not> locked S"
    and "\<forall>c \<in> set (lock_order S). sent S c = [line c] \<and> plain_line k (line c)"
    and "memory_for k s (map line (lock_order S))" and "i < length (lock_order S)"
  shows "out_of S (lock_order S ! i) = concat (window (map line (take (Suc i) (lock_order S))))"
proof -
  have w: "idle_world k w" "w_dev w = Some s" "pending s = null_entry" "kernel_ok k" "dev_inv s"
    using assms(2) by (auto simp: idle_def idle_world_def drv_inv_def)
  have order: "map (sent S) (lock_order S) = map (\<lambda>l. [l]) (map line (lock_order S))"
    using assms(5) by simp
  have "atomic k (w_dev w) S"
    using site_reach_inv [OF assms(1) w(1)] assms(4) by (simp add: site_inv_def progress_ok_def)
  moreover obtain d' where "serial (scan_overflow (driver_os k)) (driver_device k)
      (map (\<lambda>l. [l]) (map line (lock_order S))) (Some s) =
     (d', map (\<lambda>i. concat (window (take (Suc i) (map line (lock_order S))))) [0..<length (lock_order S)])"
    using serial_lines [OF w(4,5,3) _ assms(6)] assms(3,5) by auto
  ultimately have "map (out_of S) (lock_order S) =
      map (\<lambda>i. concat (window (take (Suc i) (map line (lock_order S))))) [0..<length (lock_order S)]"
    unfolding atomic_def order w(2) by simp
  then have "map (out_of S) (lock_order S) ! i =
      map (\<lambda>i. concat (window (take (Suc i) (map line (lock_order S))))) [0..<length (lock_order S)] ! i"
    by simp
  then show ?thesis
    using assms(7) by (simp add: take_map del: upt_Suc)
qed

lemma two_orders:
  assumes "distinct xs" and "set xs = {0, 1 :: nat}"
  shows "xs = [0, 1] \<or> xs = [1, 0]"
proof -
  have "length xs = 2" using distinct_card [OF assms(1)] assms(2) by simp
  then obtain a b where "xs = [a, b]" by (auto simp: numeral_2_eq_2 length_Suc_conv)
  with assms show ?thesis by (auto simp: doubleton_eq_iff)
qed

theorem concurrent_clients_get_last_ten_lines_witness:
  "\<exists>S. site_reach (sample_kernel [] []) fresh_world S \<and> all_closed S \<and>
     (out_of S 0 = [120, 10] \<and> out_of S 1 = [120, 10, 121, 10] \<or>
      out_of S 1 = [121, 10] \<and> out_of S 0 = [121, 10, 120, 10])"
proof -
  let ?k = "sample_kernel [] []" and ?line = "\<lambda>c :: nat. if c = 0 then [120, 10] else [121, 10] :: u8 list"
  obtain S where S: "site_reach ?k fresh_world S" "(work_step ?k)\<^sup>*\<^sup>* two_clients S" "all_closed S"
    using reach_closed [OF two_clients_reach fresh_world_idle two_clients_hung_up] by blast
  have start: "idle ?k fresh_world fresh_state"
    using fresh_world_idle by (simp add: idle_def idle_world_def fresh_world_def)
  have clients: "sent S 0 = [[120, 10]]" "sent S 1 = [[121, 10]]" "dom (peers S) = {0, 1}"
    using work_steps_clients [OF S(2)] by (auto simp: two_clients_def arrive_def site_start_def)
  have ok: "order_ok S"
    using site_reach_inv [OF S(1) fresh_world_idle] by (simp add: site_inv_def)
  have past: "(\<exists>st t. peers S c = Some (st, t) \<and> past_lock st) \<longleftrightarrow> c \<in> dom (peers S)" for c
    using S(3) by (fastforce simp: all_closed_def)
  have "distinct (lock_order S)" "set (lock_order S) = {0, 1}"
    using ok unfolding order_ok_def past clients(3) by blast+
  then have order: "lock_order S = [0, 1] \<or> lock_order S = [1, 0]" by (rule two_orders)
  have sent: "\<forall>c \<in> set (lock_order S). sent S c = [?line c] \<and> plain_line ?k (?line c)"
    and mem: "memory_for ?k fresh_state (map ?line (lock_order S))"
    using order clients(1,2) sample_plain_lines sample_memory_for by auto
  note last_ten = concurrent_clients_get_last_ten_lines [OF S(1) start _ closed_not_locked [OF S(3)] sent mem]
  have "out_of S (lock_order S ! 0) = concat (window (map ?line (take 1 (lock_order S))))"
    "out_of S (lock_order S ! 1) = concat (window (map ?line (take 2 (lock_order S))))"
    using last_ten [of 0] last_ten [of 1] order by (auto simp: numeral_2_eq_2)
  then show ?thesis
    using order S(1,3) by (intro exI [of _ S]) (auto simp: window_def)
qed

end
